(* ===== verification/KPrelude.thy ===== *)
theory KPrelude
  imports Main "HOL-Library.Word" "HOL-Library.Signed_Division"
begin

text \<open>
  What every component of the development shares: the C integer conversions of the 64-bit
  kernel ABI (\<open>int\<close> is 32 bits, \<open>long\<close>, \<open>loff_t\<close>, \<open>ssize_t\<close> and \<open>size_t\<close> are 64 bits),
  C division, the memory faults an operation can run into, the store of kernel objects
  behind pointers, and the lemmas about lists and buffers the component proofs use.
\<close>

section \<open>Proof collections\<close>

named_theorems c_range \<open>conversions that are the identity on the values in range\<close>
named_theorems kmem \<open>loads, stores and frees at addresses whose state is known\<close>

section \<open>Faults and results\<close>

text \<open>
  A fault is what the C code cannot survive: it is the left value of a result. The error
  codes the code returns (\<open>-EFAULT\<close>, \<open>-ENOMEM\<close>, ...) are ordinary integers on the right.
  \<open>Blocked\<close> says that the call sleeps on a lock nobody can release while it sleeps.
\<close>

datatype fault =
    NullDeref | UseAfterFree | OutOfBounds | BadFree | DivTrap | Blocked

type_synonym 'a res = "fault + 'a"

definition kbind :: "'a res \<Rightarrow> ('a \<Rightarrow> 'b res) \<Rightarrow> 'b res" where
  "kbind m f = (case m of Inl e \<Rightarrow> Inl e | Inr x \<Rightarrow> f x)"

lemma kbind_simps [simp]:
  "kbind (Inl e) f = Inl e"
  "kbind (Inr x) f = f x"
  by (simp_all add: kbind_def)

lemma kbind_cong [fundef_cong]:
  "m = m' \<Longrightarrow> (\<And>x. m' = Inr x \<Longrightarrow> f x = g x) \<Longrightarrow> kbind m f = kbind m' g"
  by (cases m') auto

lemma kbind_Inr_iff: "kbind m f = Inr y \<longleftrightarrow> (\<exists>x. m = Inr x \<and> f x = Inr y)"
  by (cases m) auto

lemma kbind_InrE:
  assumes "kbind m f = Inr y"
  obtains x where "m = Inr x" and "f x = Inr y"
  using assms by (auto simp: kbind_Inr_iff)

lemma kbind_if: "kbind (if b then m else n) f = (if b then kbind m f else kbind n f)"
  by simp

section \<open>Machine integers\<close>

text \<open>
  The values of C integer variables are \<open>int\<close>s; every conversion and every arithmetic
  operation that can leave the type's range goes through one of these (the kernel is built
  with wrapping signed arithmetic, \<open>-fno-strict-overflow\<close>).
\<close>

definition s32 :: "int \<Rightarrow> int" where "s32 x = (x + 2 ^ 31) mod 2 ^ 32 - 2 ^ 31"
definition s64 :: "int \<Rightarrow> int" where "s64 x = (x + 2 ^ 63) mod 2 ^ 64 - 2 ^ 63"
definition u32 :: "int \<Rightarrow> int" where "u32 x = x mod 2 ^ 32"
definition u64 :: "int \<Rightarrow> int" where "u64 x = x mod 2 ^ 64"

lemma s32_id [c_range]: "- (2 ^ 31) \<le> x \<Longrightarrow> x < 2 ^ 31 \<Longrightarrow> s32 x = x"
  by (simp add: s32_def)

lemma s64_id [c_range]: "- (2 ^ 63) \<le> x \<Longrightarrow> x < 2 ^ 63 \<Longrightarrow> s64 x = x"
  by (simp add: s64_def)

lemma u32_id [c_range]: "0 \<le> x \<Longrightarrow> x < 2 ^ 32 \<Longrightarrow> u32 x = x"
  by (simp add: u32_def)

lemma u64_id [c_range]: "0 \<le> x \<Longrightarrow> x < 2 ^ 64 \<Longrightarrow> u64 x = x"
  by (simp add: u64_def)

lemma s32_nonneg: "0 \<le> x \<Longrightarrow> x < 2 ^ 31 \<Longrightarrow> s32 x = x"
  by (simp add: s32_def)

lemma s64_nonneg: "0 \<le> x \<Longrightarrow> x < 2 ^ 63 \<Longrightarrow> s64 x = x"
  by (simp add: s64_def)

lemma s32_bounds: "- (2 ^ 31) \<le> s32 x" "s32 x < 2 ^ 31"
  using pos_mod_bound [of "2 ^ 32" "x + 2 ^ 31"] by (auto simp: s32_def)

lemma u64_bounds: "0 \<le> u64 x" "u64 x < 2 ^ 64"
  by (auto simp: u64_def)

lemma u32_bounds: "0 \<le> u32 x" "u32 x < 2 ^ 32"
  by (auto simp: u32_def)

text \<open>
  C division truncates towards zero and traps on a zero divisor and on the one overflowing
  quotient; \<open>w\<close> is the width of the (promoted) operands.
\<close>

definition c_div :: "nat \<Rightarrow> int \<Rightarrow> int \<Rightarrow> int res" where
  "c_div w a b = (if b = 0 \<or> (a = - (2 ^ (w - 1)) \<and> b = -1) then Inl DivTrap else Inr (a sdiv b))"

definition c_mod :: "nat \<Rightarrow> int \<Rightarrow> int \<Rightarrow> int res" where
  "c_mod w a b = (if b = 0 \<or> (a = - (2 ^ (w - 1)) \<and> b = -1) then Inl DivTrap else Inr (a smod b))"

lemma c_div_nonneg: "0 \<le> a \<Longrightarrow> 0 < b \<Longrightarrow> c_div w a b = Inr (a div b)"
  by (cases "a = 0") (simp_all add: c_div_def signed_divide_int_def)

lemma c_mod_nonneg: "0 \<le> a \<Longrightarrow> 0 < b \<Longrightarrow> c_mod w a b = Inr (a mod b)"
  by (cases "a = 0") (simp_all add: c_mod_def signed_modulo_int_def)

lemma c_div_zero [simp]: "c_div w a 0 = Inl DivTrap"
  by (simp add: c_div_def)

section \<open>Bytes and buffers\<close>

type_synonym byte = "8 word"

text \<open>\<open>buf_write old off bs\<close> is the buffer after \<open>memcpy(buf + off, bs, length bs)\<close>.\<close>

definition buf_write :: "'a list \<Rightarrow> nat \<Rightarrow> 'a list \<Rightarrow> 'a list" where
  "buf_write old off bs = take off old @ bs @ drop (off + length bs) old"

lemma length_buf_write [simp]:
  "off + length bs \<le> length old \<Longrightarrow> length (buf_write old off bs) = length old"
  by (simp add: buf_write_def)

lemma nth_buf_write:
  assumes "off + length bs \<le> length old" "i < length old"
  shows "buf_write old off bs ! i =
    (if off \<le> i \<and> i < off + length bs then bs ! (i - off) else old ! i)"
  using assms by (auto simp: buf_write_def nth_append min_def)

lemma nth_take_drop: "i < n \<Longrightarrow> off + n \<le> length xs \<Longrightarrow> take n (drop off xs) ! i = xs ! (off + i)"
  by simp

section \<open>Kernel objects behind pointers\<close>

text \<open>
  A pointer is a 64-bit word, 0 is \<open>NULL\<close>. The store maps the start address of each live
  object to its contents: \<open>kmalloc\<close> adds an entry, \<open>kfree\<close> removes it. A pointer to an
  address without an entry dangles.
\<close>

type_synonym ptr = "64 word"
type_synonym 'o kheap = "ptr \<Rightarrow> 'o option"

abbreviation NULL :: ptr where "NULL \<equiv> 0"

definition live :: "'o kheap \<Rightarrow> ptr \<Rightarrow> bool" where
  "live h p \<longleftrightarrow> h p \<noteq> None"

definition kload :: "'o kheap \<Rightarrow> ptr \<Rightarrow> 'o res" where
  "kload h p = (if p = NULL then Inl NullDeref
     else case h p of None \<Rightarrow> Inl UseAfterFree | Some x \<Rightarrow> Inr x)"

definition kstore :: "'o kheap \<Rightarrow> ptr \<Rightarrow> 'o \<Rightarrow> 'o kheap res" where
  "kstore h p x = kbind (kload h p) (\<lambda>_. Inr (h(p \<mapsto> x)))"

definition kfree :: "'o kheap \<Rightarrow> ptr \<Rightarrow> 'o kheap res" where
  "kfree h p = (if p = NULL then Inr h
     else case h p of None \<Rightarrow> Inl BadFree | Some _ \<Rightarrow> Inr (h(p := None)))"

lemma kload_live [kmem]: "p \<noteq> NULL \<Longrightarrow> h p = Some x \<Longrightarrow> kload h p = Inr x"
  by (simp add: kload_def)

lemma kload_NULL [kmem]: "kload h NULL = Inl NullDeref"
  by (simp add: kload_def)

lemma kload_dangling [kmem]: "p \<noteq> NULL \<Longrightarrow> h p = None \<Longrightarrow> kload h p = Inl UseAfterFree"
  by (simp add: kload_def)

lemma kstore_live [kmem]: "p \<noteq> NULL \<Longrightarrow> h p = Some x \<Longrightarrow> kstore h p y = Inr (h(p \<mapsto> y))"
  by (simp add: kstore_def kload_def)

lemma kfree_live [kmem]: "p \<noteq> NULL \<Longrightarrow> h p = Some x \<Longrightarrow> kfree h p = Inr (h(p := None))"
  by (simp add: kfree_def)

lemma kfree_NULL [kmem]: "kfree h NULL = Inr h"
  by (simp add: kfree_def)

lemma kfree_double [kmem]: "p \<noteq> NULL \<Longrightarrow> h p = None \<Longrightarrow> kfree h p = Inl BadFree"
  by (simp add: kfree_def)

lemma kload_InrD: "kload h p = Inr x \<Longrightarrow> p \<noteq> NULL \<and> h p = Some x"
  by (auto simp: kload_def split: if_splits option.splits)

lemma kfree_dom: "kfree h p = Inr h' \<Longrightarrow> dom h' \<subseteq> dom h"
  by (auto simp: kfree_def split: if_splits option.splits)

lemma kfree_dom_less: "kfree h p = Inr h' \<Longrightarrow> p \<noteq> NULL \<Longrightarrow> dom h' \<subset> dom h"
  by (auto simp: kfree_def split: if_splits option.splits)

lemma kstore_dom: "kstore h p x = Inr h' \<Longrightarrow> dom h' = dom h"
  by (auto simp: kstore_def kbind_Inr_iff dest!: kload_InrD split: if_splits)

lemma finite_dom_kheap [simp]: "finite (dom (h :: 'o kheap))"
  by simp

lemma kfree_card: "kfree h p = Inr h' \<Longrightarrow> p \<noteq> NULL \<Longrightarrow> card (dom h') < card (dom h)"
  by (rule psubset_card_mono [OF finite_dom_kheap kfree_dom_less])

lemma fresh_card: "h p = None \<Longrightarrow> card (- insert p (dom h)) < card (- dom (h :: 'o kheap))"
  by (rule psubset_card_mono) auto

text \<open>\<open>h except A\<close>: the store once every object of \<open>A\<close> has been freed.\<close>

definition freed :: "'o kheap \<Rightarrow> ptr set \<Rightarrow> 'o kheap" where
  "freed h A = (\<lambda>x. if x \<in> A then None else h x)"

lemma freed_empty [simp]: "freed h {} = h"
  by (simp add: freed_def)

lemma freed_freed [simp]: "freed (freed h A) B = freed h (A \<union> B)"
  by (auto simp: freed_def)

lemma freed_apply: "freed h A x = (if x \<in> A then None else h x)"
  by (simp add: freed_def)

lemma upd_None_freed: "h(p := None) = freed h {p}"
  by (auto simp: freed_def)

text \<open>Array accesses \<open>a[i]\<close> check the bounds.\<close>

definition arr_get :: "'a list \<Rightarrow> int \<Rightarrow> 'a res" where
  "arr_get xs i = (if 0 \<le> i \<and> i < int (length xs) then Inr (xs ! nat i) else Inl OutOfBounds)"

lemma arr_get_in [kmem]: "0 \<le> i \<Longrightarrow> i < int (length xs) \<Longrightarrow> arr_get xs i = Inr (xs ! nat i)"
  by (simp add: arr_get_def)

section \<open>Error codes\<close>

abbreviation (input) EPERM :: int where "EPERM \<equiv> 1"
abbreviation (input) EINTR :: int where "EINTR \<equiv> 4"
abbreviation (input) ENOMEM :: int where "ENOMEM \<equiv> 12"
abbreviation (input) EFAULT :: int where "EFAULT \<equiv> 14"
abbreviation (input) ENODEV :: int where "ENODEV \<equiv> 19"
abbreviation (input) EINVAL :: int where "EINVAL \<equiv> 22"
abbreviation (input) ENOTTY :: int where "ENOTTY \<equiv> 25"
abbreviation (input) ERESTARTSYS :: int where "ERESTARTSYS \<equiv> 512"

end
