(* ===== verification/KernelApi.thy ===== *)
theory KernelApi
  imports KPrelude
begin

text \<open>
  The kernel services the drivers call and whose code is not in the repository: the
  allocator, the user-space accessors and the capability check. They are parameters of the
  model (\<open>kapi\<close>), and what the drivers rely on is stated by the predicates below, which give
  the documented behaviour of each call: \<open>kmalloc\<close> returns \<open>NULL\<close> or an address that is not
  in use, \<open>copy_*_user\<close> return the number of bytes not copied, \<open>__get_user\<close> clears its
  target when it fails. \<open>sample_api\<close> is a concrete instance, used to evaluate the drivers.
\<close>

section \<open>User memory\<close>

type_synonym uaddr = int
type_synonym umem = "uaddr \<Rightarrow> byte"

definition um_write :: "umem \<Rightarrow> uaddr \<Rightarrow> byte list \<Rightarrow> umem" where
  "um_write um a bs = (\<lambda>x. if a \<le> x \<and> x < a + int (length bs) then bs ! nat (x - a) else um x)"

definition um_read :: "umem \<Rightarrow> uaddr \<Rightarrow> nat \<Rightarrow> byte list" where
  "um_read um a n = map (\<lambda>i. um (a + int i)) [0..<n]"

lemma length_um_read [simp]: "length (um_read um a n) = n"
  by (simp add: um_read_def)

lemma nth_um_read [simp]: "i < n \<Longrightarrow> um_read um a n ! i = um (a + int i)"
  by (simp add: um_read_def)

lemma um_read_0 [simp]: "um_read um a 0 = []"
  by (simp add: um_read_def)

lemma um_write_Nil [simp]: "um_write um a [] = um"
  by (rule ext) (auto simp: um_write_def)

lemma um_read_write [simp]: "um_read (um_write um a bs) a (length bs) = bs"
  by (auto simp: um_read_def um_write_def intro!: nth_equalityI)

lemma um_write_append:
  "um_write (um_write um a xs) (a + int (length xs)) ys = um_write um a (xs @ ys)"
proof
  fix x
  have "nat (x - (a + int (length xs))) = nat (x - a) - length xs"
    by simp
  then show "um_write (um_write um a xs) (a + int (length xs)) ys x = um_write um a (xs @ ys) x"
    by (auto simp: um_write_def nth_append)
qed

lemma take_um_read [simp]: "take k (um_read um a n) = um_read um a (min k n)"
  by (auto intro!: nth_equalityI)

section \<open>The services\<close>

record kapi =
  kmalloc :: "(ptr \<Rightarrow> bool) \<Rightarrow> int \<Rightarrow> ptr"
    \<comment> \<open>addresses in use, size; an address or \<open>NULL\<close>\<close>
  kmalloc_byte :: "ptr \<Rightarrow> nat \<Rightarrow> byte"
    \<comment> \<open>what the fresh block at the address happens to hold\<close>
  copy_to_user :: "umem \<Rightarrow> uaddr \<Rightarrow> byte list \<Rightarrow> nat \<times> umem"
    \<comment> \<open>bytes not copied, user memory afterwards\<close>
  copy_from_user :: "umem \<Rightarrow> uaddr \<Rightarrow> nat \<Rightarrow> nat \<times> byte list"
    \<comment> \<open>bytes not copied, what the destination holds afterwards\<close>
  get_user_int :: "umem \<Rightarrow> uaddr \<Rightarrow> int \<times> int"
    \<comment> \<open>\<open>__get_user\<close> of an \<open>int\<close>: return value, new value of the target\<close>
  put_user_int :: "umem \<Rightarrow> uaddr \<Rightarrow> int \<Rightarrow> int \<times> umem"
  user_ok :: "uaddr \<Rightarrow> nat \<Rightarrow> bool"
    \<comment> \<open>the whole range is mapped and accessible\<close>
  access_ok :: "uaddr \<Rightarrow> int \<Rightarrow> bool"
  capable_sys_admin :: bool

section \<open>What the drivers rely on\<close>

definition kmalloc_ok :: "kapi \<Rightarrow> bool" where
  "kmalloc_ok K \<longleftrightarrow> (\<forall>used n. kmalloc K used n = NULL \<or> \<not> used (kmalloc K used n))"

definition copy_to_ok :: "kapi \<Rightarrow> bool" where
  "copy_to_ok K \<longleftrightarrow> (\<forall>um a bs.
     fst (copy_to_user K um a bs) \<le> length bs \<and>
     snd (copy_to_user K um a bs)
       = um_write um a (take (length bs - fst (copy_to_user K um a bs)) bs) \<and>
     (user_ok K a (length bs) \<longrightarrow> fst (copy_to_user K um a bs) = 0))"

definition copy_from_ok :: "kapi \<Rightarrow> bool" where
  "copy_from_ok K \<longleftrightarrow> (\<forall>um a n.
     length (snd (copy_from_user K um a n)) = n \<and>
     fst (copy_from_user K um a n) \<le> n \<and>
     take (n - fst (copy_from_user K um a n)) (snd (copy_from_user K um a n))
       = um_read um a (n - fst (copy_from_user K um a n)) \<and>
     (user_ok K a n \<longrightarrow> fst (copy_from_user K um a n) = 0))"

definition user_int_ok :: "kapi \<Rightarrow> bool" where
  "user_int_ok K \<longleftrightarrow>
     (\<forall>um a. fst (get_user_int K um a) \<in> {0, - EFAULT} \<and>
        (fst (get_user_int K um a) \<noteq> 0 \<longrightarrow> snd (get_user_int K um a) = 0) \<and>
        s32 (snd (get_user_int K um a)) = snd (get_user_int K um a)) \<and>
     (\<forall>um a v. fst (put_user_int K um a v) \<in> {0, - EFAULT} \<and>
        (fst (put_user_int K um a v) = 0 \<longrightarrow>
           get_user_int K (snd (put_user_int K um a v)) a = (0, s32 v)))"

text \<open>The allocator has a block of a size to give as long as fewer than \<open>N\<close> objects are live.\<close>

definition kmalloc_gives :: "kapi \<Rightarrow> int \<Rightarrow> nat \<Rightarrow> bool" where
  "kmalloc_gives K n N \<longleftrightarrow> (\<forall>used. card {p. used p} < N \<longrightarrow> kmalloc K used n \<noteq> NULL)"

lemma kmalloc_gives_mono: "kmalloc_gives K n N \<Longrightarrow> M \<le> N \<Longrightarrow> kmalloc_gives K n M"
  by (auto simp: kmalloc_gives_def)

definition kapi_ok :: "kapi \<Rightarrow> bool" where
  "kapi_ok K \<longleftrightarrow> kmalloc_ok K \<and> copy_to_ok K \<and> copy_from_ok K"

lemma kmalloc_fresh: "kmalloc_ok K \<Longrightarrow> kmalloc K (live h) n \<noteq> NULL \<Longrightarrow> h (kmalloc K (live h) n) = None"
  unfolding kmalloc_ok_def live_def by blast

lemma copy_to_userE:
  assumes "copy_to_ok K"
  obtains k where "copy_to_user K um a bs = (k, um_write um a (take (length bs - k) bs))"
    and "k \<le> length bs" and "user_ok K a (length bs) \<Longrightarrow> k = 0"
  using assms unfolding copy_to_ok_def by (metis prod.collapse)

lemma copy_from_userE:
  assumes "copy_from_ok K"
  obtains k bs where "copy_from_user K um a n = (k, bs)" and "length bs = n" and "k \<le> n"
    and "take (n - k) bs = um_read um a (n - k)" and "user_ok K a n \<Longrightarrow> k = 0"
  using assms unfolding copy_from_ok_def by (metis prod.collapse)

section \<open>A concrete instance\<close>

text \<open>
  The allocator hands out the addresses of a list, in order; user addresses below \<open>lim\<close>
  are accessible, from \<open>lim\<close> on every access faults. An \<open>int\<close> takes four bytes, the least
  significant first.
\<close>

definition bytes_of_int :: "int \<Rightarrow> byte list" where
  "bytes_of_int v = map word_of_int
     [u32 v, u32 v div 256, u32 v div 65536, u32 v div 16777216]"

definition int_of_bytes :: "byte list \<Rightarrow> int" where
  "int_of_bytes bs = s32 (uint (bs ! 0) + 256 * uint (bs ! 1)
     + 65536 * uint (bs ! 2) + 16777216 * uint (bs ! 3))"

definition sample_api :: "ptr list \<Rightarrow> int \<Rightarrow> bool \<Rightarrow> kapi" where
  "sample_api pool lim cap = \<lparr>
     kmalloc = (\<lambda>used n. case find (\<lambda>p. p \<noteq> NULL \<and> \<not> used p) pool of None \<Rightarrow> NULL | Some p \<Rightarrow> p),
     kmalloc_byte = (\<lambda>p i. 0xA5),
     copy_to_user = (\<lambda>um a bs. let k = length bs - nat (lim - a) in
       (k, um_write um a (take (length bs - k) bs))),
     copy_from_user = (\<lambda>um a n. let k = n - nat (lim - a) in
       (k, um_read um a (n - k) @ replicate k 0)),
     get_user_int = (\<lambda>um a. if a + 4 \<le> lim then (0, int_of_bytes (um_read um a 4)) else (- EFAULT, 0)),
     put_user_int = (\<lambda>um a v. if a + 4 \<le> lim then (0, um_write um a (bytes_of_int v)) else (- EFAULT, um)),
     user_ok = (\<lambda>a n. a + int n \<le> lim),
     access_ok = (\<lambda>a n. 0 \<le> a),
     capable_sys_admin = cap\<rparr>"

lemma sample_kmalloc_ok: "kmalloc_ok (sample_api pool lim cap)"
  by (auto simp: kmalloc_ok_def sample_api_def find_Some_iff split: option.split)

lemma sample_copy_to_ok: "copy_to_ok (sample_api pool lim cap)"
  by (auto simp: copy_to_ok_def sample_api_def Let_def)

lemma sample_copy_from_ok: "copy_from_ok (sample_api pool lim cap)"
  by (auto simp: copy_from_ok_def sample_api_def Let_def min_def)

lemma sample_kapi_ok: "kapi_ok (sample_api pool lim cap)"
  by (simp add: kapi_ok_def sample_kmalloc_ok sample_copy_to_ok sample_copy_from_ok)

lemma sample_kmalloc_gives:
  assumes "distinct pool" "NULL \<notin> set pool"
  shows "kmalloc_gives (sample_api pool lim cap) n (length pool)"
proof -
  have "find (\<lambda>p. p \<noteq> NULL \<and> \<not> used p) pool \<noteq> None" if "card {p. used p} < length pool" for used
  proof
    assume "find (\<lambda>p. p \<noteq> NULL \<and> \<not> used p) pool = None"
    then have "set pool \<subseteq> {p. used p}" using assms(2) by (auto simp: find_None_iff)
    then have "card (set pool) \<le> card {p. used p}" by (rule card_mono [rotated]) simp
    then show False using that assms(1) by (simp add: distinct_card)
  qed
  note found = this
  show ?thesis
    unfolding kmalloc_gives_def
  proof (intro allI impI)
    fix used :: "ptr \<Rightarrow> bool" assume "card {p. used p} < length pool"
    then obtain p where "find (\<lambda>p. p \<noteq> NULL \<and> \<not> used p) pool = Some p" using found by blast
    moreover from this have "p \<noteq> NULL" by (auto simp: find_Some_iff)
    ultimately show "kmalloc (sample_api pool lim cap) used n \<noteq> NULL" by (simp add: sample_api_def)
  qed
qed

lemma base256:
  "x = y * 256 + a \<Longrightarrow> y = z * 256 + b \<Longrightarrow> z = w * 256 + c \<Longrightarrow>
   a + 256 * b + 65536 * c + 16777216 * w = (x :: int)"
  by simp

lemma int_of_bytes_of_int: "int_of_bytes (bytes_of_int v) = s32 v"
proof -
  have e: "uint (word_of_int y :: byte) = y mod 256" for y
    by (simp add: uint_word_of_int)
  define x where "x = u32 v"
  have q: "x div 65536 = x div 256 div 256" "x div 16777216 = x div 256 div 256 div 256"
    using zdiv_zmult2_eq [of 256 x 256] zdiv_zmult2_eq [of 256 x 65536]
      zdiv_zmult2_eq [of 256 "x div 256" 256] by simp_all
  have "x div 256 div 256 div 256 < 256" "0 \<le> x div 256 div 256 div 256"
    using u32_bounds [of v] by (simp_all add: x_def flip: q)
  then have top: "x div 256 div 256 div 256 mod 256 = x div 256 div 256 div 256"
    by (rule mod_pos_pos_trivial [rotated])
  have "x mod 256 + 256 * (x div 256 mod 256)
      + 65536 * (x div 65536 mod 256) + 16777216 * (x div 16777216 mod 256) = x"
    unfolding q top
    by (rule base256) (rule div_mult_mod_eq [symmetric])+
  then have "int_of_bytes (bytes_of_int v) = s32 (u32 v)"
    by (simp only: int_of_bytes_def bytes_of_int_def e x_def list.map nth_Cons_0 nth_Cons_numeral
        nth_Cons_Suc One_nat_def diff_Suc_1 numeral_2_eq_2 numeral_3_eq_3)
  also have "\<dots> = s32 v"
    by (simp add: s32_def u32_def mod_add_left_eq)
  finally show ?thesis .
qed

lemma sample_user_int_ok: "user_int_ok (sample_api pool lim cap)"
proof -
  have len: "length (bytes_of_int v) = 4" for v
    by (simp add: bytes_of_int_def)
  have rd: "um_read (um_write um a (bytes_of_int v)) a 4 = bytes_of_int v" for um a v
    using um_read_write [of um a "bytes_of_int v"] by (simp add: len)
  have idem: "s32 (s32 x) = s32 x" for x
    using s32_bounds [of x] by (simp add: s32_id)
  have res: "s32 (int_of_bytes bs) = int_of_bytes bs" for bs
    by (simp add: int_of_bytes_def idem)
  have z: "s32 0 = 0"
    by (simp add: s32_def)
  show ?thesis
    by (simp add: user_int_ok_def sample_api_def rd int_of_bytes_of_int res z)
qed

end
