(* ===== verification/Libfs.thy ===== *)
theory Libfs
  imports KernelApi
begin

text \<open>
  The two helpers of \<open>fs/libfs.c\<close> the id, jiffies and foo files call. They are parameters
  (\<open>libfs\<close> extends \<open>kapi\<close>), with their documented behaviour as hypothesis (\<open>libfs_ok\<close>): the
  position is checked, the count is cut to what is available, some bytes are copied, the
  result is \<open>-EFAULT\<close> only if none could be. \<open>sample_libfs\<close> is a concrete instance. The C
  strings and the \<open>strcmp\<close> and \<open>sprintf\<close> of the drivers are here too.
\<close>

section \<open>The helpers\<close>

record libfs = kapi +
  simple_read_from_buffer :: "umem \<Rightarrow> uaddr \<Rightarrow> int \<Rightarrow> int \<Rightarrow> byte list \<Rightarrow> int \<Rightarrow> int \<times> umem \<times> int"
    \<comment> \<open>user memory, to, count, position, from, available; result, user memory, position\<close>
  simple_write_to_buffer :: "byte list \<Rightarrow> int \<Rightarrow> int \<Rightarrow> umem \<Rightarrow> uaddr \<Rightarrow> int \<Rightarrow> int \<times> byte list \<times> int"
    \<comment> \<open>to, available, position, user memory, from, count; result, to, position\<close>
  stack_byte :: "nat \<Rightarrow> byte"
    \<comment> \<open>what an uninitialised array on the stack happens to hold\<close>

definition read_spec ::
    "umem \<Rightarrow> uaddr \<Rightarrow> int \<Rightarrow> int \<Rightarrow> byte list \<Rightarrow> int \<Rightarrow> nat \<Rightarrow> int \<times> umem \<times> int" where
  "read_spec um buf count pos from avail k =
     (if pos < 0 then (- EINVAL, um, pos)
      else if avail \<le> pos \<or> count = 0 then (0, um, pos)
      else if k = 0 then (- EFAULT, um, pos)
      else (int k, um_write um buf (take k (drop (nat pos) from)), pos + int k))"

definition write_spec ::
    "byte list \<Rightarrow> int \<Rightarrow> int \<Rightarrow> umem \<Rightarrow> uaddr \<Rightarrow> int \<Rightarrow> nat \<Rightarrow> byte list \<Rightarrow> int \<times> byte list \<times> int" where
  "write_spec to avail pos um buf count k to' =
     (if pos < 0 then (- EINVAL, to, pos)
      else if avail \<le> pos \<or> count = 0 then (0, to, pos)
      else if k = 0 then (- EFAULT, to', pos)
      else (int k, to', pos + int k))"

text \<open>\<open>k\<close> bytes of the \<open>room\<close> may be copied; all of them when the user range is accessible.\<close>

definition room :: "int \<Rightarrow> int \<Rightarrow> int \<Rightarrow> nat" where
  "room avail pos count = nat (min count (avail - pos))"

definition copied_ok :: "('a) kapi_scheme \<Rightarrow> uaddr \<Rightarrow> nat \<Rightarrow> nat \<Rightarrow> bool" where
  "copied_ok K buf n k \<longleftrightarrow> k \<le> n \<and> (user_ok K buf n \<longrightarrow> k = n)"

definition read_helper_ok :: "('a) libfs_scheme \<Rightarrow> bool" where
  "read_helper_ok L \<longleftrightarrow> (\<forall>um buf count pos from avail. 0 \<le> count \<longrightarrow> avail \<le> int (length from) \<longrightarrow>
     (\<exists>k. copied_ok L buf (room avail pos count) k \<and>
        simple_read_from_buffer L um buf count pos from avail = read_spec um buf count pos from avail k))"

definition write_helper_ok :: "('a) libfs_scheme \<Rightarrow> bool" where
  "write_helper_ok L \<longleftrightarrow> (\<forall>to avail pos um buf count. 0 \<le> count \<longrightarrow> avail \<le> int (length to) \<longrightarrow>
     (\<exists>k new. copied_ok L buf (room avail pos count) k \<and> length new = room avail pos count \<and>
        take k new = um_read um buf k \<and>
        simple_write_to_buffer L to avail pos um buf count =
          write_spec to avail pos um buf count k (buf_write to (nat pos) new)))"

definition libfs_ok :: "('a) libfs_scheme \<Rightarrow> bool" where
  "libfs_ok L \<longleftrightarrow> read_helper_ok L \<and> write_helper_ok L"

lemma read_helperE:
  assumes "libfs_ok L" "0 \<le> count" "avail \<le> int (length from)"
  obtains k where "copied_ok L buf (room avail pos count) k"
    "simple_read_from_buffer L um buf count pos from avail = read_spec um buf count pos from avail k"
  using assms unfolding libfs_ok_def read_helper_ok_def by blast

lemma write_helperE:
  assumes "libfs_ok L" "0 \<le> count" "avail \<le> int (length to)"
  obtains k new where "copied_ok L buf (room avail pos count) k" "length new = room avail pos count"
    "take k new = um_read um buf k"
    "simple_write_to_buffer L to avail pos um buf count =
      write_spec to avail pos um buf count k (buf_write to (nat pos) new)"
  using assms unfolding libfs_ok_def write_helper_ok_def by meson

section \<open>A concrete instance\<close>

definition sample_libfs :: "ptr list \<Rightarrow> int \<Rightarrow> libfs" where
  "sample_libfs pool lim = kapi.extend (sample_api pool lim True)
     \<lparr>simple_read_from_buffer = (\<lambda>um buf count pos from avail.
        read_spec um buf count pos from avail (min (room avail pos count) (nat (lim - buf)))),
      simple_write_to_buffer = (\<lambda>to avail pos um buf count.
        let k = min (room avail pos count) (nat (lim - buf)) in
        write_spec to avail pos um buf count k
          (buf_write to (nat pos) (um_read um buf k @ replicate (room avail pos count - k) 0))),
      stack_byte = (\<lambda>i. 0xCC)\<rparr>"

lemma sample_libfs_ok: "libfs_ok (sample_libfs pool lim)"
proof -
  have ok: "copied_ok (sample_libfs pool lim) buf n (min n (nat (lim - buf)))" for buf n
    by (auto simp: copied_ok_def sample_libfs_def sample_api_def kapi.defs)
  have "read_helper_ok (sample_libfs pool lim)"
    unfolding read_helper_ok_def using ok
    by (intro allI impI exI conjI) (assumption | rule refl | simp add: sample_libfs_def kapi.defs)+
  moreover have "write_helper_ok (sample_libfs pool lim)"
    unfolding write_helper_ok_def
  proof (intro allI impI)
    fix to :: "byte list" and avail pos um buf count
    let ?n = "room avail pos count" let ?k = "min ?n (nat (lim - buf))"
    let ?new = "um_read um buf ?k @ replicate (?n - ?k) 0"
    show "\<exists>k new. copied_ok (sample_libfs pool lim) buf ?n k \<and> length new = ?n \<and>
        take k new = um_read um buf k \<and>
        simple_write_to_buffer (sample_libfs pool lim) to avail pos um buf count =
          write_spec to avail pos um buf count k (buf_write to (nat pos) new)"
      by (rule exI [of _ ?k], rule exI [of _ ?new])
        (use ok in \<open>simp add: sample_libfs_def kapi.defs Let_def\<close>)
  qed
  ultimately show ?thesis by (simp add: libfs_ok_def)
qed

section \<open>C strings\<close>

definition bytes_of :: "string \<Rightarrow> byte list" where
  "bytes_of s = map of_char s"

definition cstr :: "byte list \<Rightarrow> byte list" where
  "cstr bs = takeWhile (\<lambda>b. b \<noteq> 0) bs"

definition c_strlen :: "byte list \<Rightarrow> int" where
  "c_strlen bs = int (length (cstr bs))"

text \<open>\<open>strcmp\<close> reads both arrays up to the first difference or \<open>NUL\<close>.\<close>

fun c_strcmp :: "byte list \<Rightarrow> byte list \<Rightarrow> int res" where
  "c_strcmp (x # xs) (y # ys) =
     (if x < y then Inr (- 1) else if y < x then Inr 1 else if x = 0 then Inr 0 else c_strcmp xs ys)"
| "c_strcmp _ _ = Inl OutOfBounds"

lemma c_strcmp_eq:
  "0 \<in> set xs \<Longrightarrow> 0 \<in> set ys \<Longrightarrow> \<exists>r. c_strcmp xs ys = Inr r \<and> (r = 0 \<longleftrightarrow> cstr xs = cstr ys)"
proof (induction xs ys rule: c_strcmp.induct)
  case (1 x xs y ys)
  show ?case
  proof (cases "x = y \<and> x \<noteq> 0")
    case True
    then show ?thesis using 1 by (auto simp: cstr_def)
  next
    case False
    then show ?thesis by (auto simp: cstr_def word_gt_0)
  qed
qed (auto simp: cstr_def)

definition arr_set :: "'a list \<Rightarrow> int \<Rightarrow> 'a \<Rightarrow> 'a list res" where
  "arr_set xs i x = (if 0 \<le> i \<and> i < int (length xs) then Inr (xs[nat i := x]) else Inl OutOfBounds)"

text \<open>\<open>sprintf\<close> into an array: the text and a \<open>NUL\<close> have to fit.\<close>

definition c_sprintf :: "byte list \<Rightarrow> byte list \<Rightarrow> byte list res" where
  "c_sprintf arr txt = (if length txt < length arr then Inr (buf_write arr 0 (txt @ [0])) else Inl OutOfBounds)"

lemma c_sprintf_cstr:
  assumes "length txt < length arr" "0 \<notin> set txt"
  shows "\<exists>arr'. c_sprintf arr txt = Inr arr' \<and> length arr' = length arr \<and> cstr arr' = txt \<and>
    take (length txt) arr' = txt"
proof -
  have "takeWhile (\<lambda>b. b \<noteq> 0) (txt @ 0 # r) = txt" for r
    by (subst takeWhile_append2) (use assms(2) in auto)
  then show ?thesis using assms(1) by (auto simp: c_sprintf_def buf_write_def cstr_def)
qed

text \<open>Decimal digits, most significant first.\<close>

fun dec_nat :: "nat \<Rightarrow> byte list" where
  "dec_nat n = (if n < 10 then [word_of_nat (48 + n)] else dec_nat (n div 10) @ [word_of_nat (48 + n mod 10)])"

declare dec_nat.simps [simp del]

definition dec_int :: "int \<Rightarrow> byte list" where
  "dec_int i = (if i < 0 then 45 # dec_nat (nat (- i)) else dec_nat (nat i))"

lemma dec_nat_length: "n < 10 ^ Suc k \<Longrightarrow> length (dec_nat n) \<le> Suc k"
proof (induction k arbitrary: n)
  case 0
  then show ?case by (subst dec_nat.simps) simp
next
  case (Suc k)
  then have "n div 10 < 10 ^ Suc k" by (simp add: less_mult_imp_div_less)
  from Suc.IH [OF this] show ?case by (subst dec_nat.simps) simp
qed

lemma dec_digit: "n < 10 \<Longrightarrow> (word_of_nat (48 + n) :: byte) \<noteq> 0 \<and> (word_of_nat (48 + n) :: byte) \<noteq> 10"
proof -
  assume n: "n < 10"
  define d :: byte where "d = word_of_nat (48 + n)"
  have "unat d = 48 + n" unfolding d_def by (subst unat_of_nat) (use n in simp)
  then have "unat d \<noteq> unat (0 :: byte)" "unat d \<noteq> unat (10 :: byte)" by simp_all
  then show ?thesis unfolding d_def [symmetric] by metis
qed

lemma dec_nat_nonzero: "0 \<notin> set (dec_nat n)"
proof (induction n rule: dec_nat.induct)
  case (1 n)
  then show ?case
    using dec_digit [of n] dec_digit [of "n mod 10"] by (subst dec_nat.simps) auto
qed

end
