(* ===== verification/IdFile.thy ===== *)
theory IdFile
  imports Libfs
begin

text \<open>
  The id file, which exists four times: the misc device of \<open>Task06/misc.c\<close> and the debugfs file
  \<open>id\<close> of the three stages of Task08. Each copy has its own definitions, translated from its own
  source, and each is an interpretation of one interface, \<open>id_file\<close>. The \<open>jiffies\<close> file of the
  two later stages is here as well.
\<close>

section \<open>The four copies\<close>

text \<open>\<open>Task06/misc.c\<close>.\<close>

definition misc_read ::
    "'a libfs_scheme \<Rightarrow> umem \<Rightarrow> uaddr \<Rightarrow> int \<Rightarrow> int \<Rightarrow> int \<times> umem \<times> int" where
  "misc_read L um buf count f_pos =
     (let str = bytes_of (''8d7990499d47'' @ [CHR 0x0A]) @ [0] in
      simple_read_from_buffer L um buf count f_pos str (c_strlen str))"

definition misc_write ::
    "'a libfs_scheme \<Rightarrow> umem \<Rightarrow> uaddr \<Rightarrow> int \<Rightarrow> int \<Rightarrow> (int \<times> int) res" where
  "misc_write L um buf count f_pos0 =
     (let idstr = bytes_of ''8d7990499d47'' @ [0];
          idlen = c_strlen idstr;
          input_id = map (stack_byte L) [0..<nat (idlen + 1)];
          f_pos = 0;
          (r, input_id1, f_pos1) = simple_write_to_buffer L input_id (idlen + 1) f_pos um buf count;
          retval = s32 r in
      if retval < 0 then Inr (retval, f_pos1)
      else kbind (arr_set input_id1 retval 0) (\<lambda>input_id2.
        kbind (c_strcmp idstr input_id2) (\<lambda>c.
        if c \<noteq> 0 then Inr (- EINVAL, f_pos1) else Inr (retval, f_pos1))))"

text \<open>\<open>Task08/Patch-02\<close>.\<close>

definition task08_read_02 ::
    "'a libfs_scheme \<Rightarrow> umem \<Rightarrow> uaddr \<Rightarrow> int \<Rightarrow> int \<Rightarrow> int \<times> umem \<times> int" where
  "task08_read_02 L um buf count f_pos =
     (let str = bytes_of (''8d7990499d47'' @ [CHR 0x0A]) @ [0] in
      simple_read_from_buffer L um buf count f_pos str (c_strlen str))"

definition task08_write_02 ::
    "'a libfs_scheme \<Rightarrow> umem \<Rightarrow> uaddr \<Rightarrow> int \<Rightarrow> int \<Rightarrow> (int \<times> int) res" where
  "task08_write_02 L um buf count f_pos0 =
     (let idstr = bytes_of ''8d7990499d47'' @ [0];
          idlen = c_strlen idstr;
          input_id = map (stack_byte L) [0..<nat (idlen + 1)];
          f_pos = 0;
          (r, input_id1, f_pos1) = simple_write_to_buffer L input_id (idlen + 1) f_pos um buf count;
          retval = s32 r in
      if retval < 0 then Inr (retval, f_pos1)
      else kbind (arr_set input_id1 retval 0) (\<lambda>input_id2.
        kbind (c_strcmp idstr input_id2) (\<lambda>c.
        if c \<noteq> 0 then Inr (- EINVAL, f_pos1) else Inr (retval, f_pos1))))"

text \<open>\<open>Task08/Patch-12\<close>.\<close>

definition task08_read_id_12 ::
    "'a libfs_scheme \<Rightarrow> umem \<Rightarrow> uaddr \<Rightarrow> int \<Rightarrow> int \<Rightarrow> int \<times> umem \<times> int" where
  "task08_read_id_12 L um buf count f_pos =
     (let str = bytes_of (''8d7990499d47'' @ [CHR 0x0A]) @ [0] in
      simple_read_from_buffer L um buf count f_pos str (c_strlen str))"

definition task08_write_id_12 ::
    "'a libfs_scheme \<Rightarrow> umem \<Rightarrow> uaddr \<Rightarrow> int \<Rightarrow> int \<Rightarrow> (int \<times> int) res" where
  "task08_write_id_12 L um buf count f_pos0 =
     (let idstr = bytes_of ''8d7990499d47'' @ [0];
          idlen = c_strlen idstr;
          input_id = map (stack_byte L) [0..<nat (idlen + 1)];
          f_pos = 0;
          (r, input_id1, f_pos1) = simple_write_to_buffer L input_id (idlen + 1) f_pos um buf count;
          retval = s32 r in
      if retval < 0 then Inr (retval, f_pos1)
      else kbind (arr_set input_id1 retval 0) (\<lambda>input_id2.
        kbind (c_strcmp idstr input_id2) (\<lambda>c.
        if c \<noteq> 0 then Inr (- EINVAL, f_pos1) else Inr (retval, f_pos1))))"

text \<open>\<open>Task08/Patch-22\<close>.\<close>

definition task08_read_id_22 ::
    "'a libfs_scheme \<Rightarrow> umem \<Rightarrow> uaddr \<Rightarrow> int \<Rightarrow> int \<Rightarrow> int \<times> umem \<times> int" where
  "task08_read_id_22 L um buf count f_pos =
     (let str = bytes_of (''8d7990499d47'' @ [CHR 0x0A]) @ [0] in
      simple_read_from_buffer L um buf count f_pos str (c_strlen str))"

definition task08_write_id_22 ::
    "'a libfs_scheme \<Rightarrow> umem \<Rightarrow> uaddr \<Rightarrow> int \<Rightarrow> int \<Rightarrow> (int \<times> int) res" where
  "task08_write_id_22 L um buf count f_pos0 =
     (let idstr = bytes_of ''8d7990499d47'' @ [0];
          idlen = c_strlen idstr;
          input_id = map (stack_byte L) [0..<nat (idlen + 1)];
          f_pos = 0;
          (r, input_id1, f_pos1) = simple_write_to_buffer L input_id (idlen + 1) f_pos um buf count;
          retval = s32 r in
      if retval < 0 then Inr (retval, f_pos1)
      else kbind (arr_set input_id1 retval 0) (\<lambda>input_id2.
        kbind (c_strcmp idstr input_id2) (\<lambda>c.
        if c \<noteq> 0 then Inr (- EINVAL, f_pos1) else Inr (retval, f_pos1))))"

section \<open>The jiffies file\<close>

text \<open>\<open>%lld\<close> prints the 64-bit counter as a signed number.\<close>

definition task08_read_jiffies_12 ::
    "'a libfs_scheme \<Rightarrow> int \<Rightarrow> umem \<Rightarrow> uaddr \<Rightarrow> int \<Rightarrow> int \<Rightarrow> (int \<times> umem \<times> int) res" where
  "task08_read_jiffies_12 L jiffies_64 um buf count f_pos =
     kbind (c_sprintf (map (stack_byte L) [0..<30]) (dec_int (s64 jiffies_64) @ [10])) (\<lambda>timestr.
     Inr (simple_read_from_buffer L um buf count f_pos timestr (c_strlen timestr)))"

definition task08_read_jiffies_22 ::
    "'a libfs_scheme \<Rightarrow> int \<Rightarrow> umem \<Rightarrow> uaddr \<Rightarrow> int \<Rightarrow> int \<Rightarrow> (int \<times> umem \<times> int) res" where
  "task08_read_jiffies_22 L jiffies_64 um buf count f_pos =
     kbind (c_sprintf (map (stack_byte L) [0..<30]) (dec_int (s64 jiffies_64) @ [10])) (\<lambda>timestr.
     Inr (simple_read_from_buffer L um buf count f_pos timestr (c_strlen timestr)))"

section \<open>What the copies do\<close>

definition id_bytes :: "byte list" where
  "id_bytes = bytes_of ''8d7990499d47''"

lemma id_length [simp]: "length id_bytes = 12"
  by (simp add: id_bytes_def bytes_of_def)

lemma id_nonzero: "0 \<notin> set id_bytes"
  by code_simp

lemma cstr_append [simp]: "cstr (xs @ 0 # ys) = cstr xs"
  by (induction xs) (auto simp: cstr_def)

lemma cstr_id: "0 \<notin> set xs \<Longrightarrow> cstr xs = xs"
  by (induction xs) (auto simp: cstr_def)

lemma cstr_terminated: "0 \<notin> set xs \<Longrightarrow> cstr (xs @ 0 # ys) = xs"
  by (simp add: cstr_id)

lemma cstr_full: "length xs \<le> length (cstr xs) \<Longrightarrow> cstr xs = xs"
  unfolding cstr_def by (metis takeWhile_eq_take take_all)

lemma id_read_runs:
  assumes "libfs_ok L" "0 \<le> count" "user_ok L buf (room 13 f_pos count)"
  shows "misc_read L um buf count f_pos =
    read_spec um buf count f_pos (id_bytes @ [10, 0]) 13 (room 13 f_pos count)"
proof -
  have str: "bytes_of (''8d7990499d47'' @ [CHR 0x0A]) @ [0] = id_bytes @ [10, 0]"
    by code_simp
  have "cstr ((id_bytes @ [10]) @ 0 # []) = id_bytes @ [10]"
    using id_nonzero by (intro cstr_terminated) simp
  then have len: "c_strlen (id_bytes @ [10, 0]) = 13" by (simp add: c_strlen_def)
  obtain k where "copied_ok L buf (room 13 f_pos count) k"
    "simple_read_from_buffer L um buf count f_pos (id_bytes @ [10, 0]) 13 =
      read_spec um buf count f_pos (id_bytes @ [10, 0]) 13 k"
    by (rule read_helperE [OF assms(1,2), of 13 "id_bytes @ [10, 0]"]) simp
  then show ?thesis
    unfolding misc_read_def Let_def str len using assms(3) by (auto simp: copied_ok_def)
qed

lemma buf_write_0: "length new \<le> length old \<Longrightarrow> buf_write old 0 new = new @ drop (length new) old"
  by (simp add: buf_write_def)

lemma id_write_runs:
  assumes "libfs_ok L" "0 \<le> count" "user_ok L buf (min (nat count) 13)"
  shows "misc_write L um buf count f_pos =
    (if 12 < count then Inl OutOfBounds
     else if um_read um buf (nat count) = id_bytes then Inr (12, 12) else Inr (- EINVAL, count))"
proof -
  have str: "bytes_of ''8d7990499d47'' @ [0] = id_bytes @ [0]" by (simp add: id_bytes_def)
  have cid: "cstr (id_bytes @ [0]) = id_bytes" using cstr_terminated [OF id_nonzero, of "[]"] by simp
  then have len: "c_strlen (id_bytes @ [0]) + 1 = 13" by (simp add: c_strlen_def)
  define junk where "junk = map (stack_byte L) [0..<nat 13]"
  have jl: "length junk = 13" by (simp add: junk_def)
  define n where "n = room 13 0 count"
  have n: "n = min (nat count) 13" using assms(2) unfolding n_def room_def by linarith
  obtain k new where k: "copied_ok L buf n k" "length new = n" "take k new = um_read um buf k"
    "simple_write_to_buffer L junk 13 0 um buf count = write_spec junk 13 0 um buf count k (buf_write junk (nat 0) new)"
    unfolding n_def by (rule write_helperE [OF assms(1,2), of 13 junk buf 0]) (simp_all add: jl)
  have kn: "k = n" "new = um_read um buf n" using k(1-3) assms(3) by (auto simp: copied_ok_def n)
  define buf1 where "buf1 = um_read um buf n @ drop n junk"
  have wr: "simple_write_to_buffer L junk 13 0 um buf count = (int n, buf1, int n)"
    unfolding k(4) kn write_spec_def using jl n assms(2)
    by (auto simp: buf1_def buf_write_def)
  have s: "s32 (int n) = int n" using n by (intro s32_nonneg) simp_all
  have start: "misc_write L um buf count f_pos =
      kbind (arr_set buf1 (int n) 0) (\<lambda>input_id2. kbind (c_strcmp (id_bytes @ [0]) input_id2) (\<lambda>c.
        if c \<noteq> 0 then Inr (- EINVAL, int n) else Inr (int n, int n)))"
    unfolding misc_write_def Let_def str len junk_def [symmetric] wr prod.case s by simp
  show ?thesis
  proof (cases "12 < count")
    case True
    then have "n = 13" using n by simp
    then show ?thesis using True jl by (simp add: start arr_set_def buf1_def)
  next
    case False
    then have nc: "n = nat count" "n < 13" using n assms(2) by simp_all
    define arr where "arr = um_read um buf n @ 0 # drop (Suc n) junk"
    have "buf1[n := 0] = arr"
      using nc jl by (simp add: buf1_def arr_def list_update_append Cons_nth_drop_Suc [symmetric])
    then have set: "arr_set buf1 (int n) 0 = Inr arr"
      using nc(2) jl by (simp add: arr_set_def, simp add: buf1_def)
    obtain r where r: "c_strcmp (id_bytes @ [0]) arr = Inr r" "r = 0 \<longleftrightarrow> cstr (id_bytes @ [0]) = cstr arr"
      using c_strcmp_eq [of "id_bytes @ [0]" arr] by (auto simp: arr_def)
    have "cstr arr = id_bytes \<longleftrightarrow> um_read um buf n = id_bytes"
      unfolding arr_def cstr_append
    proof
      assume a: "cstr (um_read um buf n) = id_bytes"
      have "n \<le> 12" using nc by simp
      then have "cstr (um_read um buf n) = um_read um buf n" by (intro cstr_full) (simp add: a)
      then show "um_read um buf n = id_bytes" using a by simp
    next
      assume "um_read um buf n = id_bytes"
      then show "cstr (um_read um buf n) = id_bytes" using id_nonzero by (simp add: cstr_id)
    qed
    then have r0: "r = 0 \<longleftrightarrow> um_read um buf (nat count) = id_bytes"
      using r(2) cid nc(1) by auto
    have run: "misc_write L um buf count f_pos = (if r \<noteq> 0 then Inr (- EINVAL, int n) else Inr (int n, int n))"
      unfolding start set r(1) kbind_simps by simp
    show ?thesis
    proof (cases "um_read um buf (nat count) = id_bytes")
      case True
      from arg_cong [where f = length, OF this] have "count = 12" by simp
      then show ?thesis using run r0 True nc by simp
    next
      case wrong: False
      then show ?thesis using run r0 False nc(1) assms(2) by simp
    qed
  qed
qed

section \<open>The interface\<close>

text \<open>What any of the four files promises to a process that reads and writes it.\<close>

locale id_file =
  fixes rd :: "libfs \<Rightarrow> umem \<Rightarrow> uaddr \<Rightarrow> int \<Rightarrow> int \<Rightarrow> int \<times> umem \<times> int"
    and wr :: "libfs \<Rightarrow> umem \<Rightarrow> uaddr \<Rightarrow> int \<Rightarrow> int \<Rightarrow> (int \<times> int) res"
  assumes rd_law: "libfs_ok L \<Longrightarrow> 0 \<le> count \<Longrightarrow> user_ok L buf (room 13 pos count) \<Longrightarrow>
      rd L um buf count pos = read_spec um buf count pos (id_bytes @ [10, 0]) 13 (room 13 pos count)"
    and wr_law: "libfs_ok L \<Longrightarrow> 0 \<le> count \<Longrightarrow> user_ok L buf (min (nat count) 13) \<Longrightarrow>
      wr L um buf count pos = (if 12 < count then Inl OutOfBounds
        else if um_read um buf (nat count) = id_bytes then Inr (12, 12) else Inr (- EINVAL, count))"
begin

lemma whole_read:
  assumes "libfs_ok L" "13 \<le> count" "user_ok L buf 13"
  shows "rd L um buf count 0 = (13, um_write um buf (id_bytes @ [10]), 13)"
proof -
  have r: "room 13 0 count = 13" using assms(2) by (simp add: room_def min_def)
  have "rd L um buf count 0 = read_spec um buf count 0 (id_bytes @ [10, 0]) 13 13"
    using rd_law [OF assms(1), of count buf 0 um] assms(2,3) by (simp add: r)
  also have "\<dots> = (13, um_write um buf (id_bytes @ [10]), 13)"
    using assms(2) by (simp add: read_spec_def)
  finally show ?thesis .
qed

lemma end_of_file:
  assumes "libfs_ok L" "0 \<le> count" "13 \<le> pos" "user_ok L buf 0"
  shows "rd L um buf count pos = (0, um, pos)"
proof -
  have r: "room 13 pos count = 0" using assms(2,3) by (simp add: room_def min_def)
  show ?thesis using rd_law [OF assms(1,2), of buf pos um] assms(3,4) by (simp add: r read_spec_def)
qed

lemma copy_back:
  assumes "libfs_ok L" "user_ok L buf 12" "user_ok L buf 13"
  shows "wr L (um_write um buf (id_bytes @ [10])) buf 12 pos = Inr (12, 12)"
    and "wr L (um_write um buf (id_bytes @ [10])) buf 13 pos = Inl OutOfBounds"
proof -
  define um' where "um' = um_write um buf (id_bytes @ [10])"
  have "um_read um' buf 12 = take 12 (um_read um' buf (length (id_bytes @ [10])))"
    by simp
  also have "\<dots> = id_bytes"
    unfolding um'_def um_read_write by simp
  finally have id: "um_read um' buf 12 = id_bytes" .
  then show "wr L (um_write um buf (id_bytes @ [10])) buf 12 pos = Inr (12, 12)"
    using wr_law [OF assms(1), of 12 buf um' pos] assms(2) by (simp add: um'_def)
  show "wr L (um_write um buf (id_bytes @ [10])) buf 13 pos = Inl OutOfBounds"
    using wr_law [OF assms(1), of 13 buf um' pos] assms(3) by (simp add: um'_def)
qed

end

lemma id_copies_read:
  "task08_read_02 L um buf count pos = misc_read L um buf count pos"
  "task08_read_id_12 L um buf count pos = misc_read L um buf count pos"
  "task08_read_id_22 L um buf count pos = misc_read L um buf count pos"
  by (simp_all add: misc_read_def task08_read_02_def task08_read_id_12_def task08_read_id_22_def)

lemma id_copies_write:
  "task08_write_02 L um buf count pos = misc_write L um buf count pos"
  "task08_write_id_12 L um buf count pos = misc_write L um buf count pos"
  "task08_write_id_22 L um buf count pos = misc_write L um buf count pos"
  by (simp_all add: misc_write_def task08_write_02_def task08_write_id_12_def task08_write_id_22_def)

interpretation misc: id_file misc_read misc_write
  by unfold_locales (simp_all add: id_read_runs id_write_runs)

interpretation t02: id_file task08_read_02 task08_write_02
  by unfold_locales (simp_all add: id_read_runs id_write_runs id_copies_read id_copies_write)

interpretation t12: id_file task08_read_id_12 task08_write_id_12
  by unfold_locales (simp_all add: id_read_runs id_write_runs id_copies_read id_copies_write)

interpretation t22: id_file task08_read_id_22 task08_write_id_22
  by unfold_locales (simp_all add: id_read_runs id_write_runs id_copies_read id_copies_write)

section \<open>The operations tables\<close>

text \<open>What each module registers; the misc device carries its table in \<open>misc_misc\<close>.\<close>

record id_file_operations =
  fop_read :: "libfs \<Rightarrow> umem \<Rightarrow> uaddr \<Rightarrow> int \<Rightarrow> int \<Rightarrow> int \<times> umem \<times> int"
  fop_write :: "libfs \<Rightarrow> umem \<Rightarrow> uaddr \<Rightarrow> int \<Rightarrow> int \<Rightarrow> (int \<times> int) res"

record miscdevice =
  mi_fops :: id_file_operations
  mi_nodename :: string

record jiffies_file_operations =
  fop_read_jiffies :: "libfs \<Rightarrow> int \<Rightarrow> umem \<Rightarrow> uaddr \<Rightarrow> int \<Rightarrow> int \<Rightarrow> (int \<times> umem \<times> int) res"

definition misc_fops :: id_file_operations where
  "misc_fops = \<lparr>fop_read = misc_read, fop_write = misc_write\<rparr>"

definition misc_misc :: miscdevice where
  "misc_misc = \<lparr>mi_fops = misc_fops, mi_nodename = ''eudyptula''\<rparr>"

definition task08_fops_02 :: id_file_operations where
  "task08_fops_02 = \<lparr>fop_read = task08_read_02, fop_write = task08_write_02\<rparr>"

definition task08_fops_id_12 :: id_file_operations where
  "task08_fops_id_12 = \<lparr>fop_read = task08_read_id_12, fop_write = task08_write_id_12\<rparr>"

definition task08_fops_id_22 :: id_file_operations where
  "task08_fops_id_22 = \<lparr>fop_read = task08_read_id_22, fop_write = task08_write_id_22\<rparr>"

definition task08_fops_jiffies_12 :: jiffies_file_operations where
  "task08_fops_jiffies_12 = \<lparr>fop_read_jiffies = task08_read_jiffies_12\<rparr>"

definition task08_fops_jiffies_22 :: jiffies_file_operations where
  "task08_fops_jiffies_22 = \<lparr>fop_read_jiffies = task08_read_jiffies_22\<rparr>"

text \<open>The four id files as they are registered.\<close>

definition id_files :: "id_file_operations list" where
  "id_files = [mi_fops misc_misc, task08_fops_02, task08_fops_id_12, task08_fops_id_22]"

lemmas id_tables = id_files_def misc_misc_def misc_fops_def task08_fops_02_def task08_fops_id_12_def task08_fops_id_22_def

section \<open>Properties\<close>

text \<open>C26: In all four id files a write from an accessible buffer of at most 12 bytes is accepted,
  returning 12, exactly when the buffer holds the twelve bytes of the id, and refused with
  \<open>-EINVAL\<close> otherwise. A write of 13 bytes or more, the id with its newline included, stores
  the terminating \<open>NUL\<close> one byte past the end of the stack array.\<close>

theorem id_write_correct:
  assumes "libfs_ok L" "0 \<le> count" "user_ok L buf (min (nat count) 13)" "fops \<in> set id_files"
  shows "fop_write fops L um buf count f_pos =
    (if 12 < count then Inl OutOfBounds
     else if um_read um buf (nat count) = id_bytes then Inr (12, 12) else Inr (- EINVAL, count))"
proof -
  consider "fop_write fops = misc_write" | "fop_write fops = task08_write_02" | "fop_write fops = task08_write_id_12"
    | "fop_write fops = task08_write_id_22"
    using assms(4) by (auto simp: id_tables)
  then show ?thesis
    by cases (simp_all only: misc.wr_law [OF assms(1-3)] t02.wr_law [OF assms(1-3)]
        t12.wr_law [OF assms(1-3)] t22.wr_law [OF assms(1-3)])
qed

lemma id_write_correct_witness:
  "misc_write (sample_libfs [] 1000) (um_write (\<lambda>a. 0) 100 (bytes_of ''8d7990499d47'')) 100 12 0 = Inr (12, 12)"
proof -
  have "fop_write misc_fops (sample_libfs [] 1000) (um_write (\<lambda>a. 0) 100 id_bytes) 100 12 0 =
    (if (12 :: int) < 12 then Inl OutOfBounds
     else if um_read (um_write (\<lambda>a. 0) 100 id_bytes) 100 (nat 12) = id_bytes then Inr (12, 12) else Inr (- EINVAL, 12))"
    by (rule id_write_correct [OF sample_libfs_ok])
      (simp_all add: sample_libfs_def sample_api_def kapi.defs id_files_def misc_misc_def)
  moreover have "um_read (um_write (\<lambda>a. 0) 100 id_bytes) 100 12 = id_bytes"
    using um_read_write [of "\<lambda>a. 0" 100 id_bytes] by simp
  ultimately show ?thesis unfolding id_bytes_def [symmetric] by (simp add: misc_fops_def)
qed

text \<open>Reading an id file from the start gives the 13 bytes of the id and a newline, and reading
  on gives end of file. Written back from the same buffer, the first 12 of these bytes are
  accepted by the file, all 13 overrun its array.\<close>

lemma id_read_write_back:
  assumes "libfs_ok L" "13 \<le> count" "\<forall>n\<le>13. user_ok L buf n" "fops \<in> set id_files"
  shows "\<exists>um'. fop_read fops L um buf count 0 = (13, um', 13) \<and> um_read um' buf 13 = id_bytes @ [10] \<and>
    fop_read fops L um' buf count 13 = (0, um', 13) \<and>
    fop_write fops L um' buf 12 pos = Inr (12, 12) \<and> fop_write fops L um' buf 13 pos = Inl OutOfBounds"
proof -
  let ?um' = "um_write um buf (id_bytes @ [10])"
  have rd: "um_read ?um' buf 13 = id_bytes @ [10]"
    using um_read_write [of um buf "id_bytes @ [10]"] by simp
  have ok: "user_ok L buf 0" "user_ok L buf 12" "user_ok L buf 13" "0 \<le> count" using assms(2,3) by simp_all
  note laws = misc.whole_read misc.end_of_file misc.copy_back t02.whole_read t02.end_of_file t02.copy_back
    t12.whole_read t12.end_of_file t12.copy_back t22.whole_read t22.end_of_file t22.copy_back
  show ?thesis
    using assms(4) unfolding id_tables
    by (intro exI [of _ ?um'] conjI rd) (auto simp: laws assms(1,2) ok)
qed

lemma id_read_write_back_witness:
  "\<exists>um'. fop_read task08_fops_id_22 (sample_libfs [] 1000) (\<lambda>a. 0) 100 4096 0 = (13, um', 13) \<and>
    um_read um' 100 13 = id_bytes @ [10] \<and>
    fop_read task08_fops_id_22 (sample_libfs [] 1000) um' 100 4096 13 = (0, um', 13) \<and>
    fop_write task08_fops_id_22 (sample_libfs [] 1000) um' 100 12 0 = Inr (12, 12) \<and>
    fop_write task08_fops_id_22 (sample_libfs [] 1000) um' 100 13 0 = Inl OutOfBounds"
  by (rule id_read_write_back [OF sample_libfs_ok])
    (simp_all add: sample_libfs_def sample_api_def kapi.defs id_files_def)

lemma dec_int_length: "- (2 ^ 63) \<le> i \<Longrightarrow> i < 2 ^ 63 \<Longrightarrow> length (dec_int i) \<le> 20"
proof -
  assume i: "- (2 ^ 63) \<le> i" "i < 2 ^ 63"
  have d: "length (dec_nat (nat j)) \<le> 19" if "j \<le> 2 ^ 63" for j
    using dec_nat_length [of "nat j" 18] that by (simp add: nat_less_iff)
  show ?thesis
    using d [of i] d [of "- i"] i by (simp add: dec_int_def)
qed

lemma dec_int_nonzero: "0 \<notin> set (dec_int i)"
  using dec_nat_nonzero by (simp add: dec_int_def)

text \<open>Reading the jiffies file never overruns its 30-byte array, whatever the counter: the text
  has at most 21 bytes, and the read hands the helper exactly the decimal digits of the counter,
  read as a signed number, and a newline.\<close>

lemma jiffies_read_correct:
  assumes "rd = task08_read_jiffies_12 \<or> rd = task08_read_jiffies_22"
  shows "\<exists>timestr. rd L jiffies_64 um buf count f_pos =
      Inr (simple_read_from_buffer L um buf count f_pos timestr (c_strlen timestr)) \<and>
    length timestr = 30 \<and> c_strlen timestr \<le> 21 \<and>
    take (nat (c_strlen timestr)) timestr = dec_int (s64 jiffies_64) @ [10]"
proof -
  have "length (dec_int (s64 jiffies_64)) \<le> 20"
    using pos_mod_bound [of "2 ^ 64" "jiffies_64 + 2 ^ 63"]
    by (intro dec_int_length) (simp_all add: s64_def)
  then obtain timestr where t: "c_sprintf (map (stack_byte L) [0..<30]) (dec_int (s64 jiffies_64) @ [10]) = Inr timestr"
    "length timestr = 30" "cstr timestr = dec_int (s64 jiffies_64) @ [10]"
    "take (length (dec_int (s64 jiffies_64) @ [10])) timestr = dec_int (s64 jiffies_64) @ [10]"
    using c_sprintf_cstr [of "dec_int (s64 jiffies_64) @ [10]" "map (stack_byte L) [0..<30]"] dec_int_nonzero
    by auto
  moreover from t(3) have "nat (c_strlen timestr) = length (dec_int (s64 jiffies_64) @ [10])"
    by (simp add: c_strlen_def)
  ultimately show ?thesis
    using assms \<open>length (dec_int (s64 jiffies_64)) \<le> 20\<close>
    by (intro exI [of _ timestr]) (auto simp: task08_read_jiffies_12_def task08_read_jiffies_22_def c_strlen_def)
qed

lemma jiffies_read_correct_witness:
  "\<exists>timestr. task08_read_jiffies_12 (sample_libfs [] 1000) 4294937296 (\<lambda>a. 0) 100 64 0 =
      Inr (simple_read_from_buffer (sample_libfs [] 1000) (\<lambda>a. 0) 100 64 0 timestr (c_strlen timestr)) \<and>
    length timestr = 30 \<and> c_strlen timestr \<le> 21 \<and>
    take (nat (c_strlen timestr)) timestr = dec_int (s64 4294937296) @ [10]"
  by (rule jiffies_read_correct [OF disjI1 [OF refl]])

end
