(* ===== verification/Scull.thy ===== *)
theory Scull
  imports KernelApi
begin

text \<open>
  The scull character device (\<open>Scull/main.c\<close>, \<open>Scull/scull.h\<close>): a device is a linked list
  of \<open>scull_qset\<close> items, each pointing to an array of pointers to quanta of bytes. The
  definitions work on the store of kernel objects, as the code does: \<open>scull_trim\<close> frees the
  list, \<open>scull_follow\<close> walks and extends it, \<open>scull_read\<close> and \<open>scull_write\<close> move bytes
  between one quantum and user memory under the device semaphore. This theory holds the data
  and the operations; \<open>ScullList\<close> and \<open>ScullFile\<close> hold what they guarantee.
\<close>

section \<open>Data\<close>

abbreviation (input) SCULL_MAJOR :: int where "SCULL_MAJOR \<equiv> 0"
abbreviation (input) SCULL_NR_DEVS :: int where "SCULL_NR_DEVS \<equiv> 4"
abbreviation (input) SCULL_QUANTUM :: int where "SCULL_QUANTUM \<equiv> 4000"
abbreviation (input) SCULL_QSET :: int where "SCULL_QSET \<equiv> 1000"

record scull_qset =
  qs_data :: ptr
  qs_next :: ptr

text \<open>The semaphore is its count; the \<open>cdev\<close> member matters to module loading only.\<close>

record scull_dev =
  sd_data :: ptr
  sd_quantum :: int
  sd_qset :: int
  sd_size :: int
  sd_access_key :: int
  sd_sem :: nat

record scull_globals =
  scull_major :: int
  scull_minor :: int
  scull_nr_devs :: int
  g_quantum :: int
  g_qset :: int

definition scull_params :: scull_globals where
  "scull_params = \<lparr>scull_major = SCULL_MAJOR, scull_minor = 0, scull_nr_devs = SCULL_NR_DEVS,
     g_quantum = SCULL_QUANTUM, g_qset = SCULL_QSET\<rparr>"

text \<open>What a kernel address holds: a list item, a pointer array or a quantum.\<close>

datatype scull_obj = QsetObj scull_qset | PtrArr "ptr list" | Quantum "byte list"

type_synonym scull_heap = "scull_obj kheap"

fun as_qset :: "scull_obj \<Rightarrow> scull_qset res" where
  "as_qset (QsetObj q) = Inr q"
| "as_qset _ = Inl UseAfterFree"

fun as_arr :: "scull_obj \<Rightarrow> ptr list res" where
  "as_arr (PtrArr ps) = Inr ps"
| "as_arr _ = Inl UseAfterFree"

fun as_quantum :: "scull_obj \<Rightarrow> byte list res" where
  "as_quantum (Quantum bs) = Inr bs"
| "as_quantum _ = Inl UseAfterFree"

definition load_qset :: "scull_heap \<Rightarrow> ptr \<Rightarrow> scull_qset res" where
  "load_qset h p = kbind (kload h p) as_qset"

definition load_arr :: "scull_heap \<Rightarrow> ptr \<Rightarrow> ptr list res" where
  "load_arr h p = kbind (kload h p) as_arr"

definition load_quantum :: "scull_heap \<Rightarrow> ptr \<Rightarrow> byte list res" where
  "load_quantum h p = kbind (kload h p) as_quantum"

text \<open>\<open>sizeof\<close> on the 64-bit ABI.\<close>

abbreviation (input) sizeof_qset :: int where "sizeof_qset \<equiv> 16"
abbreviation (input) sizeof_ptr :: int where "sizeof_ptr \<equiv> 8"

section \<open>Emptying a device\<close>

text \<open>\<open>for (i = 0; i < qset; i++) kfree(dptr->data[i]);\<close>\<close>

function trim_quanta :: "scull_heap \<Rightarrow> ptr \<Rightarrow> int \<Rightarrow> int \<Rightarrow> scull_heap res" where
  "trim_quanta h arr i qset =
     (if i < qset then
        kbind (load_arr h arr) (\<lambda>ps.
        kbind (arr_get ps i) (\<lambda>p.
        kbind (kfree h p) (\<lambda>h'.
        trim_quanta h' arr (i + 1) qset)))
      else Inr h)"
  by pat_completeness auto
termination
  by (relation "measure (\<lambda>(h, arr, i, qset). nat (qset - i))") auto

declare trim_quanta.simps [simp del]

text \<open>The body of the outer loop: one list item, freed with all it points to.\<close>

definition trim_item :: "scull_heap \<Rightarrow> int \<Rightarrow> ptr \<Rightarrow> (ptr \<times> scull_heap) res" where
  "trim_item h qset dptr =
     kbind (load_qset h dptr) (\<lambda>q.
     kbind
       (if qs_data q \<noteq> NULL then
          kbind (trim_quanta h (qs_data q) 0 qset) (\<lambda>h1.
          kbind (kfree h1 (qs_data q)) (\<lambda>h2.
          kstore h2 dptr (QsetObj (q\<lparr>qs_data := NULL\<rparr>))))
        else Inr h) (\<lambda>h3.
     kbind (load_qset h3 dptr) (\<lambda>q'.
     kbind (kfree h3 dptr) (\<lambda>h4. Inr (qs_next q', h4)))))"

lemma trim_quanta_dom: "trim_quanta h arr i qset = Inr h' \<Longrightarrow> dom h' \<subseteq> dom h"
proof (induction h arr i qset rule: trim_quanta.induct)
  case (1 h arr i qset)
  show ?case
  proof (cases "i < qset")
    case True
    with "1.prems" obtain ps p h1 where st: "load_arr h arr = Inr ps" "arr_get ps i = Inr p"
      "kfree h p = Inr h1" "trim_quanta h1 arr (i + 1) qset = Inr h'"
      by (subst (asm) trim_quanta.simps) (auto simp: kbind_Inr_iff)
    from "1.IH" [OF True st] kfree_dom [OF st(3)] show ?thesis by blast
  next
    case False
    with "1.prems" show ?thesis by (subst (asm) trim_quanta.simps) auto
  qed
qed

lemma trim_item_dom:
  assumes "trim_item h qset p = Inr (nx, h')"
  shows "dom h' \<subset> dom h"
proof -
  from assms obtain q h3 where q: "load_qset h p = Inr q"
    and h3: "(if qs_data q \<noteq> NULL then
        kbind (trim_quanta h (qs_data q) 0 qset) (\<lambda>h1.
        kbind (kfree h1 (qs_data q)) (\<lambda>h2.
        kstore h2 p (QsetObj (q\<lparr>qs_data := NULL\<rparr>)))) else Inr h) = Inr h3"
    and h': "kfree h3 p = Inr h'"
    by (auto simp: trim_item_def kbind_Inr_iff)
  have "dom h3 \<subseteq> dom h"
    using h3 by (auto simp: kbind_Inr_iff split: if_splits
        dest!: kfree_dom kstore_dom trim_quanta_dom del: subsetI)
  moreover have "p \<noteq> NULL"
    using q by (auto simp: load_qset_def kbind_Inr_iff dest: kload_InrD)
  ultimately show ?thesis using kfree_dom_less [OF h'] by blast
qed

lemma trim_item_card: "trim_item h qset p = Inr (nx, h') \<Longrightarrow> card (dom h') < card (dom h)"
  by (simp add: psubset_card_mono trim_item_dom)

function trim_list :: "scull_heap \<Rightarrow> int \<Rightarrow> ptr \<Rightarrow> scull_heap res" where
  "trim_list h qset dptr =
     (if dptr = NULL then Inr h
      else kbind (trim_item h qset dptr) (\<lambda>(nx, h'). trim_list h' qset nx))"
  by pat_completeness auto
termination
  by (relation "measure (\<lambda>(h, qset, dptr). card (dom h))")
    (auto dest: trim_item_card)

declare trim_list.simps [simp del]

definition scull_trim :: "scull_globals \<Rightarrow> scull_heap \<Rightarrow> scull_dev \<Rightarrow> (scull_heap \<times> scull_dev) res" where
  "scull_trim g h dev =
     kbind (trim_list h (sd_qset dev) (sd_data dev)) (\<lambda>h'.
     Inr (h', dev\<lparr>sd_size := 0, sd_quantum := g_quantum g, sd_qset := g_qset g, sd_data := NULL\<rparr>))"

section \<open>Following the list\<close>

definition zeroed_qset :: scull_qset where
  "zeroed_qset = \<lparr>qs_data = NULL, qs_next = NULL\<rparr>"

text \<open>
  \<open>while (n--)\<close>: \<open>n\<close> is the 32-bit word, so a negative \<open>n\<close> counts down through the whole
  range. A failed allocation leaves the \<open>NULL\<close> it stored in the \<open>next\<close> field.
\<close>

function follow_loop :: "kapi \<Rightarrow> scull_heap \<Rightarrow> ptr \<Rightarrow> 32 word \<Rightarrow> (ptr \<times> scull_heap) res" where
  "follow_loop K h qs n =
     (if n = 0 then Inr (qs, h)
      else kbind (load_qset h qs) (\<lambda>q.
        if qs_next q = NULL then
          let p = kmalloc K (live h) sizeof_qset in
          kbind (kstore h qs (QsetObj (q\<lparr>qs_next := p\<rparr>))) (\<lambda>h1.
          if p = NULL then Inr (NULL, h1)
          else follow_loop K (h1(p \<mapsto> QsetObj zeroed_qset)) p (n - 1))
        else follow_loop K h (qs_next q) (n - 1)))"
  by pat_completeness auto
termination
  by (relation "measure (\<lambda>(K, h, qs, n). unat n)") (auto simp: measure_unat)

declare follow_loop.simps [simp del]

definition scull_follow ::
    "kapi \<Rightarrow> scull_heap \<Rightarrow> scull_dev \<Rightarrow> int \<Rightarrow> (ptr \<times> scull_heap \<times> scull_dev) res" where
  "scull_follow K h dev n =
     (if sd_data dev = NULL then
        let qs = kmalloc K (live h) sizeof_qset; dev1 = dev\<lparr>sd_data := qs\<rparr> in
        if qs = NULL then Inr (NULL, h, dev1)
        else kbind (follow_loop K (h(qs \<mapsto> QsetObj zeroed_qset)) qs (word_of_int n))
          (\<lambda>(r, h'). Inr (r, h', dev1))
      else kbind (follow_loop K h (sd_data dev) (word_of_int n)) (\<lambda>(r, h'). Inr (r, h', dev)))"

section \<open>Reading and writing\<close>

text \<open>What one call works on: the store, the device, user memory and the file position.\<close>

record scull_io =
  io_heap :: scull_heap
  io_dev :: scull_dev
  io_user :: umem
  io_pos :: int

text \<open>
  The semaphore. \<open>intr\<close> says whether the sleep is interrupted by a signal; a caller that
  finds the count at 0 and is not interrupted sleeps.
\<close>

definition down_interruptible :: "bool \<Rightarrow> scull_dev \<Rightarrow> (int \<times> scull_dev) res" where
  "down_interruptible intr dev =
     (if intr then Inr (- EINTR, dev)
      else case sd_sem dev of 0 \<Rightarrow> Inl Blocked | Suc c \<Rightarrow> Inr (0, dev\<lparr>sd_sem := c\<rparr>))"

definition up :: "scull_dev \<Rightarrow> scull_dev" where
  "up dev = dev\<lparr>sd_sem := Suc (sd_sem dev)\<rparr>"

text \<open>List item, index in the item's array, offset in the quantum.\<close>

definition scull_locate :: "int \<Rightarrow> int \<Rightarrow> int \<Rightarrow> (int \<times> int \<times> int) res" where
  "scull_locate quantum qset f_pos =
     (let itemsize = s32 (quantum * qset) in
      kbind (c_div 64 f_pos itemsize) (\<lambda>d.
      kbind (c_mod 64 f_pos itemsize) (\<lambda>m.
      let item = s32 d; rest = s32 m in
      kbind (c_div 32 rest quantum) (\<lambda>s_pos.
      kbind (c_mod 32 rest quantum) (\<lambda>q_pos.
      Inr (item, s_pos, q_pos))))))"

text \<open>\<open>copy_to_user\<close> and \<open>copy_from_user\<close> at an offset of a quantum, within its bounds.\<close>

definition quantum_to_user ::
    "kapi \<Rightarrow> byte list \<Rightarrow> int \<Rightarrow> umem \<Rightarrow> uaddr \<Rightarrow> int \<Rightarrow> (nat \<times> umem) res" where
  "quantum_to_user K bs off um buf count =
     (if 0 \<le> off \<and> off + count \<le> int (length bs)
      then Inr (copy_to_user K um buf (take (nat count) (drop (nat off) bs)))
      else Inl OutOfBounds)"

definition quantum_from_user ::
    "kapi \<Rightarrow> byte list \<Rightarrow> int \<Rightarrow> umem \<Rightarrow> uaddr \<Rightarrow> int \<Rightarrow> (nat \<times> byte list) res" where
  "quantum_from_user K bs off um buf count =
     (if 0 \<le> off \<and> off + count \<le> int (length bs)
      then let (k, new) = copy_from_user K um buf (nat count) in
        Inr (k, buf_write bs (nat off) new)
      else Inl OutOfBounds)"

text \<open>The two limits on the number of bytes: the end of the data, the end of the quantum.\<close>

definition clamp_to_size :: "scull_dev \<Rightarrow> int \<Rightarrow> int \<Rightarrow> int" where
  "clamp_to_size dev f_pos count =
     (if sd_size dev < u64 (f_pos + count) then u64 (sd_size dev - f_pos) else count)"

definition clamp_to_quantum :: "int \<Rightarrow> int \<Rightarrow> int \<Rightarrow> int" where
  "clamp_to_quantum quantum q_pos count =
     (let room = u64 (s32 (quantum - q_pos)) in if room < count then room else count)"

text \<open>
  \<open>scull_read\<close> reads the geometry before it takes the semaphore; the part under the
  semaphore is a definition of its own, over that copy of the geometry.
\<close>

definition scull_read_locked ::
    "kapi \<Rightarrow> int \<Rightarrow> int \<Rightarrow> uaddr \<Rightarrow> int \<Rightarrow> scull_io \<Rightarrow> (int \<times> scull_io) res" where
  "scull_read_locked K quantum qset buf count0 s =
     (let dev = io_dev s; f_pos = io_pos s in
      if sd_size dev \<le> u64 f_pos then Inr (0, s)
      else
        let count = clamp_to_size dev f_pos count0 in
        kbind (scull_locate quantum qset f_pos) (\<lambda>(item, s_pos, q_pos).
        kbind (scull_follow K (io_heap s) dev item) (\<lambda>(dptr, h, dev').
        let s1 = s\<lparr>io_heap := h, io_dev := dev'\<rparr> in
        if dptr = NULL then Inr (0, s1)
        else kbind (load_qset h dptr) (\<lambda>q.
        if qs_data q = NULL then Inr (0, s1)
        else kbind (load_arr h (qs_data q)) (\<lambda>ps.
        kbind (arr_get ps s_pos) (\<lambda>p.
        if p = NULL then Inr (0, s1)
        else
          let count1 = clamp_to_quantum quantum q_pos count in
          kbind (load_quantum h p) (\<lambda>bs.
          kbind (quantum_to_user K bs q_pos (io_user s) buf count1) (\<lambda>(left, um).
          if left \<noteq> 0 then Inr (- EFAULT, s1\<lparr>io_user := um\<rparr>)
          else Inr (s64 count1, s1\<lparr>io_user := um, io_pos := s64 (f_pos + count1)\<rparr>)))))))))"

definition scull_read ::
    "kapi \<Rightarrow> bool \<Rightarrow> uaddr \<Rightarrow> int \<Rightarrow> scull_io \<Rightarrow> (int \<times> scull_io) res" where
  "scull_read K intr buf count s =
     (let quantum = sd_quantum (io_dev s); qset = sd_qset (io_dev s) in
      kbind (down_interruptible intr (io_dev s)) (\<lambda>(r, dev).
      if r \<noteq> 0 then Inr (- ERESTARTSYS, s)
      else kbind (scull_read_locked K quantum qset buf count (s\<lparr>io_dev := dev\<rparr>)) (\<lambda>(ret, s').
        Inr (ret, s'\<lparr>io_dev := up (io_dev s')\<rparr>))))"

text \<open>
  The two allocations of \<open>scull_write\<close>: the pointer array of an item (cleared), and a
  quantum (not cleared: it holds what \<open>kmalloc\<close> left there). Each stores the pointer before
  it looks at it.
\<close>

definition write_array :: "kapi \<Rightarrow> int \<Rightarrow> scull_heap \<Rightarrow> ptr \<Rightarrow> (ptr \<times> scull_heap) res" where
  "write_array K qset h dptr =
     kbind (load_qset h dptr) (\<lambda>q.
     if qs_data q \<noteq> NULL then Inr (qs_data q, h)
     else
       let bytes = u64 (qset * sizeof_ptr); d = kmalloc K (live h) bytes in
       kbind (kstore h dptr (QsetObj (q\<lparr>qs_data := d\<rparr>))) (\<lambda>h1.
       if d = NULL then Inr (NULL, h1)
       else Inr (d, h1(d \<mapsto> PtrArr (replicate (nat (bytes div sizeof_ptr)) NULL)))))"

definition write_quantum :: "kapi \<Rightarrow> int \<Rightarrow> scull_heap \<Rightarrow> ptr \<Rightarrow> int \<Rightarrow> (ptr \<times> scull_heap) res" where
  "write_quantum K quantum h arr s_pos =
     kbind (load_arr h arr) (\<lambda>ps.
     kbind (arr_get ps s_pos) (\<lambda>p.
     if p \<noteq> NULL then Inr (p, h)
     else
       let b = kmalloc K (live h) (u64 quantum) in
       kbind (kstore h arr (PtrArr (ps[nat s_pos := b]))) (\<lambda>h1.
       if b = NULL then Inr (NULL, h1)
       else Inr (b, h1(b \<mapsto> Quantum (map (kmalloc_byte K b) [0..<nat (u64 quantum)]))))))"

definition scull_write_locked ::
    "kapi \<Rightarrow> int \<Rightarrow> int \<Rightarrow> uaddr \<Rightarrow> int \<Rightarrow> scull_io \<Rightarrow> (int \<times> scull_io) res" where
  "scull_write_locked K quantum qset buf count0 s =
     (let f_pos = io_pos s in
      kbind (scull_locate quantum qset f_pos) (\<lambda>(item, s_pos, q_pos).
      kbind (scull_follow K (io_heap s) (io_dev s) item) (\<lambda>(dptr, h, dev).
      let s1 = s\<lparr>io_heap := h, io_dev := dev\<rparr> in
      if dptr = NULL then Inr (- ENOMEM, s1)
      else kbind (write_array K qset h dptr) (\<lambda>(arr, h1).
      let s2 = s1\<lparr>io_heap := h1\<rparr> in
      if arr = NULL then Inr (- ENOMEM, s2)
      else kbind (write_quantum K quantum h1 arr s_pos) (\<lambda>(p, h2).
      let s3 = s2\<lparr>io_heap := h2\<rparr> in
      if p = NULL then Inr (- ENOMEM, s3)
      else
        let count = clamp_to_quantum quantum q_pos count0 in
        kbind (load_quantum h2 p) (\<lambda>bs.
        kbind (quantum_from_user K bs q_pos (io_user s) buf count) (\<lambda>(left, bs').
        kbind (kstore h2 p (Quantum bs')) (\<lambda>h3.
        let s4 = s3\<lparr>io_heap := h3\<rparr> in
        if left \<noteq> 0 then Inr (- EFAULT, s4)
        else
          let pos = s64 (f_pos + count) in
          Inr (s64 count, s4\<lparr>io_pos := pos,
            io_dev := (if sd_size dev < u64 pos then dev\<lparr>sd_size := u64 pos\<rparr> else dev)\<rparr>)))))))))"

definition scull_write ::
    "kapi \<Rightarrow> bool \<Rightarrow> uaddr \<Rightarrow> int \<Rightarrow> scull_io \<Rightarrow> (int \<times> scull_io) res" where
  "scull_write K intr buf count s =
     (let quantum = sd_quantum (io_dev s); qset = sd_qset (io_dev s) in
      kbind (down_interruptible intr (io_dev s)) (\<lambda>(r, dev).
      if r \<noteq> 0 then Inr (- ERESTARTSYS, s)
      else kbind (scull_write_locked K quantum qset buf count (s\<lparr>io_dev := dev\<rparr>)) (\<lambda>(ret, s').
        Inr (ret, s'\<lparr>io_dev := up (io_dev s')\<rparr>))))"

section \<open>Open, close and seek\<close>

abbreviation (input) O_ACCMODE :: "32 word" where "O_ACCMODE \<equiv> 3"
abbreviation (input) O_WRONLY :: "32 word" where "O_WRONLY \<equiv> 1"

definition scull_open ::
    "scull_globals \<Rightarrow> bool \<Rightarrow> 32 word \<Rightarrow> scull_heap \<Rightarrow> scull_dev \<Rightarrow> (int \<times> scull_heap \<times> scull_dev) res" where
  "scull_open g intr f_flags h dev =
     (if and f_flags O_ACCMODE = O_WRONLY then
        kbind (down_interruptible intr dev) (\<lambda>(r, dev1).
        if r \<noteq> 0 then Inr (- ERESTARTSYS, h, dev)
        else kbind (scull_trim g h dev1) (\<lambda>(h', dev2). Inr (0, h', up dev2)))
      else Inr (0, h, dev))"

definition scull_release :: "scull_dev \<Rightarrow> int \<times> scull_dev" where
  "scull_release dev = (0, dev)"

text \<open>\<open>newpos = dev->size + off\<close> is an \<open>unsigned long\<close> sum, stored in a \<open>loff_t\<close>.\<close>

definition scull_llseek :: "scull_dev \<Rightarrow> int \<Rightarrow> int \<Rightarrow> int \<Rightarrow> int \<times> int" where
  "scull_llseek dev f_pos off whence =
     (let newpos =
        (if whence = 0 then Some off
         else if whence = 1 then Some (s64 (f_pos + off))
         else if whence = 2 then Some (s64 (u64 (sd_size dev + off)))
         else None) in
      case newpos of
        None \<Rightarrow> (- EINVAL, f_pos)
      | Some np \<Rightarrow> if np < 0 then (- EINVAL, f_pos) else (np, np))"

end
