(* ===== verification/ScullList.thy ===== *)
theory ScullList
  imports Scull
begin

text \<open>
  The list of quantum sets in the store: what it means for a pointer to start a well-formed
  list, which addresses the list owns, and what \<open>scull_trim\<close> and \<open>scull_follow\<close> do to it.
  A list is described by its nodes: for each item its address and, once allocated, the
  address and the entries of its pointer array.
\<close>

section \<open>Lists of quantum sets\<close>

type_synonym node = "ptr \<times> (ptr \<times> ptr list) option"

definition entry_ok :: "scull_heap \<Rightarrow> int \<Rightarrow> ptr \<Rightarrow> bool" where
  "entry_ok h q p \<longleftrightarrow> p = NULL \<or> (\<exists>bs. h p = Some (Quantum bs) \<and> int (length bs) = q)"

fun node_ok :: "scull_heap \<Rightarrow> int \<Rightarrow> int \<Rightarrow> ptr \<Rightarrow> node \<Rightarrow> bool" where
  "node_ok h q n nx (a, None) \<longleftrightarrow>
     a \<noteq> NULL \<and> h a = Some (QsetObj \<lparr>qs_data = NULL, qs_next = nx\<rparr>)"
| "node_ok h q n nx (a, Some (d, ps)) \<longleftrightarrow>
     a \<noteq> NULL \<and> d \<noteq> NULL \<and> h a = Some (QsetObj \<lparr>qs_data = d, qs_next = nx\<rparr>) \<and>
     h d = Some (PtrArr ps) \<and> int (length ps) = n \<and> (\<forall>p \<in> set ps. entry_ok h q p)"

fun seg :: "scull_heap \<Rightarrow> int \<Rightarrow> int \<Rightarrow> ptr \<Rightarrow> node list \<Rightarrow> ptr \<Rightarrow> bool" where
  "seg h q n p [] z \<longleftrightarrow> p = z"
| "seg h q n p (nd # nds) z \<longleftrightarrow> p = fst nd \<and> (\<exists>nx. node_ok h q n nx nd \<and> seg h q n nx nds z)"

definition live_entries :: "ptr list \<Rightarrow> ptr list" where
  "live_entries ps = filter (\<lambda>p. p \<noteq> NULL) ps"

fun owned_node :: "node \<Rightarrow> ptr list" where
  "owned_node (a, None) = [a]"
| "owned_node (a, Some (d, ps)) = a # d # live_entries ps"

definition owned :: "node list \<Rightarrow> ptr list" where
  "owned nds = concat (map owned_node nds)"

lemma owned_simps [simp]:
  "owned [] = []"
  "owned (nd # nds) = owned_node nd @ owned nds"
  "owned (xs @ ys) = owned xs @ owned ys"
  by (simp_all add: owned_def)

lemma set_live_entries [simp]: "set (live_entries ps) = {p \<in> set ps. p \<noteq> NULL}"
  by (simp add: live_entries_def)

lemma live_entries_simps [simp]:
  "live_entries [] = []"
  "live_entries (p # ps) = (if p = NULL then live_entries ps else p # live_entries ps)"
  by (simp_all add: live_entries_def)

lemma fst_in_owned_node [simp]: "fst nd \<in> set (owned_node nd)"
  by (cases nd rule: owned_node.cases) auto

lemma seg_append: "seg h q n p (xs @ ys) z \<longleftrightarrow> (\<exists>m. seg h q n p xs m \<and> seg h q n m ys z)"
  by (induction xs arbitrary: p) auto

lemma node_ok_addr: "node_ok h q n nx nd \<Longrightarrow> fst nd \<noteq> NULL"
  by (cases nd rule: owned_node.cases) auto

lemma node_ok_item:
  "node_ok h q n nx nd \<Longrightarrow>
   h (fst nd) = Some (QsetObj \<lparr>qs_data = (case snd nd of None \<Rightarrow> NULL | Some (d, _) \<Rightarrow> d), qs_next = nx\<rparr>)"
  by (cases nd rule: owned_node.cases) auto

lemma node_ok_owned_live: "node_ok h q n nx nd \<Longrightarrow> x \<in> set (owned_node nd) \<Longrightarrow> x \<noteq> NULL \<and> h x \<noteq> None"
  by (cases nd rule: owned_node.cases) (auto simp: entry_ok_def)

lemma seg_owned_live: "seg h q n p nds z \<Longrightarrow> x \<in> set (owned nds) \<Longrightarrow> x \<noteq> NULL \<and> h x \<noteq> None"
  by (induction nds arbitrary: p) (auto dest: node_ok_owned_live)

text \<open>Frame: only the owned addresses matter.\<close>

lemma entry_ok_frame: "(p \<noteq> NULL \<Longrightarrow> h' p = h p) \<Longrightarrow> entry_ok h' q p = entry_ok h q p"
  by (cases "p = NULL") (auto simp: entry_ok_def)

lemma node_ok_frame:
  assumes eq: "\<And>x. x \<in> set (owned_node nd) \<Longrightarrow> h' x = h x"
  shows "node_ok h' q n nx nd = node_ok h q n nx nd"
proof (cases nd rule: owned_node.cases)
  case (2 a d ps)
  have "entry_ok h' q p = entry_ok h q p" if "p \<in> set ps" for p
    using eq [of p] that 2 by (intro entry_ok_frame) auto
  then show ?thesis using eq [of a] eq [of d] 2 by simp
qed (use eq in auto)

lemma seg_frame:
  "(\<And>x. x \<in> set (owned nds) \<Longrightarrow> h' x = h x) \<Longrightarrow> seg h' q n p nds z = seg h q n p nds z"
proof (induction nds arbitrary: p)
  case (Cons nd nds)
  have "node_ok h' q n nx nd = node_ok h q n nx nd" for nx
    using Cons.prems by (intro node_ok_frame) simp
  moreover have "seg h' q n nx nds z = seg h q n nx nds z" for nx
    using Cons by simp
  ultimately show ?case by simp
qed simp

text \<open>The last \<open>next\<close> pointer decides where a list ends.\<close>

lemma seg_NULL_iff: "seg h q n p nds NULL \<Longrightarrow> p = NULL \<longleftrightarrow> nds = []"
  by (cases nds) (auto dest: node_ok_addr)

section \<open>Trimming\<close>

lemma trim_quanta_frees:
  assumes "h d = Some (PtrArr ps)" "d \<noteq> NULL" "int (length ps) = n" "0 \<le> i" "i \<le> n"
    and "\<And>p. p \<in> set (drop (nat i) ps) \<Longrightarrow> p \<noteq> NULL \<Longrightarrow> h p \<noteq> None \<and> p \<noteq> d"
    and "distinct (live_entries (drop (nat i) ps))"
  shows "trim_quanta h d i n = Inr (freed h (set (live_entries (drop (nat i) ps))))"
  using assms
proof (induction h d i n rule: trim_quanta.induct)
  case (1 h d i n)
  show ?case
  proof (cases "i < n")
    case False
    with "1.prems" show ?thesis by (subst trim_quanta.simps) simp
  next
    case True
    define p where "p = ps ! nat i"
    have len: "nat i < length ps" and nat: "nat (i + 1) = Suc (nat i)"
      using True "1.prems" by auto
    then have split: "drop (nat i) ps = p # drop (nat (i + 1)) ps"
      by (simp add: p_def Cons_nth_drop_Suc)
    define h1 where "h1 = freed h (if p = NULL then {} else {p})"
    have st: "load_arr h d = Inr ps" "arr_get ps i = Inr p"
      using "1.prems" True by (auto simp: load_arr_def kmem p_def)
    have fr: "kfree h p = Inr h1"
      using "1.prems"(6) [of p] split
      by (cases "p = NULL") (auto simp: h1_def kmem upd_None_freed)
    have "trim_quanta h1 d (i + 1) n = Inr (freed h1 (set (live_entries (drop (nat (i + 1)) ps))))"
    proof (rule "1.IH" [OF True st fr])
      show "h1 d = Some (PtrArr ps)"
        using "1.prems"(1) "1.prems"(6) [of p] split by (auto simp: h1_def freed_apply)
      show "0 \<le> i + 1" "i + 1 \<le> n" using True "1.prems"(4) by auto
      show "distinct (live_entries (drop (nat (i + 1)) ps))"
        using "1.prems"(7) split by (auto split: if_splits)
      fix x assume x: "x \<in> set (drop (nat (i + 1)) ps)" "x \<noteq> NULL"
      have "x \<noteq> p"
        using x "1.prems"(7) split by (auto split: if_splits)
      then show "h1 x \<noteq> None \<and> x \<noteq> d"
        using "1.prems"(6) [of x] x split by (auto simp: h1_def freed_apply)
    qed (use "1.prems" in auto)
    then show ?thesis
      using True st fr split
      by (subst trim_quanta.simps) (auto simp: h1_def intro: arg_cong [where f = "freed h"])
  qed
qed

lemma trim_item_frees:
  assumes ok: "node_ok h q n nx nd" and dist: "distinct (owned_node nd)"
  shows "trim_item h n (fst nd) = Inr (nx, freed h (set (owned_node nd)))"
proof (cases nd rule: owned_node.cases)
  case (1 a)
  with ok show ?thesis
    by (simp add: trim_item_def load_qset_def kmem upd_None_freed)
next
  case (2 a d ps)
  let ?L = "set (live_entries ps)"
  let ?h1 = "freed h ?L"
  have a: "a \<noteq> NULL" "h a = Some (QsetObj \<lparr>qs_data = d, qs_next = nx\<rparr>)" "a \<notin> ?L" "a \<noteq> d"
    and d: "d \<noteq> NULL" "h d = Some (PtrArr ps)" "d \<notin> ?L" and len: "int (length ps) = n"
    using ok dist 2 by auto
  have "trim_quanta h d 0 n = Inr ?h1"
    using trim_quanta_frees [of h d ps n 0] ok dist 2 len by (auto simp: entry_ok_def)
  moreover have "kfree ?h1 d = Inr (freed h (insert d ?L))"
    using d by (simp add: kmem freed_apply upd_None_freed)
  moreover have "kstore (freed h (insert d ?L)) a x = Inr ((freed h (insert d ?L))(a \<mapsto> x))" for x
    using a by (intro kstore_live) (auto simp: freed_apply)
  moreover have "((freed h (insert d ?L))(a \<mapsto> x))(a := None) = freed h (set (owned_node nd))" for x
    using 2 by (auto simp: freed_def fun_eq_iff)
  ultimately show ?thesis
    using a d 2 by (simp add: trim_item_def load_qset_def kmem)
qed

theorem trim_list_frees:
  "seg h q n p nds NULL \<Longrightarrow> distinct (owned nds) \<Longrightarrow>
   trim_list h n p = Inr (freed h (set (owned nds)))"
proof (induction nds arbitrary: h p)
  case Nil
  then show ?case by (subst trim_list.simps) simp
next
  case (Cons nd nds)
  from Cons.prems obtain nx where p: "p = fst nd" and ok: "node_ok h q n nx nd"
    and rest: "seg h q n nx nds NULL" by auto
  let ?h1 = "freed h (set (owned_node nd))"
  have "seg ?h1 q n nx nds NULL"
    using rest Cons.prems(2) by (subst seg_frame [where h = h]) (auto simp: freed_apply)
  then have "trim_list ?h1 n nx = Inr (freed ?h1 (set (owned nds)))"
    using Cons by simp
  moreover have "trim_item h n p = Inr (nx, ?h1)"
    using trim_item_frees [OF ok] Cons.prems(2) p by simp
  moreover have "p \<noteq> NULL"
    using node_ok_addr [OF ok] p by simp
  ultimately show ?case by (subst trim_list.simps) simp
qed

section \<open>Following\<close>

text \<open>Freshly allocated items have no pointer array yet.\<close>

definition blanks :: "ptr list \<Rightarrow> node list" where
  "blanks as = map (\<lambda>a. (a, None)) as"

lemma blanks_simps [simp]:
  "blanks [] = []"
  "blanks (a # as) = (a, None) # blanks as"
  "length (blanks as) = length as"
  "owned (blanks as) = as"
  by (simp_all add: blanks_def) (induction as, auto)

lemma node_ok_set_next:
  assumes "node_ok h q n nx nd" "distinct (owned_node nd)" "h (fst nd) = Some (QsetObj it)"
  shows "node_ok (h(fst nd \<mapsto> QsetObj (it\<lparr>qs_next := z\<rparr>))) q n z nd"
proof (cases nd rule: owned_node.cases)
  case (1 a)
  with assms show ?thesis by auto
next
  case (2 a d ps)
  let ?h' = "h(fst nd \<mapsto> QsetObj (it\<lparr>qs_next := z\<rparr>))"
  have "entry_ok ?h' q p" if "p \<in> set ps" for p
  proof -
    have "p \<noteq> NULL \<Longrightarrow> p \<noteq> a" using that assms(2) 2 by auto
    then have "entry_ok ?h' q p = entry_ok h q p" using 2 by (intro entry_ok_frame) simp
    then show ?thesis using that assms(1) 2 by simp
  qed
  then show ?thesis using assms 2 by auto
qed

text \<open>
  What \<open>scull_follow\<close> may do to the store: it appends blank items at addresses that were
  free, and touches nothing but the \<open>next\<close> pointer of the last item.
\<close>

definition follow_post ::
    "scull_heap \<Rightarrow> int \<Rightarrow> int \<Rightarrow> ptr \<Rightarrow> node list \<Rightarrow> nat \<Rightarrow> ptr \<Rightarrow> scull_heap \<Rightarrow> ptr list \<Rightarrow> bool" where
  "follow_post h q m p nds n r h' new \<longleftrightarrow>
     seg h' q m p (nds @ blanks new) NULL \<and> distinct (owned nds @ new) \<and>
     (\<forall>a \<in> set new. h a = None) \<and>
     (\<forall>x. x \<notin> set (owned nds) \<longrightarrow> x \<notin> set new \<longrightarrow> h' x = h x) \<and>
     (\<forall>x y. h x = Some y \<longrightarrow> (\<forall>it. y \<noteq> QsetObj it) \<longrightarrow> h' x = Some y) \<and>
     length nds + length new \<le> max (length nds) (Suc n) \<and>
     (new = [] \<longrightarrow> h' = h) \<and>
     (if r = NULL then length nds + length new \<le> n
      else n < length nds + length new \<and> r = fst ((nds @ blanks new) ! n))"

lemma follow_loop_post:
  "kmalloc_ok K \<Longrightarrow> seg h q m p nds NULL \<Longrightarrow> nds \<noteq> [] \<Longrightarrow> distinct (owned nds) \<Longrightarrow>
   \<exists>r h' new. follow_loop K h p n = Inr (r, h') \<and> follow_post h q m p nds (unat n) r h' new"
proof (induction K h p n arbitrary: nds rule: follow_loop.induct)
  case (1 K h p n)
  then obtain nd rest nx where nds: "nds = nd # rest" and p: "p = fst nd"
    and ok: "node_ok h q m nx nd" and seg: "seg h q m nx rest NULL"
    by (cases nds) auto
  note nn = node_ok_addr [OF ok]
  show ?case
  proof (cases "n = 0")
    case True
    have "follow_post h q m p nds 0 p h []"
      using 1 nds p nn by (auto simp: follow_post_def)
    then show ?thesis using True by (subst follow_loop.simps) auto
  next
    case False
    then have n: "unat n = Suc (unat (n - 1))"
      by (simp add: unat_minus_one Suc_pred unat_gt_0)
    define it where "it = \<lparr>qs_data = (case snd nd of None \<Rightarrow> NULL | Some (d, _) \<Rightarrow> d), qs_next = nx\<rparr>"
    have hp: "h p = Some (QsetObj it)" and nxt: "qs_next it = nx"
      using node_ok_item [OF ok] p by (simp_all add: it_def)
    have ld: "load_qset h p = Inr it"
      using hp nn p by (simp add: load_qset_def kmem)
    show ?thesis
    proof (cases rest)
      case (Cons nd2 rest2)
      then have nx: "nx \<noteq> NULL" using seg_NULL_iff [OF seg] by simp
      then have nz: "qs_next it \<noteq> NULL" by (simp add: nxt)
      obtain r h' new where call: "follow_loop K h nx (n - 1) = Inr (r, h')"
        and post: "follow_post h q m nx rest (unat (n - 1)) r h' new"
        using "1.IH"(2) [OF False ld nz "1.prems"(1), of rest] seg nxt Cons "1.prems"(4) nds by auto
      have nin: "x \<notin> set (owned rest)" "x \<notin> set new" if "x \<in> set (owned_node nd)" for x
        using that "1.prems"(4) nds node_ok_owned_live [OF ok that] post
        by (auto simp: follow_post_def)
      have "node_ok h' q m nx nd"
        using ok post nin by (subst node_ok_frame [where h = h]) (auto simp: follow_post_def)
      moreover have "distinct (owned nds @ new)"
        using post "1.prems"(4) nds nin
        by (auto simp: follow_post_def)
      ultimately have "follow_post h q m p nds (unat n) r h' new"
        using post nds p n by (auto simp: follow_post_def split: if_splits)
      then show ?thesis
        using False ld nz nxt call by (subst follow_loop.simps) auto
    next
      case Nil
      then have z: "qs_next it = NULL" using seg nxt by simp
      define b where "b = kmalloc K (live h) sizeof_qset"
      define h1 where "h1 = h(p \<mapsto> QsetObj (it\<lparr>qs_next := b\<rparr>))"
      have st: "kstore h p (QsetObj (it\<lparr>qs_next := b\<rparr>)) = Inr h1"
        using hp nn p by (simp add: kmem h1_def)
      show ?thesis
      proof (cases "b = NULL")
        case True
        then have "h1 = h" using hp z by (auto simp: h1_def)
        moreover have "follow_post h q m p nds (unat n) NULL h []"
          using 1 nds Nil n by (auto simp: follow_post_def)
        ultimately show ?thesis
          using False ld z st True by (subst follow_loop.simps) (auto simp: b_def Let_def)
      next
        case nb: False
        define h2 where "h2 = h1(b \<mapsto> QsetObj zeroed_qset)"
        have fresh: "h b = None"
          using kmalloc_fresh [OF "1.prems"(1)] nb by (simp add: b_def)
        have bp: "b \<noteq> p" using fresh hp by auto
        have seg2: "seg h2 q m b [(b, None)] NULL"
          using nb by (simp add: h2_def zeroed_qset_def)
        obtain r h' new where call: "follow_loop K h2 b (n - 1) = Inr (r, h')"
          and post: "follow_post h2 q m b [(b, None)] (unat (n - 1)) r h' new"
          using "1.IH"(1) [OF False ld z b_def st nb "1.prems"(1) seg2 [unfolded h2_def]]
          unfolding h2_def by fastforce
        have Pd: "distinct (b # new)" and Pn: "\<And>a. a \<in> set new \<Longrightarrow> h2 a = None"
          and Pf: "\<And>x. x \<noteq> b \<Longrightarrow> x \<notin> set new \<Longrightarrow> h' x = h2 x"
          and Po: "\<And>x y. h2 x = Some y \<Longrightarrow> \<forall>it. y \<noteq> QsetObj it \<Longrightarrow> h' x = Some y"
          using post by (auto simp: follow_post_def)
        have h2: "h2 x = h x" if "x \<noteq> p" "x \<noteq> b" for x
          using that by (simp add: h2_def h1_def)
        have newh: "h a = None" if "a \<in> set (b # new)" for a
          using that fresh Pn [of a] bp by (cases "a = p") (auto simp: h2_def h1_def split: if_splits)
        have nin: "x \<noteq> b" "x \<notin> set new" if "x \<in> set (owned_node nd)" for x
          using node_ok_owned_live [OF ok that] newh [of x] by auto
        have "node_ok h2 q m b nd"
          using node_ok_set_next [OF ok _ hp [unfolded p], of b] "1.prems"(4) nds nin p
          by (subst node_ok_frame [where h = h1]) (auto simp: h1_def h2_def)
        then have "node_ok h' q m b nd"
          using nin Pf by (subst node_ok_frame [where h = h2]) auto
        moreover have "distinct (owned nds @ b # new)"
          using Pd "1.prems"(4) nds Nil nin by auto
        moreover have "h' x = h x" if "x \<notin> set (owned nds)" "x \<notin> set (b # new)" for x
          using Pf [of x] h2 [of x] that nds p fst_in_owned_node [of nd] by (cases "x = p") auto
        moreover have "h' x = Some y" if "h x = Some y" "\<forall>it. y \<noteq> QsetObj it" for x y
          using Po [of x y] h2 [of x] that hp fresh by force
        moreover note newh
        ultimately have "follow_post h q m p nds (unat n) r h' (b # new)"
          using post nds Nil p n by (auto simp: follow_post_def split: if_splits)
        then show ?thesis
          using False ld z st nb call
          by (subst follow_loop.simps) (auto simp: b_def [symmetric] Let_def h2_def)
      qed
    qed
  qed
qed

section \<open>The list of a device\<close>

definition nodes :: "scull_heap \<Rightarrow> int \<Rightarrow> int \<Rightarrow> ptr \<Rightarrow> node list \<Rightarrow> bool" where
  "nodes h q n p nds \<longleftrightarrow> seg h q n p nds NULL \<and> distinct (owned nds)"

definition scull_rep :: "scull_heap \<Rightarrow> scull_dev \<Rightarrow> node list \<Rightarrow> bool" where
  "scull_rep h dev nds \<longleftrightarrow> nodes h (sd_quantum dev) (sd_qset dev) (sd_data dev) nds"

lemma nodes_owned_live: "nodes h q n p nds \<Longrightarrow> x \<in> set (owned nds) \<Longrightarrow> x \<noteq> NULL \<and> h x \<noteq> None"
  by (auto simp: nodes_def dest: seg_owned_live)

lemma nodes_frame:
  "nodes h q n p nds \<Longrightarrow> (\<And>x. x \<in> set (owned nds) \<Longrightarrow> h' x = h x) \<Longrightarrow> nodes h' q n p nds"
  using seg_frame [of nds h' h q n p NULL] by (simp add: nodes_def)

lemma nodes_split:
  assumes "nodes h q n p (xs @ nd # ys)"
  obtains nx where "seg h q n p xs (fst nd)" "node_ok h q n nx nd" "seg h q n nx ys NULL"
    "distinct (owned xs @ owned_node nd @ owned ys)"
  using assms by (auto simp: nodes_def seg_append)

lemma nodes_disjoint:
  "nodes h q n p (xs @ nd # ys) \<Longrightarrow> x \<in> set (owned xs) \<or> x \<in> set (owned ys) \<Longrightarrow>
   x \<notin> set (owned_node nd) \<and> h x \<noteq> None"
  using nodes_owned_live [of h q n p "xs @ nd # ys" x] by (auto simp: nodes_def)

text \<open>One node of the list is replaced by another at the same address.\<close>

lemma nodes_replace:
  assumes "nodes h q n p (xs @ nd # ys)" "fst nd' = fst nd"
    and node: "\<And>nx. node_ok h q n nx nd \<Longrightarrow> node_ok h' q n nx nd'"
    and frame: "\<And>x. x \<in> set (owned xs) \<or> x \<in> set (owned ys) \<Longrightarrow> h' x = h x"
    and dist: "distinct (owned_node nd')"
    and own: "\<And>x. x \<in> set (owned_node nd') \<Longrightarrow> x \<in> set (owned_node nd) \<or> h x = None"
  shows "nodes h' q n p (xs @ nd' # ys)"
proof -
  obtain nx where seg: "seg h q n p xs (fst nd)" and ok: "node_ok h q n nx nd"
    and segy: "seg h q n nx ys NULL" and d: "distinct (owned xs @ owned_node nd @ owned ys)"
    using nodes_split [OF assms(1)] .
  have "seg h' q n p xs (fst nd)" "seg h' q n nx ys NULL"
    using seg segy seg_frame [of xs h' h q n p "fst nd"] seg_frame [of ys h' h q n nx NULL] frame
    by simp_all
  moreover have "x \<notin> set (owned xs) \<and> x \<notin> set (owned ys)" if "x \<in> set (owned_node nd')" for x
    using own [OF that] d seg_owned_live [OF seg, of x] seg_owned_live [OF segy, of x] by auto
  ultimately show ?thesis
    using node [OF ok] assms(2) d dist by (auto simp: nodes_def seg_append)
qed

lemma unat_word_of_int_32: "0 \<le> n \<Longrightarrow> n < 2 ^ 31 \<Longrightarrow> unat (word_of_int n :: 32 word) = nat n"
  by (simp add: unat_eq_nat_uint uint_word_of_int)

text \<open>\<open>n\<close> is any \<open>int\<close>: what counts is its 32-bit pattern.\<close>

lemma scull_follow_any:
  assumes K: "kmalloc_ok K" and rep: "scull_rep h dev nds"
  obtains r h' a new where "scull_follow K h dev n = Inr (r, h', dev\<lparr>sd_data := a\<rparr>)"
    and "follow_post h (sd_quantum dev) (sd_qset dev) a nds (unat (word_of_int n :: 32 word)) r h' new"
proof (cases "sd_data dev = NULL")
  case False
  then have "nds \<noteq> []"
    using rep by (auto simp: scull_rep_def nodes_def)
  then obtain r h' new where call: "follow_loop K h (sd_data dev) (word_of_int n) = Inr (r, h')"
    and post: "follow_post h (sd_quantum dev) (sd_qset dev) (sd_data dev) nds (unat (word_of_int n :: 32 word)) r h' new"
    using follow_loop_post [OF K, of h "sd_quantum dev" "sd_qset dev" "sd_data dev" nds "word_of_int n"] rep
    by (auto simp: scull_rep_def nodes_def)
  show ?thesis
    by (rule that [OF _ post]) (use False call in \<open>simp add: scull_follow_def\<close>)
next
  case True
  then have nil: "nds = []"
    using rep seg_NULL_iff [of h "sd_quantum dev" "sd_qset dev" "sd_data dev" nds]
    by (simp add: scull_rep_def nodes_def)
  define b where "b = kmalloc K (live h) sizeof_qset"
  show ?thesis
  proof (cases "b = NULL")
    case bNULL: True
    have post: "follow_post h (sd_quantum dev) (sd_qset dev) NULL nds (unat (word_of_int n :: 32 word)) NULL h []"
      using nil by (simp add: follow_post_def)
    show ?thesis
      by (rule that [OF _ post]) (use bNULL True in \<open>simp add: scull_follow_def b_def Let_def\<close>)
  next
    case nb: False
    define h1 where "h1 = h(b \<mapsto> QsetObj zeroed_qset)"
    have fresh: "h b = None"
      using kmalloc_fresh [OF K] nb by (simp add: b_def)
    obtain r h' new where call: "follow_loop K h1 b (word_of_int n) = Inr (r, h')"
      and post: "follow_post h1 (sd_quantum dev) (sd_qset dev) b [(b, None)] (unat (word_of_int n :: 32 word)) r h' new"
      using follow_loop_post [OF K, of h1 "sd_quantum dev" "sd_qset dev" b "[(b, None)]" "word_of_int n"] nb
      by (auto simp: h1_def zeroed_qset_def)
    have Pn: "\<And>a. a \<in> set new \<Longrightarrow> h1 a = None"
      and Pf: "\<And>x. x \<noteq> b \<Longrightarrow> x \<notin> set new \<Longrightarrow> h' x = h1 x"
      and Po: "\<And>x y. h1 x = Some y \<Longrightarrow> \<forall>it. y \<noteq> QsetObj it \<Longrightarrow> h' x = Some y"
      using post by (auto simp: follow_post_def)
    have h1: "h1 x = h x" if "x \<noteq> b" for x using that by (simp add: h1_def)
    have "h a = None" if "a \<in> set (b # new)" for a
      using Pn [of a] that fresh h1 [of a] by (cases "a = b") auto
    moreover have "h' x = h x" if "x \<notin> set (b # new)" for x
      using Pf [of x] h1 [of x] that by auto
    moreover have "h' x = Some y" if "h x = Some y" "\<forall>it. y \<noteq> QsetObj it" for x y
      using Po [of x y] h1 [of x] that fresh by force
    ultimately have "follow_post h (sd_quantum dev) (sd_qset dev) b nds (unat (word_of_int n :: 32 word)) r h' (b # new)"
      using post nil by (auto simp: follow_post_def split: if_splits)
    then show ?thesis
      by (rule that [rotated]) (use nb call True in \<open>simp add: scull_follow_def b_def Let_def h1_def\<close>)
  qed
qed

lemma scull_follow_post:
  assumes "kmalloc_ok K" "scull_rep h dev nds" "0 \<le> n" "n < 2 ^ 31"
  obtains r h' a new where "scull_follow K h dev n = Inr (r, h', dev\<lparr>sd_data := a\<rparr>)"
    and "follow_post h (sd_quantum dev) (sd_qset dev) a nds (nat n) r h' new"
  using scull_follow_any [OF assms(1,2), of n] unat_word_of_int_32 [OF assms(3,4)] by metis

section \<open>The allocations of a write\<close>

lemma write_array_post:
  assumes K: "kmalloc_ok K" and nds: "nodes h q n p (xs @ nd # ys)" and n: "0 \<le> n" "n < 2 ^ 31"
  obtains (NoMem) "write_array K n h (fst nd) = Inr (NULL, h)"
  | (Array) d ps h' where "write_array K n h (fst nd) = Inr (d, h')" "d \<noteq> NULL"
      "nodes h' q n p (xs @ (fst nd, Some (d, ps)) # ys)"
      "snd nd = Some (d, ps) \<and> h' = h \<or>
       snd nd = None \<and> ps = replicate (nat n) NULL \<and> h d = None \<and>
         (\<forall>x. x \<noteq> fst nd \<longrightarrow> x \<noteq> d \<longrightarrow> h' x = h x) \<and>
         (\<forall>x y. h x = Some y \<longrightarrow> (\<forall>it. y \<noteq> QsetObj it) \<longrightarrow> h' x = Some y)"
proof -
  obtain nx where ok: "node_ok h q n nx nd" and dist: "distinct (owned_node nd)"
    by (rule nodes_split [OF nds]) (rule that, auto)
  obtain a r where nd: "nd = (a, r)" by (cases nd)
  note hp = node_ok_item [OF ok] and nn = node_ok_addr [OF ok]
  show ?thesis
  proof (cases r)
    case (Some dp)
    obtain d ps where dp: "dp = (d, ps)" by (cases dp)
    then show ?thesis
      using Array [of d h ps] nds ok hp nn nd Some by (simp add: write_array_def load_qset_def kmem)
  next
    case None
    define d where "d = kmalloc K (live h) (u64 (n * sizeof_ptr))"
    define it where "it = \<lparr>qs_data = NULL, qs_next = nx\<rparr>"
    define h1 where "h1 = h(a \<mapsto> QsetObj (it\<lparr>qs_data := d\<rparr>))"
    have ld: "load_qset h a = Inr it" "qs_data it = NULL" "qs_next it = nx" and ha: "h a = Some (QsetObj it)"
      using hp nn nd None by (simp_all add: load_qset_def kmem it_def)
    have st: "kstore h a (QsetObj (it\<lparr>qs_data := d\<rparr>)) = Inr h1"
      using ha nn nd by (simp add: kmem h1_def)
    have len: "nat (u64 (n * sizeof_ptr) div sizeof_ptr) = nat n"
      using n by (simp add: u64_id)
    show ?thesis
    proof (cases "d = NULL")
      case True
      then have "h1 = h" using ha by (auto simp: h1_def it_def)
      then show ?thesis
        using NoMem ld st True nd by (simp add: write_array_def d_def Let_def)
    next
      case False
      define h2 where "h2 = h1(d \<mapsto> PtrArr (replicate (nat n) NULL))"
      have fresh: "h d = None"
        using kmalloc_fresh [OF K] False by (simp add: d_def)
      have da: "d \<noteq> a" using fresh ha by auto
      have call: "write_array K n h (fst nd) = Inr (d, h2)"
        using ld st False nd len by (simp add: write_array_def d_def [symmetric] Let_def h2_def)
      have "nodes h2 q n p (xs @ (fst nd, Some (d, replicate (nat n) NULL)) # ys)"
      proof (rule nodes_replace [OF nds])
        fix nx' assume "node_ok h q n nx' nd"
        then show "node_ok h2 q n nx' (fst nd, Some (d, replicate (nat n) NULL))"
          using nd None ha da False n by (auto simp: h2_def h1_def it_def entry_ok_def)
      next
        fix x assume x: "x \<in> set (owned xs) \<or> x \<in> set (owned ys)"
        then have "x \<noteq> a" "x \<noteq> d"
          using nodes_disjoint [OF nds x] nd fresh fst_in_owned_node [of nd] by auto
        then show "h2 x = h x" by (simp add: h2_def h1_def)
      qed (use nd None fresh da in \<open>auto simp: live_entries_def\<close>)
      then show ?thesis
        using Array [OF call False] fresh nd None ha by (auto simp: h2_def h1_def)
    qed
  qed
qed

lemma write_quantum_post:
  assumes K: "kmalloc_ok K" and nds: "nodes h q n p (xs @ (a, Some (d, ps)) # ys)"
    and s: "0 \<le> s" "s < n" and q: "0 \<le> q" "q < 2 ^ 31"
  obtains (NoMem) "write_quantum K q h d s = Inr (NULL, h)"
  | (Quantum) b bs h' where "write_quantum K q h d s = Inr (b, h')" "b \<noteq> NULL"
      "nodes h' q n p (xs @ (a, Some (d, ps[nat s := b])) # ys)"
      "h' b = Some (Quantum bs)" "int (length bs) = q"
      "b = ps ! nat s \<and> h' = h \<or>
       ps ! nat s = NULL \<and> h b = None \<and> bs = map (kmalloc_byte K b) [0..<nat q] \<and>
         (\<forall>x. x \<noteq> d \<longrightarrow> x \<noteq> b \<longrightarrow> h' x = h x) \<and>
         (\<forall>x cs. h x = Some (Quantum cs) \<longrightarrow> h' x = Some (Quantum cs))"
proof -
  obtain nx where ok: "node_ok h q n nx (a, Some (d, ps))"
    and dist: "distinct (owned_node (a, Some (d, ps)))"
    by (rule nodes_split [OF nds]) (rule that, auto)
  have hd: "h d = Some (PtrArr ps)" and dn: "d \<noteq> NULL" and len: "int (length ps) = n"
    and ent: "\<And>p. p \<in> set ps \<Longrightarrow> entry_ok h q p"
    using ok by auto
  have ld: "load_arr h d = Inr ps" "arr_get ps s = Inr (ps ! nat s)"
    using hd dn len s by (simp_all add: load_arr_def kmem)
  have in_set: "ps ! nat s \<in> set ps" using len s by simp
  show ?thesis
  proof (cases "ps ! nat s = NULL")
    case False
    then obtain bs where bs: "h (ps ! nat s) = Some (Quantum bs)" "int (length bs) = q"
      using ent [OF in_set] by (auto simp: entry_ok_def)
    show ?thesis
      by (rule Quantum [of "ps ! nat s" h bs]) (use False ld nds bs in \<open>simp_all add: write_quantum_def\<close>)
  next
    case True
    define b where "b = kmalloc K (live h) (u64 q)"
    define h1 where "h1 = h(d \<mapsto> PtrArr (ps[nat s := b]))"
    have st: "kstore h d (PtrArr (ps[nat s := b])) = Inr h1"
      using hd dn by (simp add: kmem h1_def)
    show ?thesis
    proof (cases "b = NULL")
      case bz: True
      then have "ps[nat s := b] = ps" using True by (metis list_update_id)
      then have "h1 = h" using hd by (auto simp: h1_def)
      then show ?thesis
        using NoMem ld st True bz by (simp add: write_quantum_def b_def Let_def)
    next
      case bn: False
      have u64q: "u64 q = q" using q by (simp add: u64_id)
      then have bq: "kmalloc K (live h) q = b" by (simp add: b_def)
      define js where "js = map (kmalloc_byte K b) [0..<nat q]"
      define h2 where "h2 = h1(b \<mapsto> Quantum js)"
      have fresh: "h b = None"
        using kmalloc_fresh [OF K] bn by (simp add: b_def)
      have ne: "b \<noteq> d" "b \<noteq> a" "b \<notin> set ps"
        using fresh hd ok ent bn by (auto simp: entry_ok_def)
      have call: "write_quantum K q h d s = Inr (b, h2)"
        using ld st True bn bq by (simp add: write_quantum_def u64q Let_def h2_def js_def)
      have jl: "int (length js) = q" using q by (simp add: js_def)
      have ent2: "entry_ok h2 q x" if "x \<in> set (ps[nat s := b])" for x
      proof (cases "x = b")
        case True then show ?thesis using jl by (simp add: entry_ok_def h2_def)
      next
        case False
        then have x: "x \<in> set ps" using that set_update_subset_insert by fastforce
        have "x \<noteq> NULL \<Longrightarrow> x \<noteq> d" using ent [OF x] hd by (auto simp: entry_ok_def)
        then have "entry_ok h2 q x = entry_ok h q x"
          using False by (intro entry_ok_frame) (simp add: h2_def h1_def)
        then show ?thesis using ent [OF x] by simp
      qed
      have "live_entries (ps[nat s := b]) = live_entries (take (nat s) ps) @ b # live_entries (drop (Suc (nat s)) ps)"
        using bn len s by (simp add: upd_conv_take_nth_drop live_entries_def)
      moreover have "live_entries ps = live_entries (take (nat s) ps) @ live_entries (drop (Suc (nat s)) ps)"
        using True id_take_nth_drop [of "nat s" ps] len s
        by (metis filter_append live_entries_def live_entries_simps(2) nat_less_iff)
      ultimately have dl: "distinct (live_entries (ps[nat s := b]))"
        using dist ne by (auto simp: live_entries_def dest: in_set_takeD in_set_dropD)
      have "nodes h2 q n p (xs @ (a, Some (d, ps[nat s := b])) # ys)"
      proof (rule nodes_replace [OF nds])
        fix nx' assume "node_ok h q n nx' (a, Some (d, ps))"
        then show "node_ok h2 q n nx' (a, Some (d, ps[nat s := b]))"
          using ne ent2 dist len by (auto simp: h2_def h1_def)
      next
        fix x assume x: "x \<in> set (owned xs) \<or> x \<in> set (owned ys)"
        then have "x \<noteq> d" "x \<noteq> b"
          using nodes_disjoint [OF nds x] fresh by auto
        then show "h2 x = h x" by (simp add: h2_def h1_def)
      qed (use dist dl ne fresh set_update_subset_insert [of ps "nat s" b] in auto)
      then show ?thesis
        using Quantum [OF call bn, of js] True fresh jl hd by (auto simp: h2_def h1_def js_def)
    qed
  qed
qed

end
