(* ===== verification/ScullFile.thy ===== *)
theory ScullFile
  imports ScullList
begin

text \<open>
  A scull device as a file: which byte a device holds at a position (\<open>scull_peek\<close>), and what
  \<open>scull_read\<close>, \<open>scull_write\<close>, \<open>scull_open\<close> and \<open>scull_llseek\<close> do to it. The results are for
  a sane geometry (positive quantum and quantum-set sizes whose product is an \<open>int\<close>) and for
  positions whose list item is an \<open>int\<close>; what happens outside is in \<open>ScullAdmin\<close>.
\<close>

section \<open>Addressing\<close>

definition geom_ok :: "int \<Rightarrow> int \<Rightarrow> bool" where
  "geom_ok q n \<longleftrightarrow> 0 < q \<and> 0 < n \<and> q * n < 2 ^ 31"

definition pos_ok :: "int \<Rightarrow> int \<Rightarrow> int \<Rightarrow> bool" where
  "pos_ok q n pos \<longleftrightarrow> 0 \<le> pos \<and> pos < 2 ^ 63 \<and> pos div (q * n) < 2 ^ 31"

lemma geom_bounds:
  assumes "geom_ok q n"
  shows "0 < q" "0 < n" "0 < q * n" "q * n < 2 ^ 31" "q < 2 ^ 31" "n < 2 ^ 31"
proof -
  show *: "0 < q" "0 < n" "0 < q * n" "q * n < 2 ^ 31"
    using assms by (simp_all add: geom_ok_def)
  have "q \<le> q * n" "n \<le> q * n"
    using * mult_left_mono [of 1 n q] mult_right_mono [of 1 q n] by simp_all
  then show "q < 2 ^ 31" "n < 2 ^ 31" using *(4) by linarith+
qed

lemma scull_locate_ok:
  assumes g: "geom_ok q n" and p: "pos_ok q n pos"
  shows "scull_locate q n pos = Inr (pos div q div n, pos div q mod n, pos mod q)"
proof -
  note gb = geom_bounds [OF g]
  have item: "pos div (q * n) = pos div q div n"
    using gb by (simp add: zdiv_zmult2_eq)
  have m: "pos mod (q * n) = q * (pos div q mod n) + pos mod q"
    using gb by (simp add: zmod_zmult2_eq)
  have r: "0 \<le> pos mod (q * n)" "pos mod (q * n) < q * n"
    using gb by simp_all
  have "s32 (q * n) = q * n" "s32 (pos div (q * n)) = pos div (q * n)"
    "s32 (pos mod (q * n)) = pos mod (q * n)"
    using gb p r less_trans [OF r(2) gb(4)] pos_imp_zdiv_nonneg_iff [of "q * n" pos]
    by (auto intro!: s32_nonneg simp: pos_ok_def)
  moreover have "pos mod (q * n) div q = pos div q mod n" "pos mod (q * n) mod q = pos mod q"
    using gb by (simp_all add: m)
  ultimately show ?thesis
    using gb p r by (simp add: scull_locate_def c_div_nonneg c_mod_nonneg pos_ok_def item)
qed

text \<open>The item, array index and offset are in range and determine the position.\<close>

lemma locate_range:
  assumes "geom_ok q n" "pos_ok q n pos"
  shows "0 \<le> pos div q div n" "pos div q div n < 2 ^ 31" "0 \<le> pos div q mod n" "pos div q mod n < n"
    "0 \<le> pos mod q" "pos mod q < q"
    "pos = pos div q div n * (q * n) + pos div q mod n * q + pos mod q"
proof -
  note gb = geom_bounds [OF assms(1)]
  have "pos div q div n = pos div (q * n)" using gb by (simp add: zdiv_zmult2_eq)
  then show "0 \<le> pos div q div n" "pos div q div n < 2 ^ 31"
    using assms(2) gb by (simp_all add: pos_ok_def pos_imp_zdiv_nonneg_iff)
  show "0 \<le> pos div q mod n" "pos div q mod n < n" "0 \<le> pos mod q" "pos mod q < q"
    using gb by simp_all
  have "pos = (pos div q div n * n + pos div q mod n) * q + pos mod q"
    by (simp only: div_mult_mod_eq)
  also have "\<dots> = pos div q div n * (q * n) + pos div q mod n * q + pos mod q"
    by (simp only: algebra_simps)
  finally show "pos = pos div q div n * (q * n) + pos div q mod n * q + pos mod q" .
qed

section \<open>The bytes of a device\<close>

definition deref :: "scull_heap \<Rightarrow> ptr \<Rightarrow> scull_obj option" where
  "deref h p = (if p = NULL then None else h p)"

fun nth_item :: "scull_heap \<Rightarrow> ptr \<Rightarrow> nat \<Rightarrow> ptr" where
  "nth_item h p 0 = p"
| "nth_item h p (Suc k) =
     (case deref h p of Some (QsetObj it) \<Rightarrow> nth_item h (qs_next it) k | _ \<Rightarrow> NULL)"

definition item_block :: "scull_heap \<Rightarrow> ptr \<Rightarrow> nat \<Rightarrow> byte list option" where
  "item_block h p s =
     (case deref h p of Some (QsetObj it) \<Rightarrow>
        (case deref h (qs_data it) of Some (PtrArr ps) \<Rightarrow>
           (case deref h (ps ! s) of Some (Quantum bs) \<Rightarrow> Some bs | _ \<Rightarrow> None)
         | _ \<Rightarrow> None)
      | _ \<Rightarrow> None)"

text \<open>The byte at a position, \<open>None\<close> in a hole.\<close>

definition scull_peek :: "scull_heap \<Rightarrow> scull_dev \<Rightarrow> int \<Rightarrow> byte option" where
  "scull_peek h dev pos =
     (let q = sd_quantum dev; b = pos div q; n = sd_qset dev in
      map_option (\<lambda>bs. bs ! nat (pos mod q))
        (item_block h (nth_item h (sd_data dev) (nat (b div n))) (nat (b mod n))))"

text \<open>The same over the nodes of the list: the quantum of a slot, and of a block number.\<close>

definition slot_bytes :: "scull_heap \<Rightarrow> node \<Rightarrow> nat \<Rightarrow> byte list option" where
  "slot_bytes h nd s =
     (case snd nd of None \<Rightarrow> None
      | Some (d, ps) \<Rightarrow> (case deref h (ps ! s) of Some (Quantum bs) \<Rightarrow> Some bs | _ \<Rightarrow> None))"

definition block_at :: "scull_heap \<Rightarrow> node list \<Rightarrow> int \<Rightarrow> int \<Rightarrow> byte list option" where
  "block_at h nds n b =
     (if nat (b div n) < length nds then slot_bytes h (nds ! nat (b div n)) (nat (b mod n)) else None)"

lemma deref_NULL [simp]: "deref h NULL = None"
  by (simp add: deref_def)

lemma nth_item_seg:
  "seg h q n p nds NULL \<Longrightarrow> nth_item h p k = (if k < length nds then fst (nds ! k) else NULL)"
proof (induction nds arbitrary: p k)
  case Nil
  then show ?case by (cases k) simp_all
next
  case (Cons nd nds)
  then obtain nx where "p = fst nd" and ok: "node_ok h q n nx nd" and "seg h q n nx nds NULL"
    by auto
  then show ?case
    using Cons.IH node_ok_item [OF ok] node_ok_addr [OF ok]
    by (cases k) (simp_all add: deref_def)
qed

lemma item_block_node: "node_ok h q n nx nd \<Longrightarrow> item_block h (fst nd) s = slot_bytes h nd s"
  by (cases nd rule: owned_node.cases) (auto simp: item_block_def slot_bytes_def deref_def)

lemma nodes_nth:
  assumes "nodes h q n p nds" "k < length nds"
  obtains nx where "node_ok h q n nx (nds ! k)"
proof -
  have "nodes h q n p (take k nds @ nds ! k # drop (Suc k) nds)"
    using assms by (simp add: id_take_nth_drop [symmetric])
  then show ?thesis by (rule nodes_split) (rule that)
qed

lemma scull_peek_block:
  assumes "scull_rep h dev nds"
  shows "scull_peek h dev pos =
    map_option (\<lambda>bs. bs ! nat (pos mod sd_quantum dev)) (block_at h nds (sd_qset dev) (pos div sd_quantum dev))"
proof -
  define k where "k = nat (pos div sd_quantum dev div sd_qset dev)"
  have sg: "seg h (sd_quantum dev) (sd_qset dev) (sd_data dev) nds NULL"
    using assms by (simp add: scull_rep_def nodes_def)
  have blk: "item_block h (nth_item h (sd_data dev) k) s =
      (if k < length nds then slot_bytes h (nds ! k) s else None)" for s
  proof (cases "k < length nds")
    case True
    obtain nx where "node_ok h (sd_quantum dev) (sd_qset dev) nx (nds ! k)"
      using nodes_nth [OF assms [unfolded scull_rep_def] True] .
    then show ?thesis
      using True nth_item_seg [OF sg] by (simp add: item_block_node)
  next
    case False
    then show ?thesis
      using nth_item_seg [OF sg] by (simp add: item_block_def)
  qed
  then show ?thesis
    by (simp add: scull_peek_def block_at_def Let_def k_def)
qed

section \<open>What the steps of an operation keep\<close>

text \<open>Every quantum of the first store is in the second one, unchanged.\<close>

definition keeps_quanta :: "scull_heap \<Rightarrow> scull_heap \<Rightarrow> bool" where
  "keeps_quanta h h' \<longleftrightarrow> (\<forall>x bs. h x = Some (Quantum bs) \<longrightarrow> h' x = Some (Quantum bs))"

text \<open>Nothing changes but the addresses in \<open>A\<close> and addresses that were free.\<close>

definition keeps_others :: "scull_heap \<Rightarrow> ptr set \<Rightarrow> scull_heap \<Rightarrow> bool" where
  "keeps_others h A h' \<longleftrightarrow> (\<forall>x. h x \<noteq> None \<longrightarrow> x \<notin> A \<longrightarrow> h' x = h x)"

lemma keeps_quanta_refl [simp]: "keeps_quanta h h"
  by (simp add: keeps_quanta_def)

lemma keeps_others_refl [simp]: "keeps_others h A h"
  by (simp add: keeps_others_def)

lemma slot_bytes_kept:
  assumes "node_ok h q n nx nd" "int s < n" "keeps_quanta h h'"
  shows "slot_bytes h' nd s = slot_bytes h nd s"
proof (cases nd rule: owned_node.cases)
  case (2 a d ps)
  then have "entry_ok h q (ps ! s)" using assms by auto
  then show ?thesis
    using assms(3) 2 by (auto simp: slot_bytes_def deref_def entry_ok_def keeps_quanta_def)
qed (simp add: slot_bytes_def)

lemma block_at_kept:
  assumes nds: "nodes h q n p nds" and n: "0 < n" and keep: "keeps_quanta h h'"
  shows "block_at h' nds n b = block_at h nds n b"
proof (cases "nat (b div n) < length nds")
  case True
  obtain nx where "node_ok h q n nx (nds ! nat (b div n))"
    using nodes_nth [OF nds True] .
  then show ?thesis
    using True slot_bytes_kept [OF _ _ keep] n by (simp add: block_at_def)
qed (simp add: block_at_def)

lemma block_at_blanks: "block_at h (nds @ blanks new) n b = block_at h nds n b"
  by (auto simp: block_at_def nth_append slot_bytes_def blanks_def)

lemma follow_post_block:
  assumes "follow_post h q n p nds k r h' new" "nodes h q n p' nds" "0 < n"
  shows "block_at h' (nds @ blanks new) n b = block_at h nds n b"
proof -
  have "keeps_quanta h h'"
    using assms(1) by (auto simp: follow_post_def keeps_quanta_def)
  then have "block_at h' nds n b = block_at h nds n b"
    by (rule block_at_kept [OF assms(2,3)])
  then show ?thesis by (simp add: block_at_blanks)
qed

lemma follow_post_others: "follow_post h q n p nds k r h' new \<Longrightarrow> keeps_others h (set (owned nds)) h'"
  by (auto simp: follow_post_def keeps_others_def)

text \<open>Under the semaphore: what \<open>scull_follow\<close> reaches for a position.\<close>

lemma follow_post_item:
  assumes "follow_post h q n p nds k r h' new" "r \<noteq> NULL"
  obtains xs nd ys where "nds @ blanks new = xs @ nd # ys" "length xs = k" "fst nd = r"
    "nodes h' q n p (xs @ nd # ys)"
proof -
  define L where "L = nds @ blanks new"
  have k: "k < length L" and r: "r = fst (L ! k)" and nd: "nodes h' q n p L"
    using assms by (auto simp: follow_post_def nodes_def L_def split: if_splits)
  have "L = take k L @ L ! k # drop (Suc k) L"
    using k by (rule id_take_nth_drop)
  then show ?thesis
    using that [of "take k L" "L ! k" "drop (Suc k) L"] k r nd by (simp add: L_def)
qed

lemma block_at_split:
  assumes "nds = xs @ nd # ys" "length xs = nat (b div n)"
  shows "block_at h nds n b = slot_bytes h nd (nat (b mod n))"
  using assms by (simp add: block_at_def nth_append)

text \<open>One node replaced, and one quantum overwritten.\<close>

lemma block_at_replace:
  assumes nds: "nodes h q n p (xs @ nd # ys)" and n: "0 < n" and keep: "keeps_quanta h h'"
  shows "block_at h' (xs @ nd' # ys) n b =
    (if nat (b div n) = length xs then slot_bytes h' nd' (nat (b mod n)) else block_at h (xs @ nd # ys) n b)"
proof (cases "nat (b div n) < length (xs @ nd # ys)")
  case True
  obtain nx where "node_ok h q n nx ((xs @ nd # ys) ! nat (b div n))"
    using nodes_nth [OF nds True] .
  moreover have "int (nat (b mod n)) < n"
    using pos_mod_bound [OF n, of b] n by linarith
  ultimately have "slot_bytes h' ((xs @ nd # ys) ! nat (b div n)) (nat (b mod n)) =
      slot_bytes h ((xs @ nd # ys) ! nat (b div n)) (nat (b mod n))"
    using keep by (rule slot_bytes_kept)
  then show ?thesis
    using True by (auto simp: block_at_def nth_append nth_Cons split: nat.split)
qed (simp add: block_at_def)

lemma live_entries_distinct:
  "distinct (live_entries ps) \<Longrightarrow> i < length ps \<Longrightarrow> j < length ps \<Longrightarrow> i \<noteq> j \<Longrightarrow> ps ! i \<noteq> NULL \<Longrightarrow>
   ps ! i \<noteq> ps ! j"
proof (induction ps arbitrary: i j)
  case (Cons p ps)
  then show ?case
    by (cases i; cases j) (auto split: if_splits)
qed simp

lemma quantum_store:
  assumes nds: "nodes h q n p (xs @ (a, Some (d, ps)) # ys)" and s: "s < length ps" "ps ! s = r" "r \<noteq> NULL"
    and r: "h r = Some (Quantum bs)" and len: "length bs' = length bs" and n: "0 < n"
  shows "nodes (h(r \<mapsto> Quantum bs')) q n p (xs @ (a, Some (d, ps)) # ys)"
    and "block_at (h(r \<mapsto> Quantum bs')) (xs @ (a, Some (d, ps)) # ys) n b =
      (if nat (b div n) = length xs \<and> nat (b mod n) = s then Some bs'
       else block_at h (xs @ (a, Some (d, ps)) # ys) n b)"
proof -
  let ?h' = "h(r \<mapsto> Quantum bs')"
  obtain nx where ok: "node_ok h q n nx (a, Some (d, ps))"
    and dist: "distinct (owned_node (a, Some (d, ps)))"
    by (rule nodes_split [OF nds]) (rule that, auto)
  have rin: "r \<in> set ps" using s by auto
  have ne: "r \<noteq> a" "r \<noteq> d" using ok r by auto
  have off: "x \<noteq> r" if "x \<in> set (owned xs) \<or> x \<in> set (owned ys)" for x
    using nodes_disjoint [OF nds that] rin s by auto
  have entq: "entry_ok h q r" using ok rin by auto
  have ent: "entry_ok ?h' q x" if "x \<in> set ps" for x
    using ok that entq r len s(3) by (cases "x = r") (auto simp: entry_ok_def)
  show nds': "nodes ?h' q n p (xs @ (a, Some (d, ps)) # ys)"
  proof (rule nodes_replace [OF nds refl])
    fix nx' assume "node_ok h q n nx' (a, Some (d, ps))"
    then show "node_ok ?h' q n nx' (a, Some (d, ps))" using ne ent by simp
  qed (use dist off in auto)
  show "block_at ?h' (xs @ (a, Some (d, ps)) # ys) n b =
      (if nat (b div n) = length xs \<and> nat (b mod n) = s then Some bs'
       else block_at h (xs @ (a, Some (d, ps)) # ys) n b)"
  proof (cases "nat (b div n) = length xs")
    case True
    have "int (length ps) = n" using ok by simp
    then have "nat (b mod n) < length ps" using pos_mod_bound [OF n, of b] n by linarith
    then have "ps ! nat (b mod n) \<noteq> r" if "nat (b mod n) \<noteq> s"
      using live_entries_distinct [of ps s "nat (b mod n)"] dist s that by auto
    then show ?thesis
      using True s by (auto simp: block_at_def nth_append slot_bytes_def deref_def)
  next
    case False
    define L where "L = xs @ (a, Some (d, ps)) # ys"
    show ?thesis
    proof (cases "nat (b div n) < length L")
      case True
      obtain nx' where nk: "node_ok h q n nx' (L ! nat (b div n))"
        using nodes_nth [OF nds [folded L_def] True] .
      have "L ! nat (b div n) \<in> set xs \<union> set ys"
        using True False by (auto simp: L_def nth_append nth_Cons split: nat.splits)
      then have "set (owned_node (L ! nat (b div n))) \<subseteq> set (owned xs) \<union> set (owned ys)"
        by (auto simp: owned_def)
      then have fr: "?h' x = h x" if "x \<in> set (owned_node (L ! nat (b div n)))" for x
        using that off by auto
      have "slot_bytes ?h' (L ! nat (b div n)) (nat (b mod n)) = slot_bytes h (L ! nat (b div n)) (nat (b mod n))"
      proof (cases "L ! nat (b div n)" rule: owned_node.cases)
        case (2 a' d' ps')
        then have "int (length ps') = n" using nk by simp
        then have "nat (b mod n) < length ps'" using pos_mod_bound [OF n, of b] n by linarith
        then have "ps' ! nat (b mod n) \<in> set ps'" by simp
        then show ?thesis using 2 fr [of "ps' ! nat (b mod n)"] by (simp add: slot_bytes_def deref_def)
      qed (simp add: slot_bytes_def)
      then show ?thesis using False True by (simp add: block_at_def flip: L_def)
    qed (use False in \<open>simp add: block_at_def flip: L_def\<close>)
  qed
qed

end
