(* ===== verification/ScullRW.thy ===== *)
theory ScullRW
  imports ScullFile
begin

text \<open>
  \<open>scull_read\<close> and \<open>scull_write\<close> against the bytes of the device: the bytes a read
  delivers, the bytes a write leaves, the position and size afterwards, on every branch.
\<close>

section \<open>Shared facts\<close>

lemma same_block:
  fixes pos i q :: int
  assumes "0 < q" "0 \<le> i" "pos mod q + i < q"
  shows "(pos + i) div q = pos div q" "(pos + i) mod q = pos mod q + i"
proof -
  have e: "pos + i = (pos mod q + i) + pos div q * q"
    using div_mult_mod_eq [of pos q] by simp
  have "0 \<le> pos mod q + i" using assms by simp
  then show "(pos + i) div q = pos div q" "(pos + i) mod q = pos mod q + i"
    using assms by (subst e; simp only: div_mult_self1 mod_mult_self1; simp)+
qed

lemma clamp_to_quantum_min:
  "0 \<le> o1 \<Longrightarrow> o1 < q \<Longrightarrow> q < 2 ^ 31 \<Longrightarrow> clamp_to_quantum q o1 c = min c (q - o1)"
  by (simp add: clamp_to_quantum_def s32_nonneg u64_id min_def)

lemma clamp_to_size_min:
  "0 \<le> pos \<Longrightarrow> pos < sd_size dev \<Longrightarrow> sd_size dev < 2 ^ 63 \<Longrightarrow> 0 \<le> c \<Longrightarrow> c < 2 ^ 63 \<Longrightarrow>
   clamp_to_size dev pos c = min c (sd_size dev - pos)"
  by (auto simp: clamp_to_size_def u64_id min_def)

lemma io_order:
  "s\<lparr>io_dev := d, io_heap := h\<rparr> = s\<lparr>io_heap := h, io_dev := d\<rparr>"
  "s\<lparr>io_pos := p, io_dev := d\<rparr> = s\<lparr>io_dev := d, io_pos := p\<rparr>"
  "s\<lparr>io_pos := p, io_heap := h\<rparr> = s\<lparr>io_heap := h, io_pos := p\<rparr>"
  by (cases s; simp)+

text \<open>A device with a sane geometry, a well-formed list and a size that is a \<open>loff_t\<close>.\<close>

definition scull_ok :: "scull_heap \<Rightarrow> scull_dev \<Rightarrow> node list \<Rightarrow> bool" where
  "scull_ok h dev nds \<longleftrightarrow> geom_ok (sd_quantum dev) (sd_qset dev) \<and> scull_rep h dev nds \<and>
     0 \<le> sd_size dev \<and> sd_size dev < 2 ^ 63"

lemma scull_ok_nodes: "scull_ok h dev nds \<Longrightarrow> nodes h (sd_quantum dev) (sd_qset dev) (sd_data dev) nds"
  by (simp add: scull_ok_def scull_rep_def)

lemma scull_ok_peek:
  "scull_ok h dev nds \<Longrightarrow> scull_peek h dev pos =
    map_option (\<lambda>bs. bs ! nat (pos mod sd_quantum dev)) (block_at h nds (sd_qset dev) (pos div sd_quantum dev))"
  by (simp add: scull_ok_def scull_peek_block)

lemma follow_post_ok:
  assumes "scull_ok h dev nds" "follow_post h (sd_quantum dev) (sd_qset dev) a nds k r h' new"
  shows "scull_ok h' (dev\<lparr>sd_data := a\<rparr>) (nds @ blanks new)"
    and "scull_peek h' (dev\<lparr>sd_data := a\<rparr>) p = scull_peek h dev p"
proof -
  show ok: "scull_ok h' (dev\<lparr>sd_data := a\<rparr>) (nds @ blanks new)"
    using assms by (simp add: scull_ok_def scull_rep_def nodes_def follow_post_def)
  have "block_at h' (nds @ blanks new) (sd_qset dev) b = block_at h nds (sd_qset dev) b" for b
    using follow_post_block [OF assms(2) scull_ok_nodes [OF assms(1)]] assms(1)
      geom_bounds(2) [of "sd_quantum dev" "sd_qset dev"]
    by (simp add: scull_ok_def)
  then show "scull_peek h' (dev\<lparr>sd_data := a\<rparr>) p = scull_peek h dev p"
    using scull_ok_peek [OF ok] scull_ok_peek [OF assms(1)] by simp
qed

section \<open>Reading\<close>

text \<open>The bytes a read of \<open>cnt\<close> bytes at \<open>pos\<close> is to deliver: none at a hole or at the
  end, else at most up to the end of the file and of the quantum.\<close>

definition scull_read_bytes ::
    "(int \<Rightarrow> byte option) \<Rightarrow> int \<Rightarrow> int \<Rightarrow> int \<Rightarrow> int \<Rightarrow> byte list" where
  "scull_read_bytes pk sz q pos cnt =
     (if sz \<le> pos \<or> pk pos = None then []
      else map (\<lambda>i. the (pk (pos + int i))) [0..<nat (min cnt (min (sz - pos) (q - pos mod q)))])"

lemma read_bytes_slice:
  assumes pk: "\<And>p. pk p = map_option (\<lambda>bs. bs ! nat (p mod q)) (blk (p div q))"
    and blk: "blk (pos div q) = Some bs" "int (length bs) = q" and q: "0 < q" "pos < sz"
    and c: "c = min cnt (min (sz - pos) (q - pos mod q))"
  shows "take (nat c) (drop (nat (pos mod q)) bs) = scull_read_bytes pk sz q pos cnt"
proof -
  define o1 where "o1 = pos mod q"
  have o1: "0 \<le> o1" "o1 < q" using q by (simp_all add: o1_def)
  have co: "c \<le> q - o1" using c by (simp add: o1_def)
  then have cl: "nat c \<le> length bs - nat o1" using o1 blk(2) by linarith
  have "pk pos \<noteq> None" using pk [of pos] blk(1) by simp
  then have rb: "scull_read_bytes pk sz q pos cnt = map (\<lambda>i. the (pk (pos + int i))) [0..<nat c]"
    unfolding scull_read_bytes_def c using q(2) by auto
  have "the (pk (pos + int i)) = bs ! (nat o1 + i)" if "i < nat c" for i
  proof -
    have "pos mod q + int i < q" using that co by (simp add: o1_def)
    then have "pk (pos + int i) = Some (bs ! nat (o1 + int i))"
      using pk [of "pos + int i"] same_block [OF q(1), of "int i" pos] blk(1) by (simp add: o1_def)
    then show ?thesis using o1 by (simp add: nat_add_distrib)
  qed
  then show ?thesis
    unfolding rb o1_def [symmetric] using cl by (intro nth_equalityI) simp_all
qed

text \<open>What a read may do to the rest of the state: append blank items to the list.\<close>

definition read_keeps :: "scull_io \<Rightarrow> node list \<Rightarrow> scull_io \<Rightarrow> bool" where
  "read_keeps s nds s' \<longleftrightarrow>
     (\<exists>a new. io_dev s' = (io_dev s)\<lparr>sd_data := a\<rparr> \<and>
        scull_ok (io_heap s') (io_dev s') (nds @ blanks new) \<and>
        (new = [] \<longrightarrow> io_heap s' = io_heap s)) \<and>
     (\<forall>p. scull_peek (io_heap s') (io_dev s') p = scull_peek (io_heap s) (io_dev s) p) \<and>
     keeps_others (io_heap s) (set (owned nds)) (io_heap s')"

definition read_outcome :: "kapi \<Rightarrow> uaddr \<Rightarrow> byte list \<Rightarrow> scull_io \<Rightarrow> int \<Rightarrow> scull_io \<Rightarrow> bool" where
  "read_outcome K buf bs s ret s' \<longleftrightarrow>
     ret = int (length bs) \<and> io_pos s' = io_pos s + ret \<and> io_user s' = um_write (io_user s) buf bs \<or>
     ret = - EFAULT \<and> io_pos s' = io_pos s \<and> \<not> user_ok K buf (length bs)"

lemma scull_read_locked_spec:
  assumes K: "kmalloc_ok K" "copy_to_ok K"
    and ok: "scull_ok (io_heap s) (io_dev s) nds"
    and q: "q = sd_quantum (io_dev s)" and n: "n = sd_qset (io_dev s)"
    and pos: "pos_ok q n (io_pos s)" and cnt: "0 \<le> cnt" "cnt < 2 ^ 63"
  shows "\<exists>ret s'. scull_read_locked K q n buf cnt s = Inr (ret, s') \<and> read_keeps s nds s' \<and>
    read_outcome K buf (scull_read_bytes (scull_peek (io_heap s) (io_dev s)) (sd_size (io_dev s)) q (io_pos s) cnt) s ret s'"
proof -
  let ?dev = "io_dev s" and ?pos = "io_pos s" and ?pk = "scull_peek (io_heap s) (io_dev s)"
  let ?bytes = "scull_read_bytes ?pk (sd_size ?dev) q ?pos cnt"
  have g: "geom_ok q n" using ok q n by (simp add: scull_ok_def)
  note gb = geom_bounds [OF g] and lr = locate_range [OF g pos]
  have p: "0 \<le> ?pos" "?pos < 2 ^ 63" using pos by (simp_all add: pos_ok_def)
  have sz: "0 \<le> sd_size ?dev" "sd_size ?dev < 2 ^ 63" using ok by (simp_all add: scull_ok_def)
  have u: "u64 ?pos = ?pos" "u64 (?pos + cnt) = ?pos + cnt"
    using p cnt by (simp_all add: u64_id)
  show ?thesis
  proof (cases "sd_size ?dev \<le> ?pos")
    case True
    have "read_keeps s nds s"
      unfolding read_keeps_def
      by (rule conjI, rule exI [of _ "sd_data ?dev"], rule exI [of _ "[]"]) (use ok in simp_all)
    then show ?thesis
      using True u by (simp add: scull_read_locked_def read_outcome_def scull_read_bytes_def)
  next
    case False
    define c0 where "c0 = min cnt (sd_size ?dev - ?pos)"
    have c0: "clamp_to_size ?dev ?pos cnt = c0"
      using False sz p cnt by (simp add: c0_def clamp_to_size_min)
    define item s_pos q_pos where "item = ?pos div q div n" and "s_pos = ?pos div q mod n" and "q_pos = ?pos mod q"
    note defs = item_def s_pos_def q_pos_def
    have loc: "scull_locate q n ?pos = Inr (item, s_pos, q_pos)"
      using scull_locate_ok [OF g pos] by (simp add: defs)
    obtain r h' a new where fol: "scull_follow K (io_heap s) ?dev item = Inr (r, h', ?dev\<lparr>sd_data := a\<rparr>)"
      and post: "follow_post (io_heap s) (sd_quantum ?dev) (sd_qset ?dev) a nds (nat item) r h' new"
      by (rule scull_follow_post [OF K(1), of "io_heap s" ?dev nds item])
        (use ok lr in \<open>simp_all add: scull_ok_def item_def\<close>)
    define s1 where "s1 = s\<lparr>io_heap := h', io_dev := ?dev\<lparr>sd_data := a\<rparr>\<rparr>"
    note fok = follow_post_ok [OF ok post]
    have keeps: "read_keeps s nds (s1\<lparr>io_user := um, io_pos := pp\<rparr>)" for um pp
      unfolding read_keeps_def
      by (intro conjI exI [of _ a] exI [of _ new])
        (use fok post follow_post_others [OF post] in \<open>simp_all add: s1_def follow_post_def\<close>)
    have keeps1: "read_keeps s nds s1"
      using keeps [of "io_pos s1" "io_user s1"] by simp
    have blk: "block_at h' (nds @ blanks new) n b = block_at (io_heap s) nds n b" for b
      using follow_post_block [OF post scull_ok_nodes [OF ok]] gb n by simp
    have pk: "?pk x = map_option (\<lambda>bs. bs ! nat (x mod q)) (block_at (io_heap s) nds n (x div q))" for x
      using scull_ok_peek [OF ok] q n by simp
    note start = scull_read_locked_def Let_def u False loc fol c0 s1_def [symmetric]
    show ?thesis
    proof (cases "r = NULL")
      case True
      have "?pk ?pos = None"
        using True post pk [of ?pos] by (auto simp: block_at_def follow_post_def item_def)
      then show ?thesis
        using True keeps1 by (simp add: start read_outcome_def scull_read_bytes_def) (simp add: s1_def)
    next
      case rn: False
      obtain xs nd ys where sp: "nds @ blanks new = xs @ nd # ys" "length xs = nat item" "fst nd = r"
        and nod: "nodes h' q n a (xs @ nd # ys)"
        using follow_post_item [OF post rn] q n by metis
      have bl: "block_at (io_heap s) nds n (?pos div q) = slot_bytes h' nd (nat s_pos)"
        using block_at_split [OF sp(1), of "?pos div q" n h'] sp(2) blk by (simp add: defs)
      obtain nx where nok: "node_ok h' q n nx nd" by (rule nodes_split [OF nod])
      define it where "it = \<lparr>qs_data = (case snd nd of None \<Rightarrow> NULL | Some (d, _) \<Rightarrow> d), qs_next = nx\<rparr>"
      have ld: "load_qset h' r = Inr it"
        using node_ok_item [OF nok] node_ok_addr [OF nok] sp(3) by (simp add: load_qset_def kmem it_def)
      show ?thesis
      proof (cases "snd nd")
        case None
        have "?pk ?pos = None" using pk [of ?pos] bl None by (simp add: slot_bytes_def)
        moreover have "qs_data it = NULL" using None by (simp add: it_def)
        ultimately show ?thesis
          using rn ld keeps1 by (simp add: start read_outcome_def scull_read_bytes_def) (simp add: s1_def)
      next
        case (Some dp)
        obtain d ps where dp: "dp = (d, ps)" by (cases dp)
        have nd: "nd = (r, Some (d, ps))" using Some dp sp(3) by (cases nd) simp
        have arr: "qs_data it = d" "d \<noteq> NULL" "load_arr h' d = Inr ps" "int (length ps) = n"
          using nok nd Some dp by (simp_all add: it_def load_arr_def kmem)
        define e where "e = ps ! nat s_pos"
        have get: "arr_get ps s_pos = Inr e" and ent: "entry_ok h' q e"
          using nok nd arr lr by (simp_all add: kmem e_def defs)
        show ?thesis
        proof (cases "e = NULL")
          case True
          have "?pk ?pos = None" using pk [of ?pos] bl True nd by (simp add: slot_bytes_def e_def)
          then show ?thesis
            using rn ld arr get True keeps1
            by (simp add: start read_outcome_def scull_read_bytes_def) (simp add: s1_def)
        next
          case en: False
          then obtain bs where bs: "h' e = Some (Quantum bs)" "int (length bs) = q"
            using ent by (auto simp: entry_ok_def)
          have bl': "block_at (io_heap s) nds n (?pos div q) = Some bs"
            using bl nd bs en by (simp add: slot_bytes_def e_def deref_def)
          define c1 where "c1 = min cnt (min (sd_size ?dev - ?pos) (q - ?pos mod q))"
          have c1: "clamp_to_quantum q q_pos c0 = c1"
            using lr gb by (simp add: clamp_to_quantum_min c1_def c0_def defs min.assoc)
          have c1b: "0 \<le> c1" "q_pos + c1 \<le> q" "c1 \<le> sd_size ?dev - ?pos"
            using c1_def cnt False lr by (auto simp: defs)
          have bytes: "take (nat c1) (drop (nat q_pos) bs) = ?bytes"
            using read_bytes_slice [OF pk bl' bs(2) gb(1) _ c1_def] False by (simp add: q_pos_def)
          then have len: "int (length ?bytes) = c1"
            using c1b bs lr by (auto simp flip: bytes simp: defs)
          obtain k where cp: "copy_to_user K (io_user s) buf ?bytes =
              (k, um_write (io_user s) buf (take (length ?bytes - k) ?bytes))"
            and k: "k \<le> length ?bytes" "user_ok K buf (length ?bytes) \<Longrightarrow> k = 0"
            using copy_to_userE [OF K(2)] by metis
          have qu: "quantum_to_user K bs q_pos (io_user s) buf c1 = Inr (k, um_write (io_user s) buf (take (length ?bytes - k) ?bytes))"
            using c1b bs lr bytes cp by (simp add: quantum_to_user_def defs)
          have lq: "load_quantum h' e = Inr bs" using bs en by (simp add: load_quantum_def kmem)
          have s64: "s64 c1 = c1" "s64 (?pos + c1) = ?pos + c1"
            using c1b sz p by (simp_all add: s64_nonneg)
          define um where "um = um_write (io_user s) buf (take (length ?bytes - k) ?bytes)"
          have run: "scull_read_locked K q n buf cnt s =
              (if k \<noteq> 0 then Inr (- EFAULT, s1\<lparr>io_user := um\<rparr>)
               else Inr (c1, s1\<lparr>io_user := um, io_pos := ?pos + c1\<rparr>))"
            by (simp add: start rn ld arr get en lq qu c1 s64 um_def)
          show ?thesis
          proof (cases "k = 0")
            case True
            then show ?thesis
              using run keeps [of "?pos + c1" um] len by (simp add: read_outcome_def s1_def um_def)
          next
            case kn: False
            then have "\<not> user_ok K buf (length ?bytes)" using k by auto
            then show ?thesis
              using kn run keeps [of ?pos um] by (simp add: read_outcome_def s1_def)
          qed
        qed
      qed
    qed
  qed
qed

section \<open>Writing\<close>

lemma block_index_inj:
  fixes b b' n :: int
  assumes "0 < n" "0 \<le> b" "0 \<le> b'"
  shows "nat (b div n) = nat (b' div n) \<and> nat (b mod n) = nat (b' mod n) \<longleftrightarrow> b = b'"
proof
  assume "nat (b div n) = nat (b' div n) \<and> nat (b mod n) = nat (b' mod n)"
  moreover have "0 \<le> b div n" "0 \<le> b' div n" "0 \<le> b mod n" "0 \<le> b' mod n"
    using assms by (simp_all add: pos_imp_zdiv_nonneg_iff)
  ultimately have "b div n = b' div n" "b mod n = b' mod n"
    by (metis int_nat_eq)+
  then show "b = b'" by (metis div_mult_mod_eq)
qed simp

text \<open>Allocating the pointer array changes no block; allocating a quantum adds one.\<close>

lemma array_blocks:
  assumes nds: "nodes h q n p (xs @ nd # ys)" and n: "0 < n"
    and eff: "snd nd = Some (d, ps) \<and> h' = h \<or>
       snd nd = None \<and> ps = replicate (nat n) NULL \<and> h d = None \<and>
         (\<forall>x. x \<noteq> fst nd \<longrightarrow> x \<noteq> d \<longrightarrow> h' x = h x) \<and>
         (\<forall>x y. h x = Some y \<longrightarrow> (\<forall>it. y \<noteq> QsetObj it) \<longrightarrow> h' x = Some y)"
  shows "block_at h' (xs @ (fst nd, Some (d, ps)) # ys) n b = block_at h (xs @ nd # ys) n b"
  using eff
proof (elim disjE)
  assume a: "snd nd = Some (d, ps) \<and> h' = h"
  then have "(fst nd, Some (d, ps)) = nd" by (metis prod.collapse)
  then show ?thesis using a by simp
next
  assume a: "snd nd = None \<and> ps = replicate (nat n) NULL \<and> h d = None \<and>
         (\<forall>x. x \<noteq> fst nd \<longrightarrow> x \<noteq> d \<longrightarrow> h' x = h x) \<and>
         (\<forall>x y. h x = Some y \<longrightarrow> (\<forall>it. y \<noteq> QsetObj it) \<longrightarrow> h' x = Some y)"
  then have keep: "keeps_quanta h h'" by (auto simp: keeps_quanta_def)
  have "slot_bytes h' (fst nd, Some (d, ps)) (nat (b mod n)) = None"
    using a pos_mod_bound [OF n, of b] n by (simp add: slot_bytes_def)
  moreover have "slot_bytes h nd s = None" for s
    using a by (simp add: slot_bytes_def)
  ultimately show ?thesis
    using block_at_replace [OF nds n keep, of "(fst nd, Some (d, ps))" b]
    by (simp add: block_at_def nth_append)
qed

lemma quantum_blocks:
  assumes nds: "nodes h q n p (xs @ (a, Some (d, ps)) # ys)" and n: "0 < n" and s: "s < n"
    and hb: "h' b = Some (Quantum bs)" "b \<noteq> NULL" and blk: "0 \<le> blk" "nat (blk div n) = length xs" "blk mod n = s"
    and eff: "b = ps ! nat s \<and> h' = h \<or>
       ps ! nat s = NULL \<and> h b = None \<and> bs = map (kmalloc_byte K b) [0..<nat q] \<and>
         (\<forall>x. x \<noteq> d \<longrightarrow> x \<noteq> b \<longrightarrow> h' x = h x) \<and>
         (\<forall>x cs. h x = Some (Quantum cs) \<longrightarrow> h' x = Some (Quantum cs))"
  shows "0 \<le> c \<Longrightarrow> block_at h' (xs @ (a, Some (d, ps[nat s := b])) # ys) n c =
      (if c = blk then Some bs else block_at h (xs @ (a, Some (d, ps)) # ys) n c)"
    and "bs = (case block_at h (xs @ (a, Some (d, ps)) # ys) n blk of
           Some bs0 \<Rightarrow> bs0 | None \<Rightarrow> map (kmalloc_byte K b) [0..<nat q])"
proof -
  let ?nd = "(a, Some (d, ps))" and ?nd' = "(a, Some (d, ps[nat s := b]))"
  obtain nx where ok: "node_ok h q n nx ?nd" by (rule nodes_split [OF nds]) simp
  then have len: "int (length ps) = n" by simp
  have s0: "0 \<le> s" using blk n by auto
  have at: "block_at h (xs @ ?nd # ys) n blk = slot_bytes h ?nd (nat s)"
    using blk by (simp add: block_at_def nth_append)
  have keep: "keeps_quanta h h'" using eff by (auto simp: keeps_quanta_def)
  show "bs = (case block_at h (xs @ ?nd # ys) n blk of
           Some bs0 \<Rightarrow> bs0 | None \<Rightarrow> map (kmalloc_byte K b) [0..<nat q])"
    using at eff hb by (auto simp: slot_bytes_def deref_def)
  assume c: "0 \<le> c"
  have m: "int (nat (c mod n)) < n" using pos_mod_bound [OF n, of c] n by linarith
  have "slot_bytes h' ?nd' (nat (c mod n)) =
      (if nat (c mod n) = nat s then Some bs else slot_bytes h ?nd (nat (c mod n)))"
  proof (cases "nat (c mod n) = nat s")
    case True
    then show ?thesis using hb s s0 len by (simp add: slot_bytes_def deref_def)
  next
    case False
    then have "slot_bytes h' ?nd' (nat (c mod n)) = slot_bytes h' ?nd (nat (c mod n))"
      by (simp add: slot_bytes_def)
    then show ?thesis using False slot_bytes_kept [OF ok m keep] by simp
  qed
  moreover have "c = blk \<longleftrightarrow> nat (c div n) = length xs \<and> nat (c mod n) = nat s"
    using block_index_inj [OF n c blk(1)] blk by simp
  ultimately show "block_at h' (xs @ ?nd' # ys) n c =
      (if c = blk then Some bs else block_at h (xs @ ?nd # ys) n c)"
    using block_at_replace [OF nds n keep, of ?nd' c] by (auto simp: block_at_def nth_append)
qed

text \<open>
  The effect of a write on the blocks of the device: none when memory runs out; else the
  block of the position is its old content, or what the fresh allocation held, with the new
  bytes over it.
\<close>

definition old_block :: "kapi \<Rightarrow> ptr \<Rightarrow> int \<Rightarrow> byte list option \<Rightarrow> byte list" where
  "old_block K j q old = (case old of Some bs \<Rightarrow> bs | None \<Rightarrow> map (kmalloc_byte K j) [0..<nat q])"

definition write_frame :: "scull_io \<Rightarrow> node list \<Rightarrow> scull_io \<Rightarrow> node list \<Rightarrow> bool" where
  "write_frame s nds s' nds' \<longleftrightarrow>
     scull_ok (io_heap s') (io_dev s') nds' \<and> io_user s' = io_user s \<and>
     keeps_others (io_heap s) (set (owned nds)) (io_heap s') \<and>
     (\<exists>a z. io_dev s' = (io_dev s)\<lparr>sd_data := a, sd_size := z\<rparr>)"

definition write_blocks ::
    "kapi \<Rightarrow> uaddr \<Rightarrow> int \<Rightarrow> scull_io \<Rightarrow> node list \<Rightarrow> int \<Rightarrow> scull_io \<Rightarrow> node list \<Rightarrow> bool" where
  "write_blocks K buf c s nds ret s' nds' \<longleftrightarrow>
     (let q = sd_quantum (io_dev s); n = sd_qset (io_dev s); pos = io_pos s;
          before = block_at (io_heap s) nds n; after = block_at (io_heap s') nds' n in
      ret = - ENOMEM \<and> io_pos s' = pos \<and> sd_size (io_dev s') = sd_size (io_dev s) \<and> (\<forall>b\<ge>0. after b = before b) \<or>
      (\<exists>j new. length new = nat c \<and>
         (\<forall>b\<ge>0. after b = (if b = pos div q
            then Some (buf_write (old_block K j q (before b)) (nat (pos mod q)) new) else before b)) \<and>
         (ret = c \<and> new = um_read (io_user s) buf (nat c) \<and> io_pos s' = pos + c \<and>
            sd_size (io_dev s') = max (sd_size (io_dev s)) (pos + c) \<or>
          ret = - EFAULT \<and> \<not> user_ok K buf (nat c) \<and> io_pos s' = pos \<and>
            sd_size (io_dev s') = sd_size (io_dev s))))"

lemma scull_write_locked_spec:
  assumes K: "kmalloc_ok K" "copy_from_ok K"
    and ok: "scull_ok (io_heap s) (io_dev s) nds"
    and q: "q = sd_quantum (io_dev s)" and n: "n = sd_qset (io_dev s)"
    and pos: "pos_ok q n (io_pos s)" and cnt: "0 \<le> cnt" "io_pos s + cnt < 2 ^ 63"
    and c: "c = min cnt (q - io_pos s mod q)"
  shows "\<exists>ret s' nds'. scull_write_locked K q n buf cnt s = Inr (ret, s') \<and>
    write_frame s nds s' nds' \<and> write_blocks K buf c s nds ret s' nds'"
proof -
  let ?dev = "io_dev s" and ?pos = "io_pos s"
  have g: "geom_ok q n" using ok q n by (simp add: scull_ok_def)
  note gb = geom_bounds [OF g] and lr = locate_range [OF g pos]
  have p: "0 \<le> ?pos" "?pos < 2 ^ 63" using pos by (simp_all add: pos_ok_def)
  have sz: "0 \<le> sd_size ?dev" "sd_size ?dev < 2 ^ 63" using ok by (simp_all add: scull_ok_def)
  define item s_pos q_pos blk where "item = ?pos div q div n" and "s_pos = ?pos div q mod n"
    and "q_pos = ?pos mod q" and "blk = ?pos div q"
  note defs = item_def s_pos_def q_pos_def
  have blk0: "0 \<le> blk" using p gb by (simp add: blk_def pos_imp_zdiv_nonneg_iff)
  have loc: "scull_locate q n ?pos = Inr (item, s_pos, q_pos)"
    using scull_locate_ok [OF g pos] by (simp add: defs)
  obtain r h' new a where fol: "scull_follow K (io_heap s) ?dev item = Inr (r, h', ?dev\<lparr>sd_data := a\<rparr>)"
    and post: "follow_post (io_heap s) (sd_quantum ?dev) (sd_qset ?dev) a nds (nat item) r h' new"
    by (rule scull_follow_post [OF K(1), of "io_heap s" ?dev nds item])
      (use ok lr in \<open>simp_all add: scull_ok_def item_def\<close>)
  define dev where "dev = ?dev\<lparr>sd_data := a\<rparr>"
  have dev: "sd_quantum dev = q" "sd_qset dev = n" "sd_data dev = a" "sd_size dev = sd_size ?dev"
    by (simp_all add: dev_def q n)
  define before where "before = block_at (io_heap s) nds n"
  have blk1: "block_at h' (nds @ blanks new) n b = before b" for b
    using follow_post_block [OF post scull_ok_nodes [OF ok]] gb n by (simp add: before_def)
  note fok = follow_post_ok(1) [OF ok post]
  have others1: "keeps_others (io_heap s) (set (owned nds)) h'" by (rule follow_post_others [OF post])
  have frame: "write_frame s nds (s\<lparr>io_heap := hx, io_dev := dev\<lparr>sd_size := z\<rparr>, io_pos := pp\<rparr>) L"
    if "nodes hx q n a L" "keeps_others (io_heap s) (set (owned nds)) hx" "0 \<le> z" "z < 2 ^ 63" for hx L z pp
    unfolding write_frame_def
    using that g dev by (auto simp: scull_ok_def scull_rep_def dev_def q n)
  have dev_size: "dev\<lparr>sd_size := sd_size ?dev\<rparr> = dev" by (simp add: dev_def)
  have framed: "write_frame s nds (s\<lparr>io_heap := hx, io_dev := dev\<rparr>) L"
    if "nodes hx q n a L" "keeps_others (io_heap s) (set (owned nds)) hx" for hx L
    using frame [OF that sz, of ?pos] by (simp add: dev_size)
  have nomem: "write_blocks K buf c s nds (- ENOMEM) (s\<lparr>io_heap := hx, io_dev := dev\<rparr>) L"
    if "\<And>b. 0 \<le> b \<Longrightarrow> block_at hx L n b = before b" for hx L
    using that dev by (simp add: write_blocks_def Let_def n [symmetric] before_def)
  note start = scull_write_locked_def Let_def loc fol dev_def [symmetric] io_order
  have nod0: "nodes h' q n a (nds @ blanks new)"
    using fok by (simp add: scull_ok_def scull_rep_def q n)
  show ?thesis
  proof (cases "r = NULL")
    case True
    then show ?thesis
      using framed [OF nod0 others1] nomem [of h' "nds @ blanks new"] blk1 by (auto simp: start)
  next
    case rn: False
    obtain xs nd ys where sp: "nds @ blanks new = xs @ nd # ys" "length xs = nat item" "fst nd = r"
      and nod: "nodes h' q n a (xs @ nd # ys)"
      using follow_post_item [OF post rn] q n by metis
    have mono: "keeps_others (io_heap s) (set (owned nds)) hx"
      if "\<And>x. h' x \<noteq> None \<Longrightarrow> x \<notin> set (owned (xs @ nd # ys)) \<Longrightarrow> hx x = h' x" for hx
    proof -
      have "x \<notin> set (owned (nds @ blanks new))" if "io_heap s x \<noteq> None" "x \<notin> set (owned nds)" for x
        using that post by (auto simp: follow_post_def)
      then show ?thesis using that others1 sp(1) by (auto simp: keeps_others_def)
    qed
    show ?thesis
    proof (cases rule: write_array_post [OF K(1) nod less_imp_le [OF gb(2)] gb(6)])
      case 1
      then show ?thesis
        using framed [OF nod0 others1] nomem [of h' "nds @ blanks new"] blk1 rn sp(3)
        by (auto simp: start)
    next
      case (2 d ps h1)
      note Array = this
      have nod1: "nodes h1 q n a (xs @ (r, Some (d, ps)) # ys)" using Array(3) sp(3) by simp
      have blk2: "block_at h1 (xs @ (r, Some (d, ps)) # ys) n b = before b" for b
        using array_blocks [OF nod gb(2) Array(4), of b] blk1 sp(1,3) by simp
      have oth1: "h1 x = h' x" if "h' x \<noteq> None" "x \<notin> set (owned (xs @ nd # ys))" for x
      proof -
        have "x \<noteq> fst nd" using that fst_in_owned_node [of nd] by auto
        then show ?thesis using Array(4) that by auto
      qed
      have s_range: "0 \<le> s_pos" "s_pos < n" using lr by (simp_all add: defs)
      have arr: "write_array K n h' r = Inr (d, h1)" using Array(1) sp(3) by simp
      show ?thesis
      proof (cases rule: write_quantum_post [OF K(1) nod1 s_range less_imp_le [OF gb(1)] gb(5)])
        case 1
        then show ?thesis
          using framed [OF nod1 mono [of h1]] oth1 nomem [of h1 "xs @ (r, Some (d, ps)) # ys"] blk2 rn arr Array(2)
          by (auto simp: start)
      next
        case (2 b bs h2)
        note Quantum = this
        define L where "L = xs @ (r, Some (d, ps[nat s_pos := b])) # ys"
        have bn: "nat (blk div n) = length xs" "blk mod n = s_pos"
          using sp(2) by (simp_all add: defs blk_def)
        note qb = quantum_blocks [OF nod1 gb(2) s_range(2) Quantum(4,2) blk0 bn Quantum(6)]
        have blk3: "block_at h2 L n b' = (if b' = blk then Some bs else before b')" if "0 \<le> b'" for b'
          using qb(1) [OF that] blk2 by (simp add: L_def)
        have bs: "bs = old_block K b q (before blk)"
          using qb(2) blk2 by (simp add: old_block_def)
        obtain nx where "node_ok h1 q n nx (r, Some (d, ps))" by (rule nodes_split [OF nod1]) simp
        then have plen: "nat s_pos < length ps" using s_range by auto
        have oth2: "h2 x = h' x" if "h' x \<noteq> None" "x \<notin> set (owned (xs @ nd # ys))" for x
        proof -
          have "x \<noteq> d"
            using Array(4) that by (cases nd) auto
          moreover have "h1 x \<noteq> None" using oth1 [OF that] that by simp
          ultimately show ?thesis using Quantum(6) oth1 [OF that] by auto
        qed
        have xb: "x \<noteq> b" if "h' x \<noteq> None" "x \<notin> set (owned (xs @ nd # ys))" for x
        proof
          assume "x = b"
          moreover have "h1 x \<noteq> None" using oth1 [OF that] that by simp
          ultimately have "b = ps ! nat s_pos" using Quantum(6) by auto
          then have "b \<in> set ps" using plen by simp
          then show False using Array(4) that \<open>x = b\<close> Quantum(2) by (cases nd) auto
        qed
        have c1: "clamp_to_quantum q q_pos cnt = c"
          using lr gb by (simp add: clamp_to_quantum_min c defs)
        have cb: "0 \<le> c" "q_pos + c \<le> q" "c \<le> cnt" using c cnt lr by (auto simp: defs)
        obtain k nb where cp: "copy_from_user K (io_user s) buf (nat c) = (k, nb)" and nbl: "length nb = nat c"
          and kn: "take (nat c - k) nb = um_read (io_user s) buf (nat c - k)" "user_ok K buf (nat c) \<Longrightarrow> k = 0"
          using copy_from_userE [OF K(2)] by metis
        define bs' where "bs' = buf_write bs (nat q_pos) nb"
        have lb: "length bs' = length bs"
          using cb lr Quantum(5) nbl by (simp add: bs'_def defs)
        have qu: "quantum_from_user K bs q_pos (io_user s) buf c = Inr (k, bs')"
          using cb lr Quantum(5) cp by (simp add: quantum_from_user_def defs bs'_def)
        have lq: "load_quantum h2 b = Inr bs" using Quantum by (simp add: load_quantum_def kmem)
        define h3 where "h3 = h2(b \<mapsto> Quantum bs')"
        have st: "kstore h2 b (scull_obj.Quantum bs') = Inr h3"
          using Quantum by (simp add: kmem h3_def)
        note qs = quantum_store [OF Quantum(3) _ _ Quantum(2,4) lb gb(2), of "nat s_pos"]
        have nod3: "nodes h3 q n a L" and blk4: "block_at h3 L n b' = (if nat (b' div n) = length xs \<and>
            nat (b' mod n) = nat s_pos then Some bs' else block_at h2 L n b')" for b'
          using qs plen by (simp_all add: h3_def L_def)
        have blk5: "block_at h3 L n b' = (if b' = blk then Some bs' else before b')" if "0 \<le> b'" for b'
          using blk4 [of b'] blk3 [OF that] block_index_inj [OF gb(2) that blk0] bn by auto
        have oth3: "keeps_others (io_heap s) (set (owned nds)) h3"
          by (rule mono) (use oth2 xb in \<open>auto simp: h3_def\<close>)
        have s64: "s64 c = c" "s64 (?pos + c) = ?pos + c" "u64 (?pos + c) = ?pos + c"
          using cb cnt p by (simp_all add: s64_nonneg u64_id)
        define z where "z = max (sd_size ?dev) (?pos + c)"
        have zb: "0 \<le> z" "z < 2 ^ 63" using sz p cb cnt by (simp_all add: z_def max_def)
        have run: "scull_write_locked K q n buf cnt s =
            (if k \<noteq> 0 then Inr (- EFAULT, s\<lparr>io_heap := h3, io_dev := dev\<rparr>)
             else Inr (c, s\<lparr>io_heap := h3, io_dev := dev\<lparr>sd_size := z\<rparr>, io_pos := ?pos + c\<rparr>))"
          using rn arr Array(2) Quantum(1,2) dev(4)
          by (simp add: start c1 lq qu st s64 z_def max_def)
        have wb: "\<forall>b'\<ge>0. block_at h3 L n b' =
            (if b' = ?pos div q then Some (buf_write (old_block K b q (before b')) (nat (?pos mod q)) nb) else before b')"
          using blk5 bs by (simp add: bs'_def blk_def q_pos_def)
        show ?thesis
        proof (cases "k = 0")
          case True
          then have "nb = um_read (io_user s) buf (nat c)" using kn(1) nbl by simp
          then have "write_blocks K buf c s nds c (s\<lparr>io_heap := h3, io_dev := dev\<lparr>sd_size := z\<rparr>, io_pos := ?pos + c\<rparr>) L"
            unfolding write_blocks_def Let_def n [symmetric] q [symmetric] before_def [symmetric]
            using wb nbl by (intro disjI2 exI [of _ b] exI [of _ nb]) (simp add: z_def)
          then show ?thesis
            using run True frame [OF nod3 oth3 zb, of "?pos + c"] by auto
        next
          case False
          then have "\<not> user_ok K buf (nat c)" using kn(2) by auto
          then have "write_blocks K buf c s nds (- EFAULT) (s\<lparr>io_heap := h3, io_dev := dev\<rparr>) L"
            unfolding write_blocks_def Let_def n [symmetric] q [symmetric] before_def [symmetric]
            using wb nbl dev by (intro disjI2 exI [of _ b] exI [of _ nb]) simp
          then show ?thesis
            using run False framed [OF nod3 oth3] by auto
        qed
      qed
    qed
  qed
qed

end
