(* ===== verification/ScullMemory.thy ===== *)
theory ScullMemory
  imports Scull
begin

text \<open>
  When a write runs out of memory the allocator did refuse: it returned NULL for a set of live
  objects that holds those of the call's start and at most as many more as the call had taken.
\<close>

definition grows :: "scull_heap \<Rightarrow> nat \<Rightarrow> scull_heap \<Rightarrow> bool" where
  "grows h k h' \<longleftrightarrow> dom h \<subseteq> dom h' \<and> card (dom h' - dom h) \<le> k"

definition refused :: "kapi \<Rightarrow> scull_heap \<Rightarrow> nat \<Rightarrow> bool" where
  "refused K h k \<longleftrightarrow> (\<exists>used n. dom h \<subseteq> {p. used p} \<and> card ({p. used p} - dom h) \<le> k \<and> kmalloc K used n = NULL)"

lemma card_between:
  fixes A B C :: "ptr set"
  assumes "A \<subseteq> B" "B \<subseteq> C" "card (B - A) \<le> k" "card (C - B) \<le> m"
  shows "card (C - A) \<le> k + m"
proof -
  have "C - A = (C - B) \<union> (B - A)" using assms by auto
  then show ?thesis using card_Un_le [of "C - B" "B - A"] assms by simp
qed

lemma grows_refl [simp]: "grows h k h"
  by (simp add: grows_def)

lemma grows_trans: "grows h k h1 \<Longrightarrow> grows h1 m h2 \<Longrightarrow> grows h (k + m) h2"
  using card_between [of "dom h" "dom h1" "dom h2" k m] by (auto simp: grows_def)

lemma grows_mono: "grows h k h' \<Longrightarrow> k \<le> m \<Longrightarrow> grows h m h'"
  by (auto simp: grows_def)

lemma grows_store [simp]: "kstore h p x = Inr h' \<Longrightarrow> grows h k h'"
  by (simp add: grows_def kstore_dom)

lemma grows_new [simp]: "grows h (Suc k) (h(p \<mapsto> x))"
proof -
  have "dom (h(p \<mapsto> x)) - dom h \<subseteq> {p}" by auto
  then have "card (dom (h(p \<mapsto> x)) - dom h) \<le> card {p}" by (rule card_mono [rotated]) simp
  then show ?thesis by (auto simp: grows_def)
qed

lemma refused_grows: "grows h k h1 \<Longrightarrow> refused K h1 m \<Longrightarrow> refused K h (k + m)"
  unfolding refused_def grows_def by (meson card_between order_trans)

lemma refused_mono: "refused K h k \<Longrightarrow> k \<le> m \<Longrightarrow> refused K h m"
  unfolding refused_def by (meson order_trans)

lemma refused_now: "kmalloc K (live h) n = NULL \<Longrightarrow> refused K h k"
proof -
  have "{p. live h p} = dom h" by (auto simp: live_def)
  then show "kmalloc K (live h) n = NULL \<Longrightarrow> ?thesis"
    unfolding refused_def by (intro exI [of _ "live h"] exI [of _ n]) simp
qed

section \<open>The steps of a write\<close>

lemma follow_loop_memory:
  "follow_loop K h p n = Inr (r, h') \<Longrightarrow> p \<noteq> NULL \<Longrightarrow>
   grows h (unat n) h' \<and> (r = NULL \<longrightarrow> refused K h (unat n))"
proof (induction K h p n rule: follow_loop.induct)
  case (1 K h p n)
  show ?case
  proof (cases "n = 0")
    case True
    then show ?thesis using 1 by (subst (asm) follow_loop.simps) auto
  next
    case False
    then have n: "unat n = Suc (unat (n - 1))"
      by (simp add: unat_minus_one Suc_pred unat_gt_0)
    obtain q where q: "load_qset h p = Inr q"
      using "1.prems"(1) False by (subst (asm) follow_loop.simps) (auto simp: kbind_Inr_iff)
    show ?thesis
    proof (cases "qs_next q = NULL")
      case next_0: False
      then have "follow_loop K h (qs_next q) (n - 1) = Inr (r, h')"
        using "1.prems"(1) False q by (subst (asm) follow_loop.simps) simp
      then show ?thesis
        using "1.IH"(2) [OF False q next_0] next_0 n
        by (auto intro: grows_mono refused_mono)
    next
      case next_0: True
      define b where "b = kmalloc K (live h) sizeof_qset"
      obtain h1 where st: "kstore h p (QsetObj (q\<lparr>qs_next := b\<rparr>)) = Inr h1"
        and rest: "(if b = NULL then Inr (NULL, h1) else follow_loop K (h1(b \<mapsto> QsetObj zeroed_qset)) b (n - 1)) = Inr (r, h')"
        using "1.prems"(1) [unfolded follow_loop.simps [of K h p n]] False q next_0
        by (auto simp: kbind_Inr_iff Let_def b_def [symmetric])
      show ?thesis
      proof (cases "b = NULL")
        case True
        then show ?thesis using rest st refused_now [of K h] by (auto simp: b_def)
      next
        case b: False
        have g: "grows h (Suc 0) (h1(b \<mapsto> QsetObj zeroed_qset))"
          using grows_trans [OF grows_store [OF st, of 0] grows_new [of h1 0]] by simp
        have "grows (h1(b \<mapsto> QsetObj zeroed_qset)) (unat (n - 1)) h' \<and>
            (r = NULL \<longrightarrow> refused K (h1(b \<mapsto> QsetObj zeroed_qset)) (unat (n - 1)))"
          by (rule "1.IH"(1) [OF False q next_0 b_def st b _ b]) (use rest b in \<open>simp add: fun_upd_def\<close>)
        then show ?thesis
          using grows_trans [OF g] refused_grows [OF g] n by auto
      qed
    qed
  qed
qed

lemma scull_follow_memory:
  assumes "scull_follow K h dev n = Inr (r, h', dev')"
  shows "grows h (Suc (unat (word_of_int n :: 32 word))) h' \<and> (r = NULL \<longrightarrow> refused K h (Suc (unat (word_of_int n :: 32 word))))"
proof (cases "sd_data dev = NULL")
  case False
  then have "follow_loop K h (sd_data dev) (word_of_int n) = Inr (r, h')"
    using assms by (auto simp: scull_follow_def kbind_Inr_iff)
  from follow_loop_memory [OF this False] show ?thesis by (auto intro: grows_mono refused_mono)
next
  case True
  define qs where "qs = kmalloc K (live h) sizeof_qset"
  show ?thesis
  proof (cases "qs = NULL")
    case n: True
    then show ?thesis using assms True refused_now [of K h] by (auto simp: scull_follow_def qs_def Let_def)
  next
    case n: False
    have g: "grows h (Suc 0) (h(qs \<mapsto> QsetObj zeroed_qset))" by simp
    have "follow_loop K (h(qs \<mapsto> QsetObj zeroed_qset)) qs (word_of_int n) = Inr (r, h')"
      using assms True n by (auto simp: scull_follow_def kbind_Inr_iff qs_def Let_def)
    from follow_loop_memory [OF this n] show ?thesis
      using grows_trans [OF g] refused_grows [OF g] by auto
  qed
qed

lemma write_array_memory:
  assumes "write_array K n h p = Inr (d, h')"
  shows "grows h 1 h' \<and> (d = NULL \<longrightarrow> refused K h 0)"
proof -
  have "grows h 1 (h1(b \<mapsto> x))" if "kstore h a y = Inr h1" for a y h1 b x
    using grows_trans [OF grows_store [OF that, of 0] grows_new [of h1 0]] by simp
  then show ?thesis
    using assms refused_now [of K h]
    by (auto simp: write_array_def kbind_Inr_iff Let_def split: if_splits)
qed

lemma write_quantum_memory:
  assumes "write_quantum K q h arr i = Inr (NULL, h')"
  shows "refused K h 0"
  using assms refused_now [of K h]
  by (auto simp: write_quantum_def kbind_Inr_iff Let_def split: if_splits)

lemma scull_write_locked_memory:
  assumes call: "scull_write_locked K q n buf cnt s = Inr (- ENOMEM, s')"
    and loc: "scull_locate q n (io_pos s) = Inr (item, s_pos, q_pos)" and item: "0 \<le> item" "item < 2 ^ 31"
    and cnt: "0 \<le> cnt" "cnt < 2 ^ 63"
  shows "refused K (io_heap s) (nat item + 2)"
proof -
  have un: "unat (word_of_int item :: 32 word) = nat item"
    using item by (simp add: unat_eq_nat_uint uint_word_of_int)
  have nonneg: "s64 (clamp_to_quantum q q_pos cnt) \<noteq> - ENOMEM"
  proof -
    have "0 \<le> clamp_to_quantum q q_pos cnt" "clamp_to_quantum q q_pos cnt < 2 ^ 63"
      using cnt u64_bounds [of "s32 (q - q_pos)"] by (auto simp: clamp_to_quantum_def Let_def)
    then show ?thesis by (simp add: s64_nonneg)
  qed
  obtain dptr h dev where fol: "scull_follow K (io_heap s) (io_dev s) item = Inr (dptr, h, dev)"
    using call loc by (auto simp: scull_write_locked_def Let_def kbind_Inr_iff)
  note f = scull_follow_memory [OF fol, unfolded un]
  show ?thesis
  proof (cases "dptr = NULL")
    case True
    then show ?thesis using f by (auto intro: refused_mono)
  next
    case d: False
    obtain arr h1 where arr: "write_array K n h dptr = Inr (arr, h1)"
      using call loc fol d by (auto simp: scull_write_locked_def Let_def kbind_Inr_iff)
    note a = write_array_memory [OF arr]
    show ?thesis
    proof (cases "arr = NULL")
      case True
      then show ?thesis using a refused_grows [of "io_heap s" "Suc (nat item)" h K 0] f by (auto intro: refused_mono)
    next
      case ar: False
      have "write_quantum K q h1 arr s_pos = Inr (NULL, h2)"
        if "write_quantum K q h1 arr s_pos = Inr (p, h2)" for p h2
        using that call loc fol d arr ar nonneg
        by (auto simp: scull_write_locked_def Let_def kbind_Inr_iff split: if_splits)
      moreover obtain p h2 where "write_quantum K q h1 arr s_pos = Inr (p, h2)"
        using call loc fol d arr ar by (auto simp: scull_write_locked_def Let_def kbind_Inr_iff)
      ultimately have "refused K h1 0" using write_quantum_memory by blast
      then show ?thesis
        using refused_grows [OF grows_trans [of "io_heap s" "Suc (nat item)" h 1 h1]] f a by fastforce
    qed
  qed
qed

end
