(* ===== verification/ScullProps.thy ===== *)
theory ScullProps
  imports ScullRW ScullMemory
begin

text \<open>
  The properties of the scull device operations, over the bytes of the device
  (\<open>scull_peek\<close>): writing, reading, reading back, trimming, opening and seeking.
\<close>

section \<open>The operations under their semaphore\<close>

text \<open>What a write of \<open>cnt\<close> bytes may come back with, byte by byte.\<close>

definition write_outcome :: "kapi \<Rightarrow> uaddr \<Rightarrow> int \<Rightarrow> scull_io \<Rightarrow> int \<Rightarrow> scull_io \<Rightarrow> bool" where
  "write_outcome K buf cnt s ret s' \<longleftrightarrow>
     (let q = sd_quantum (io_dev s); pos = io_pos s; n = min cnt (q - pos mod q);
          size0 = sd_size (io_dev s); size1 = sd_size (io_dev s');
          before = scull_peek (io_heap s) (io_dev s); after = scull_peek (io_heap s') (io_dev s') in
      ret = - ENOMEM \<and> io_pos s' = pos \<and> size1 = size0 \<and> (\<forall>p\<ge>0. after p = before p) \<or>
      ret = - EFAULT \<and> \<not> user_ok K buf (nat n) \<and> io_pos s' = pos \<and> size1 = size0 \<and>
        (\<forall>p\<ge>0. p \<notin> {pos..<pos + n} \<longrightarrow> before p \<noteq> None \<longrightarrow> after p = before p) \<or>
      ret = n \<and> io_pos s' = pos + n \<and> size1 = max size0 (pos + n) \<and>
        (\<forall>p \<in> {pos..<pos + n}. after p = Some (io_user s (buf + (p - pos)))) \<and>
        (\<forall>p\<ge>0. p \<notin> {pos..<pos + n} \<longrightarrow> before p \<noteq> None \<longrightarrow> after p = before p) \<and>
        (\<forall>p\<ge>0. before p = None \<longrightarrow> after p \<noteq> None \<longrightarrow> p div q = pos div q))"

lemma buf_write_byte:
  assumes "int (length old) = q" "0 < q" "length new = nat c" "0 \<le> c" "pos mod q + c \<le> q" "p div q = pos div q"
  shows "buf_write old (nat (pos mod q)) new ! nat (p mod q) =
    (if p \<in> {pos..<pos + c} then new ! nat (p - pos) else old ! nat (p mod q))"
proof -
  have o: "0 \<le> pos mod q" "pos mod q < q" "0 \<le> p mod q" "p mod q < q" using assms(2) by simp_all
  have d: "p - pos = p mod q - pos mod q"
  proof -
    have "p = pos div q * q + p mod q" by (metis assms(6) div_mult_mod_eq)
    moreover have "pos = pos div q * q + pos mod q" by simp
    ultimately show ?thesis by linarith
  qed
  have "buf_write old (nat (pos mod q)) new ! nat (p mod q) =
      (if nat (pos mod q) \<le> nat (p mod q) \<and> nat (p mod q) < nat (pos mod q) + length new
       then new ! (nat (p mod q) - nat (pos mod q)) else old ! nat (p mod q))"
    by (rule nth_buf_write) (use assms o in linarith)+
  moreover have "nat (pos mod q) \<le> nat (p mod q) \<and> nat (p mod q) < nat (pos mod q) + length new \<longleftrightarrow>
      p \<in> {pos..<pos + c}"
  proof -
    have "nat (pos mod q) \<le> nat (p mod q) \<longleftrightarrow> pos mod q \<le> p mod q" using o by (simp add: nat_le_eq_zle)
    moreover have "nat (p mod q) < nat (pos mod q) + length new \<longleftrightarrow> p mod q < pos mod q + c"
      using o assms(3,4) by linarith
    moreover have "p \<in> {pos..<pos + c} \<longleftrightarrow> pos mod q \<le> p mod q \<and> p mod q < pos mod q + c"
      using d by auto
    ultimately show ?thesis by simp
  qed
  moreover have "nat (p mod q) - nat (pos mod q) = nat (p - pos)"
    unfolding d using o by linarith
  ultimately show ?thesis by simp
qed

lemma block_at_length:
  assumes "nodes h q n p nds" "0 < n" "block_at h nds n b = Some bs"
  shows "int (length bs) = q"
proof -
  from assms(3) have k: "nat (b div n) < length nds" "slot_bytes h (nds ! nat (b div n)) (nat (b mod n)) = Some bs"
    by (auto simp: block_at_def split: if_splits)
  obtain nx where ok: "node_ok h q n nx (nds ! nat (b div n))"
    using nodes_nth [OF assms(1) k(1)] .
  show ?thesis
  proof (cases "nds ! nat (b div n)" rule: owned_node.cases)
    case (2 a d ps)
    have "int (length ps) = n" using ok 2 by simp
    then have "nat (b mod n) < length ps" using pos_mod_bound [OF assms(2), of b] assms(2) by linarith
    then have "entry_ok h q (ps ! nat (b mod n))" using ok 2 nth_mem by fastforce
    then show ?thesis using k(2) 2 by (auto simp: slot_bytes_def deref_def entry_ok_def split: if_splits)
  qed (use k in \<open>simp add: slot_bytes_def\<close>)
qed

lemma write_blocks_outcome:
  assumes ok: "scull_ok (io_heap s) (io_dev s) nds" and ok': "scull_ok (io_heap s') (io_dev s') nds'"
    and dev: "sd_quantum (io_dev s') = sd_quantum (io_dev s)" "sd_qset (io_dev s') = sd_qset (io_dev s)"
    and pos: "0 \<le> io_pos s" and cnt: "0 \<le> cnt"
    and c: "c = min cnt (sd_quantum (io_dev s) - io_pos s mod sd_quantum (io_dev s))"
    and wb: "write_blocks K buf c s nds ret s' nds'"
  shows "write_outcome K buf cnt s ret s'"
proof -
  define q n pos1 where "q = sd_quantum (io_dev s)" and "n = sd_qset (io_dev s)" and "pos1 = io_pos s"
  define before after where "before = block_at (io_heap s) nds n" and "after = block_at (io_heap s') nds' n"
  have gb: "0 < q" "0 < n" using ok by (auto simp: scull_ok_def geom_ok_def q_def n_def)
  have o: "0 \<le> pos1 mod q" "pos1 mod q < q" using gb by simp_all
  have cb: "0 \<le> c" "pos1 mod q + c \<le> q" using c cnt o by (auto simp: q_def pos1_def)
  have bf: "scull_peek (io_heap s) (io_dev s) p = map_option (\<lambda>bs. bs ! nat (p mod q)) (before (p div q))" for p
    using scull_ok_peek [OF ok] by (simp add: before_def q_def n_def)
  have af: "scull_peek (io_heap s') (io_dev s') p = map_option (\<lambda>bs. bs ! nat (p mod q)) (after (p div q))" for p
    using scull_ok_peek [OF ok'] dev by (simp add: after_def q_def n_def)
  have dv: "0 \<le> p \<Longrightarrow> 0 \<le> p div q" for p using gb by (simp add: pos_imp_zdiv_nonneg_iff)
  note fold = q_def [symmetric] n_def [symmetric] pos1_def [symmetric] before_def [symmetric] after_def [symmetric]
  show ?thesis
  proof (cases "ret = - ENOMEM \<and> io_pos s' = pos1 \<and> sd_size (io_dev s') = sd_size (io_dev s) \<and> (\<forall>b\<ge>0. after b = before b)")
    case True
    then show ?thesis by (simp add: write_outcome_def Let_def bf af dv fold)
  next
    case False
    with wb obtain j new where new: "length new = nat c"
      and upd: "\<And>b. 0 \<le> b \<Longrightarrow> after b = (if b = pos1 div q
            then Some (buf_write (old_block K j q (before b)) (nat (pos1 mod q)) new) else before b)"
      and res: "ret = c \<and> new = um_read (io_user s) buf (nat c) \<and> io_pos s' = pos1 + c \<and>
            sd_size (io_dev s') = max (sd_size (io_dev s)) (pos1 + c) \<or>
          ret = - EFAULT \<and> \<not> user_ok K buf (nat c) \<and> io_pos s' = pos1 \<and> sd_size (io_dev s') = sd_size (io_dev s)"
      unfolding write_blocks_def Let_def fold by blast
    have ol: "int (length (old_block K j q (before b))) = q" for b
      using block_at_length [OF scull_ok_nodes [OF ok]] gb
      by (auto simp: old_block_def before_def q_def n_def split: option.split)
    have inside: "p div q = pos1 div q" if "p \<in> {pos1..<pos1 + c}" for p
      using same_block(1) [of q "p - pos1" pos1] that cb gb by simp
    have byte: "scull_peek (io_heap s') (io_dev s') p =
        (if p \<in> {pos1..<pos1 + c} then Some (new ! nat (p - pos1))
         else if p div q = pos1 div q then Some (old_block K j q (before (p div q)) ! nat (p mod q))
         else scull_peek (io_heap s) (io_dev s) p)" if "0 \<le> p" for p
    proof (cases "p div q = pos1 div q")
      case True
      have "after (p div q) = Some (buf_write (old_block K j q (before (p div q))) (nat (pos1 mod q)) new)"
        using upd [OF dv [OF that]] True by simp
      then show ?thesis
        using buf_write_byte [OF ol gb(1) new cb True] True by (simp add: af)
    next
      case False
      then have "p \<notin> {pos1..<pos1 + c}" using inside by blast
      then show ?thesis using False by (auto simp: af bf upd [OF dv [OF that]])
    qed
    have keep: "\<forall>p\<ge>0. p \<notin> {pos1..<pos1 + c} \<longrightarrow> scull_peek (io_heap s) (io_dev s) p \<noteq> None \<longrightarrow>
        scull_peek (io_heap s') (io_dev s') p = scull_peek (io_heap s) (io_dev s) p"
    proof (intro allI impI)
      fix p assume p: "0 \<le> p" "p \<notin> {pos1..<pos1 + c}" "scull_peek (io_heap s) (io_dev s) p \<noteq> None"
      obtain bs where "before (p div q) = Some bs" using p(3) bf [of p] by auto
      then show "scull_peek (io_heap s') (io_dev s') p = scull_peek (io_heap s) (io_dev s) p"
        unfolding byte [OF p(1)] using p(2) bf [of p] by (auto simp: old_block_def)
    qed
    have fresh: "\<forall>p\<ge>0. scull_peek (io_heap s) (io_dev s) p = None \<longrightarrow>
        scull_peek (io_heap s') (io_dev s') p \<noteq> None \<longrightarrow> p div q = pos1 div q"
    proof (intro allI impI)
      fix p assume p: "0 \<le> p" "scull_peek (io_heap s) (io_dev s) p = None"
        "scull_peek (io_heap s') (io_dev s') p \<noteq> None"
      then show "p div q = pos1 div q" using byte [OF p(1)] inside [of p] by (metis (no_types))
    qed
    have cn: "min cnt (q - pos1 mod q) = c" using c by (simp add: q_def pos1_def)
    from res show ?thesis
    proof (elim disjE)
      assume r: "ret = c \<and> new = um_read (io_user s) buf (nat c) \<and> io_pos s' = pos1 + c \<and>
            sd_size (io_dev s') = max (sd_size (io_dev s)) (pos1 + c)"
      have "\<forall>p \<in> {pos1..<pos1 + c}. scull_peek (io_heap s') (io_dev s') p = Some (io_user s (buf + (p - pos1)))"
        using byte r pos by (auto simp: pos1_def)
      then show ?thesis
        unfolding write_outcome_def Let_def fold cn using r keep fresh by blast
    next
      assume r: "ret = - EFAULT \<and> \<not> user_ok K buf (nat c) \<and> io_pos s' = pos1 \<and> sd_size (io_dev s') = sd_size (io_dev s)"
      then show ?thesis
        unfolding write_outcome_def Let_def fold cn using keep by blast
    qed
  qed
qed

section \<open>The semaphore around the operations\<close>

text \<open>
  \<open>scull_read\<close> and \<open>scull_write\<close> are a body between \<open>down_interruptible\<close> and \<open>up\<close>. What the
  bracket guarantees needs one law of the body: it leaves the semaphore alone.
\<close>

definition sem_bracket :: "(scull_io \<Rightarrow> (int \<times> scull_io) res) \<Rightarrow> bool \<Rightarrow> scull_io \<Rightarrow> (int \<times> scull_io) res" where
  "sem_bracket body intr s =
     kbind (down_interruptible intr (io_dev s)) (\<lambda>(r, dev).
     if r \<noteq> 0 then Inr (- ERESTARTSYS, s)
     else kbind (body (s\<lparr>io_dev := dev\<rparr>)) (\<lambda>(ret, s').
       Inr (ret, s'\<lparr>io_dev := up (io_dev s')\<rparr>)))"

lemma scull_read_bracket:
  "scull_read K intr buf cnt s =
     sem_bracket (scull_read_locked K (sd_quantum (io_dev s)) (sd_qset (io_dev s)) buf cnt) intr s"
  by (simp add: scull_read_def sem_bracket_def Let_def)

lemma scull_write_bracket:
  "scull_write K intr buf cnt s =
     sem_bracket (scull_write_locked K (sd_quantum (io_dev s)) (sd_qset (io_dev s)) buf cnt) intr s"
  by (simp add: scull_write_def sem_bracket_def Let_def)

locale sem_section =
  fixes body :: "scull_io \<Rightarrow> (int \<times> scull_io) res"
  assumes body_sem: "body s = Inr (ret, s') \<Longrightarrow> sd_sem (io_dev s') = sd_sem (io_dev s)"
begin

lemma interrupted: "sem_bracket body True s = Inr (- ERESTARTSYS, s)"
  by (simp add: sem_bracket_def down_interruptible_def)

lemma held_blocks: "sd_sem (io_dev s) = 0 \<Longrightarrow> sem_bracket body False s = Inl Blocked"
  by (simp add: sem_bracket_def down_interruptible_def)

lemma free_enters:
  "sd_sem (io_dev s) = Suc c \<Longrightarrow> sem_bracket body False s =
     kbind (body (s\<lparr>io_dev := (io_dev s)\<lparr>sd_sem := c\<rparr>\<rparr>)) (\<lambda>(ret, s').
       Inr (ret, s'\<lparr>io_dev := (io_dev s')\<lparr>sd_sem := Suc c\<rparr>\<rparr>))"
  by (cases "body (s\<lparr>io_dev := (io_dev s)\<lparr>sd_sem := c\<rparr>\<rparr>)")
    (auto simp: sem_bracket_def down_interruptible_def up_def dest: body_sem)

lemma balanced:
  "sem_bracket body intr s = Inr (ret, s') \<Longrightarrow> sd_sem (io_dev s') = sd_sem (io_dev s)"
  by (auto simp: sem_bracket_def down_interruptible_def up_def kbind_Inr_iff
      split: if_splits nat.splits prod.splits dest: body_sem)

end

lemma scull_follow_sem: "scull_follow K h dev n = Inr (r, h', dev') \<Longrightarrow> sd_sem dev' = sd_sem dev"
  by (auto simp: scull_follow_def Let_def kbind_Inr_iff split: if_splits)

lemma scull_read_locked_sem:
  "scull_read_locked K q n buf cnt s = Inr (ret, s') \<Longrightarrow> sd_sem (io_dev s') = sd_sem (io_dev s)"
  by (auto simp: scull_read_locked_def Let_def kbind_Inr_iff split: if_splits dest: scull_follow_sem)

lemma scull_write_locked_sem:
  "scull_write_locked K q n buf cnt s = Inr (ret, s') \<Longrightarrow> sd_sem (io_dev s') = sd_sem (io_dev s)"
  by (auto simp: scull_write_locked_def Let_def kbind_Inr_iff split: if_splits dest: scull_follow_sem)

interpretation rd: sem_section "scull_read_locked K q n buf cnt" for K q n buf cnt
  by unfold_locales (rule scull_read_locked_sem)

interpretation wr: sem_section "scull_write_locked K q n buf cnt" for K q n buf cnt
  by unfold_locales (rule scull_write_locked_sem)

text \<open>The semaphore count plays no part in what a device holds.\<close>

lemma sem_irrelevant [simp]:
  "scull_ok h (dev\<lparr>sd_sem := c\<rparr>) nds = scull_ok h dev nds"
  "scull_peek h (dev\<lparr>sd_sem := c\<rparr>) = scull_peek h dev"
  by (simp_all add: scull_ok_def scull_rep_def scull_peek_def fun_eq_iff)

lemma write_outcome_sem:
  "write_outcome K buf cnt (s\<lparr>io_dev := (io_dev s)\<lparr>sd_sem := c\<rparr>\<rparr>) ret s' \<longleftrightarrow> write_outcome K buf cnt s ret s'"
  "write_outcome K buf cnt s ret (s'\<lparr>io_dev := (io_dev s')\<lparr>sd_sem := c\<rparr>\<rparr>) \<longleftrightarrow> write_outcome K buf cnt s ret s'"
  by (simp_all add: write_outcome_def Let_def)

section \<open>Whole calls\<close>

lemma write_frame_sem:
  assumes "write_frame (s\<lparr>io_dev := (io_dev s)\<lparr>sd_sem := c\<rparr>\<rparr>) nds s' nds'"
  shows "write_frame s nds (s'\<lparr>io_dev := (io_dev s')\<lparr>sd_sem := sd_sem (io_dev s)\<rparr>\<rparr>) nds'"
  using assms by (cases "io_dev s") (auto simp: write_frame_def)

lemma scull_write_runs:
  assumes K: "kmalloc_ok K" "copy_from_ok K"
    and ok: "scull_ok (io_heap s) (io_dev s) nds" and sem: "sd_sem (io_dev s) = Suc c"
    and pos: "pos_ok (sd_quantum (io_dev s)) (sd_qset (io_dev s)) (io_pos s)"
    and cnt: "0 \<le> cnt" "io_pos s + cnt < 2 ^ 63"
  shows "\<exists>ret s' nds'. scull_write K False buf cnt s = Inr (ret, s') \<and>
    write_frame s nds s' nds' \<and> write_outcome K buf cnt s ret s'"
proof -
  let ?q = "sd_quantum (io_dev s)" and ?n = "sd_qset (io_dev s)"
  let ?t = "s\<lparr>io_dev := (io_dev s)\<lparr>sd_sem := c\<rparr>\<rparr>" and ?c = "min cnt (?q - io_pos s mod ?q)"
  obtain ret s' nds' where call: "scull_write_locked K ?q ?n buf cnt ?t = Inr (ret, s')"
    and fr: "write_frame ?t nds s' nds'" and wb: "write_blocks K buf ?c ?t nds ret s' nds'"
    using scull_write_locked_spec [OF K, of ?t nds ?q ?n cnt ?c buf] ok pos cnt by auto
  have dev: "\<exists>a z. io_dev s' = (io_dev ?t)\<lparr>sd_data := a, sd_size := z\<rparr>"
    "scull_ok (io_heap s') (io_dev s') nds'"
    using fr by (simp_all add: write_frame_def)
  have "write_outcome K buf cnt ?t ret s'"
    by (rule write_blocks_outcome [OF _ dev(2) _ _ _ cnt(1) _ wb])
      (use dev(1) ok pos in \<open>auto simp: pos_ok_def\<close>)
  then have "write_outcome K buf cnt s ret s'"
    by (simp add: write_outcome_sem)
  then show ?thesis
    using wr.free_enters [OF sem, of K ?q ?n buf cnt] call write_frame_sem [OF fr] sem
    by (auto simp: scull_write_bracket write_outcome_sem)
qed

text \<open>A write runs out of memory only if the allocator refused.\<close>

lemma scull_write_refused:
  assumes call: "scull_write K False buf cnt s = Inr (- ENOMEM, s')"
    and ok: "scull_ok (io_heap s) (io_dev s) nds" and sem: "sd_sem (io_dev s) = Suc c"
    and pos: "pos_ok (sd_quantum (io_dev s)) (sd_qset (io_dev s)) (io_pos s)"
    and cnt: "0 \<le> cnt" "cnt < 2 ^ 63"
  shows "refused K (io_heap s) (nat (io_pos s div (sd_quantum (io_dev s) * sd_qset (io_dev s))) + 2)"
proof -
  let ?q = "sd_quantum (io_dev s)" and ?n = "sd_qset (io_dev s)"
  let ?t = "s\<lparr>io_dev := (io_dev s)\<lparr>sd_sem := c\<rparr>\<rparr>"
  have g: "geom_ok ?q ?n" using ok by (simp add: scull_ok_def)
  note gb = geom_bounds [OF g]
  obtain s1 where "scull_write_locked K ?q ?n buf cnt ?t = Inr (- ENOMEM, s1)"
    using call wr.free_enters [OF sem, of K ?q ?n buf cnt] by (auto simp: scull_write_bracket kbind_Inr_iff)
  moreover have "io_pos s div ?q div ?n = io_pos s div (?q * ?n)" using gb by (simp add: zdiv_zmult2_eq)
  moreover have "scull_locate ?q ?n (io_pos ?t) = Inr (io_pos s div ?q div ?n, io_pos s div ?q mod ?n, io_pos s mod ?q)"
    using scull_locate_ok [OF g pos] by simp
  ultimately show ?thesis
    using scull_write_locked_memory [of K ?q ?n buf cnt ?t s1] cnt pos gb
    by (simp add: pos_ok_def pos_imp_zdiv_nonneg_iff)
qed

text \<open>C1: \<open>scull_write\<close>, called when the semaphore is free, returns; it leaves a well-formed
  device and every object outside the device unchanged; it releases the semaphore, and the
  outcome is one of three: out of memory and no byte changed (the allocator then did refuse,
  with at most two objects more than the list has items up to the position taken since the
  start of the call), a fault of the user buffer and only bytes of the written range changed, or \<open>min cnt (room left in the quantum)\<close> bytes of
  user memory stored at the position, the position advanced and the size raised to cover it.\<close>

theorem scull_write_correct:
  assumes "kmalloc_ok K" "copy_from_ok K"
    and "scull_ok (io_heap s) (io_dev s) nds" "sd_sem (io_dev s) = Suc c"
    and "pos_ok (sd_quantum (io_dev s)) (sd_qset (io_dev s)) (io_pos s)"
    and "0 \<le> cnt" "io_pos s + cnt < 2 ^ 63"
  shows "\<exists>ret s' nds'. scull_write K False buf cnt s = Inr (ret, s') \<and>
    scull_ok (io_heap s') (io_dev s') nds' \<and> io_user s' = io_user s \<and>
    keeps_others (io_heap s) (set (owned nds)) (io_heap s') \<and>
    (\<exists>a z. io_dev s' = (io_dev s)\<lparr>sd_data := a, sd_size := z\<rparr>) \<and>
    write_outcome K buf cnt s ret s' \<and>
    (ret = - ENOMEM \<longrightarrow>
      refused K (io_heap s) (nat (io_pos s div (sd_quantum (io_dev s) * sd_qset (io_dev s))) + 2))"
proof -
  obtain ret s' nds' where run: "scull_write K False buf cnt s = Inr (ret, s')" "write_frame s nds s' nds'"
      "write_outcome K buf cnt s ret s'"
    using scull_write_runs [OF assms] by blast
  have "cnt < 2 ^ 63" using assms(5,7) by (simp add: pos_ok_def)
  then have "ret = - ENOMEM \<longrightarrow>
      refused K (io_heap s) (nat (io_pos s div (sd_quantum (io_dev s) * sd_qset (io_dev s))) + 2)"
    using scull_write_refused [OF _ assms(3,4,5,6)] run(1) by blast
  then show ?thesis using run unfolding write_frame_def by blast
qed

text \<open>A fresh device on a concrete kernel: two bytes per quantum, two quanta per item.\<close>

definition demo_dev :: scull_dev where
  "demo_dev = \<lparr>sd_data = NULL, sd_quantum = 4, sd_qset = 2, sd_size = 0, sd_access_key = 0, sd_sem = 1\<rparr>"

definition demo_io :: "int \<Rightarrow> scull_io" where
  "demo_io pos = \<lparr>io_heap = Map.empty, io_dev = demo_dev, io_user = (\<lambda>a. word_of_int a), io_pos = pos\<rparr>"

abbreviation (input) demo_api :: kapi where
  "demo_api \<equiv> sample_api (map word_of_int [16, 32, 48, 64, 80, 96, 112, 128]) 1000 True"

lemma demo_ok:
  "scull_ok (io_heap (demo_io pos)) (io_dev (demo_io pos)) []"
  "sd_sem (io_dev (demo_io pos)) = Suc 0"
  "0 \<le> pos \<Longrightarrow> pos < 1000 \<Longrightarrow>
   pos_ok (sd_quantum (io_dev (demo_io pos))) (sd_qset (io_dev (demo_io pos))) (io_pos (demo_io pos))"
  by (simp_all add: scull_ok_def geom_ok_def scull_rep_def nodes_def demo_io_def demo_dev_def pos_ok_def)

lemma scull_write_correct_witness:
  "\<exists>ret s' nds'. scull_write demo_api False 100 3 (demo_io 9) = Inr (ret, s') \<and>
    scull_ok (io_heap s') (io_dev s') nds' \<and> io_user s' = io_user (demo_io 9) \<and>
    keeps_others (io_heap (demo_io 9)) (set (owned [])) (io_heap s') \<and>
    (\<exists>a z. io_dev s' = (io_dev (demo_io 9))\<lparr>sd_data := a, sd_size := z\<rparr>) \<and>
    write_outcome demo_api 100 3 (demo_io 9) ret s' \<and>
    (ret = - ENOMEM \<longrightarrow> refused demo_api (io_heap (demo_io 9))
      (nat (io_pos (demo_io 9) div (sd_quantum (io_dev (demo_io 9)) * sd_qset (io_dev (demo_io 9)))) + 2))"
  by (rule scull_write_correct [OF sample_kmalloc_ok sample_copy_from_ok demo_ok(1,2) demo_ok(3)])
    (simp_all add: demo_io_def)

section \<open>Reading\<close>

lemma read_keeps_sem:
  assumes "read_keeps (s\<lparr>io_dev := (io_dev s)\<lparr>sd_sem := c\<rparr>\<rparr>) nds s'"
  shows "read_keeps s nds (s'\<lparr>io_dev := (io_dev s')\<lparr>sd_sem := sd_sem (io_dev s)\<rparr>\<rparr>)"
proof -
  obtain a new where d: "io_dev s' = (io_dev s)\<lparr>sd_sem := c, sd_data := a\<rparr>"
    and ok: "scull_ok (io_heap s') (io_dev s') (nds @ blanks new)" "new = [] \<longrightarrow> io_heap s' = io_heap s"
    using assms by (auto simp: read_keeps_def)
  have e: "(io_dev s')\<lparr>sd_sem := sd_sem (io_dev s)\<rparr> = (io_dev s)\<lparr>sd_data := a\<rparr>"
    by (simp add: d)
  have "scull_ok (io_heap s') ((io_dev s)\<lparr>sd_data := a\<rparr>) (nds @ blanks new)"
    using ok(1) unfolding e [symmetric] by simp
  moreover have "scull_peek (io_heap s') ((io_dev s)\<lparr>sd_data := a\<rparr>) = scull_peek (io_heap s') (io_dev s')"
    unfolding e [symmetric] by simp
  ultimately show ?thesis
    using assms ok(2) unfolding read_keeps_def by (auto simp: e)
qed

lemma read_outcome_sem:
  "read_outcome K buf bs (s\<lparr>io_dev := d\<rparr>) ret s' \<longleftrightarrow> read_outcome K buf bs s ret s'"
  "read_outcome K buf bs s ret (s'\<lparr>io_dev := d\<rparr>) \<longleftrightarrow> read_outcome K buf bs s ret s'"
  by (simp_all add: read_outcome_def)

definition dev_bytes :: "scull_io \<Rightarrow> int \<Rightarrow> byte list" where
  "dev_bytes s cnt = scull_read_bytes (scull_peek (io_heap s) (io_dev s)) (sd_size (io_dev s))
     (sd_quantum (io_dev s)) (io_pos s) cnt"

lemma scull_read_runs:
  assumes K: "kmalloc_ok K" "copy_to_ok K"
    and ok: "scull_ok (io_heap s) (io_dev s) nds" and sem: "sd_sem (io_dev s) = Suc c"
    and pos: "pos_ok (sd_quantum (io_dev s)) (sd_qset (io_dev s)) (io_pos s)"
    and cnt: "0 \<le> cnt" "cnt < 2 ^ 63"
  shows "\<exists>ret s'. scull_read K False buf cnt s = Inr (ret, s') \<and> read_keeps s nds s' \<and>
    read_outcome K buf (dev_bytes s cnt) s ret s'"
proof -
  let ?q = "sd_quantum (io_dev s)" and ?n = "sd_qset (io_dev s)"
  let ?t = "s\<lparr>io_dev := (io_dev s)\<lparr>sd_sem := c\<rparr>\<rparr>"
  obtain ret s' where call: "scull_read_locked K ?q ?n buf cnt ?t = Inr (ret, s')"
    and rk: "read_keeps ?t nds s'" and ro: "read_outcome K buf (dev_bytes ?t cnt) ?t ret s'"
    using scull_read_locked_spec [OF K, of ?t nds ?q ?n cnt buf] ok pos cnt by (auto simp: dev_bytes_def)
  have "dev_bytes ?t cnt = dev_bytes s cnt"
    by (simp add: dev_bytes_def)
  then show ?thesis
    using rd.free_enters [OF sem, of K ?q ?n buf cnt] call read_keeps_sem [OF rk] sem ro
    by (auto simp: scull_read_bracket read_outcome_sem)
qed

text \<open>C2: \<open>scull_read\<close>, called when the semaphore is free, returns and releases it. It delivers
  exactly the bytes the device holds from the position on, up to the end of the file and of
  the quantum (none at the end or in a hole), and advances the position by as many; or the
  user buffer faults and the position stays. No byte of the device and no object outside it
  changes, whichever way it ends.\<close>

theorem scull_read_correct:
  assumes "kmalloc_ok K" "copy_to_ok K"
    and "scull_ok (io_heap s) (io_dev s) nds" "sd_sem (io_dev s) = Suc c"
    and "pos_ok (sd_quantum (io_dev s)) (sd_qset (io_dev s)) (io_pos s)"
    and "0 \<le> cnt" "cnt < 2 ^ 63"
  shows "\<exists>ret s'. scull_read K False buf cnt s = Inr (ret, s') \<and>
    sd_sem (io_dev s') = sd_sem (io_dev s) \<and> sd_size (io_dev s') = sd_size (io_dev s) \<and>
    (\<forall>p. scull_peek (io_heap s') (io_dev s') p = scull_peek (io_heap s) (io_dev s) p) \<and>
    keeps_others (io_heap s) (set (owned nds)) (io_heap s') \<and>
    (ret = int (length (dev_bytes s cnt)) \<and> io_pos s' = io_pos s + ret \<and>
       io_user s' = um_write (io_user s) buf (dev_bytes s cnt) \<or>
     ret = - EFAULT \<and> io_pos s' = io_pos s \<and> \<not> user_ok K buf (length (dev_bytes s cnt)))"
proof -
  obtain ret s' where "scull_read K False buf cnt s = Inr (ret, s')" "read_keeps s nds s'"
      "read_outcome K buf (dev_bytes s cnt) s ret s'"
    using scull_read_runs [OF assms] by blast
  then show ?thesis unfolding read_keeps_def read_outcome_def by auto
qed

lemma scull_read_correct_witness:
  "\<exists>ret s'. scull_read demo_api False 100 3 (demo_io 9) = Inr (ret, s') \<and>
    sd_sem (io_dev s') = sd_sem (io_dev (demo_io 9)) \<and> sd_size (io_dev s') = sd_size (io_dev (demo_io 9)) \<and>
    (\<forall>p. scull_peek (io_heap s') (io_dev s') p = scull_peek (io_heap (demo_io 9)) (io_dev (demo_io 9)) p) \<and>
    keeps_others (io_heap (demo_io 9)) (set (owned [])) (io_heap s') \<and>
    (ret = int (length (dev_bytes (demo_io 9) 3)) \<and> io_pos s' = io_pos (demo_io 9) + ret \<and>
       io_user s' = um_write (io_user (demo_io 9)) 100 (dev_bytes (demo_io 9) 3) \<or>
     ret = - EFAULT \<and> io_pos s' = io_pos (demo_io 9) \<and>
       \<not> user_ok demo_api 100 (length (dev_bytes (demo_io 9) 3)))"
  by (rule scull_read_correct [OF sample_kmalloc_ok sample_copy_to_ok demo_ok(1,2) demo_ok(3)]) simp_all

text \<open>C3: Write, seek back, read: when a write of \<open>cnt\<close> bytes stores \<open>n > 0\<close> bytes, a read of
  \<open>cnt\<close> bytes at the old position into a good buffer returns \<open>n\<close> and delivers exactly the
  bytes the writer passed.\<close>

theorem scull_read_back:
  assumes K: "kmalloc_ok K" "copy_to_ok K" "copy_from_ok K"
    and ok: "scull_ok (io_heap s) (io_dev s) nds" "sd_sem (io_dev s) = Suc c"
    and pos: "pos_ok (sd_quantum (io_dev s)) (sd_qset (io_dev s)) (io_pos s)"
    and cnt: "0 \<le> cnt" "io_pos s + cnt < 2 ^ 63"
    and wrt: "scull_write K False buf cnt s = Inr (n, s1)" "0 < n" and buf2: "user_ok K buf2 (nat n)"
  shows "\<exists>s2. scull_read K False buf2 cnt (s1\<lparr>io_pos := io_pos s\<rparr>) = Inr (n, s2) \<and>
    io_user s2 = um_write (io_user s) buf2 (um_read (io_user s) buf (nat n)) \<and> io_pos s2 = io_pos s1"
proof -
  let ?q = "sd_quantum (io_dev s)" and ?t = "s1\<lparr>io_pos := io_pos s\<rparr>"
  let ?room = "?q - io_pos s mod ?q"
  obtain nds1 where fr: "write_frame s nds s1 nds1" and out: "write_outcome K buf cnt s n s1"
    using scull_write_runs [OF K(1,3) ok pos cnt, of buf] wrt by auto
  have dev: "sd_quantum (io_dev s1) = ?q" "sd_qset (io_dev s1) = sd_qset (io_dev s)"
    "sd_sem (io_dev s1) = Suc c" "io_user s1 = io_user s" "scull_ok (io_heap s1) (io_dev s1) nds1"
    using fr ok(2) by (auto simp: write_frame_def)
  have nv: "n = min cnt ?room" and ps: "io_pos s1 = io_pos s + n"
    and sz: "sd_size (io_dev s1) = max (sd_size (io_dev s)) (io_pos s + n)"
    and bt: "\<And>p. p \<in> {io_pos s..<io_pos s + n} \<Longrightarrow>
      scull_peek (io_heap s1) (io_dev s1) p = Some (io_user s (buf + (p - io_pos s)))"
    using out wrt(2) by (auto simp: write_outcome_def Let_def)
  have "min cnt (min (sd_size (io_dev s1) - io_pos s) ?room) = n"
    using nv sz by (simp add: min_def max_def)
  then have bytes: "dev_bytes ?t cnt = um_read (io_user s) buf (nat n)"
    using bt wrt(2) sz dev(1)
    by (auto simp: dev_bytes_def scull_read_bytes_def um_read_def)
  obtain ret s2 where "scull_read K False buf2 cnt ?t = Inr (ret, s2)"
      and ro: "read_outcome K buf2 (dev_bytes ?t cnt) ?t ret s2"
    using scull_read_runs [OF K(1,2), of ?t nds1 c cnt buf2] dev pos cnt by (auto simp: pos_ok_def)
  moreover have "ret = n" "io_user s2 = um_write (io_user s) buf2 (um_read (io_user s) buf (nat n))"
      "io_pos s2 = io_pos s1"
    using ro buf2 wrt(2) dev(4) ps by (auto simp: read_outcome_def bytes)
  ultimately show ?thesis by blast
qed

lemma demo_write:
  obtains s1 where "scull_write demo_api False 100 3 (demo_io 9) = Inr (3, s1)"
proof -
  have "case scull_write demo_api False 100 3 (demo_io 9) of Inr (n, s1) \<Rightarrow> n = 3 | Inl _ \<Rightarrow> False"
    by code_simp
  then show ?thesis using that by (auto split: sum.splits)
qed

lemma demo_written:
  obtains s1 nds where "scull_write demo_api False 100 3 (demo_io 9) = Inr (3, s1)"
    "scull_ok (io_heap s1) (io_dev s1) nds" "write_outcome demo_api 100 3 (demo_io 9) 3 s1"
proof -
  obtain s1 where w: "scull_write demo_api False 100 3 (demo_io 9) = Inr (3, s1)"
    by (rule demo_write)
  have "\<exists>ret s' nds'. scull_write demo_api False 100 3 (demo_io 9) = Inr (ret, s') \<and>
      write_frame (demo_io 9) [] s' nds' \<and> write_outcome demo_api 100 3 (demo_io 9) ret s'"
    by (rule scull_write_runs [OF sample_kmalloc_ok sample_copy_from_ok demo_ok(1,2) demo_ok(3)])
      (simp_all add: demo_io_def)
  then show ?thesis using w that unfolding write_frame_def by force
qed

lemma demo_user_ok: "user_ok demo_api 500 3" "\<not> user_ok demo_api 999 3"
  by (simp_all add: sample_api_def)

lemma scull_read_back_witness:
  "\<exists>s1 s2. scull_write demo_api False 100 3 (demo_io 9) = Inr (3, s1) \<and>
    scull_read demo_api False 500 3 (s1\<lparr>io_pos := io_pos (demo_io 9)\<rparr>) = Inr (3, s2) \<and>
    io_user s2 = um_write (io_user (demo_io 9)) 500 (um_read (io_user (demo_io 9)) 100 (nat 3)) \<and>
    io_pos s2 = io_pos s1"
proof -
  obtain s1 where w: "scull_write demo_api False 100 3 (demo_io 9) = Inr (3, s1)"
    by (rule demo_write)
  show ?thesis
    using scull_read_back [OF sample_kmalloc_ok sample_copy_to_ok sample_copy_from_ok demo_ok(1,2)
        demo_ok(3) _ _ w, of 500] w demo_user_ok by (auto simp: demo_io_def)
qed

section \<open>What a fresh quantum holds\<close>

lemma write_blocks_sem:
  "write_blocks K buf n (s\<lparr>io_dev := (io_dev s)\<lparr>sd_sem := c\<rparr>\<rparr>) nds ret s' nds' \<longleftrightarrow>
     write_blocks K buf n s nds ret s' nds'"
  "write_blocks K buf n s nds ret (s'\<lparr>io_dev := (io_dev s')\<lparr>sd_sem := c\<rparr>\<rparr>) nds' \<longleftrightarrow>
     write_blocks K buf n s nds ret s' nds'"
  by (simp_all add: write_blocks_def Let_def)

lemma scull_write_blocks:
  assumes K: "kmalloc_ok K" "copy_from_ok K"
    and ok: "scull_ok (io_heap s) (io_dev s) nds" and sem: "sd_sem (io_dev s) = Suc c"
    and pos: "pos_ok (sd_quantum (io_dev s)) (sd_qset (io_dev s)) (io_pos s)"
    and cnt: "0 \<le> cnt" "io_pos s + cnt < 2 ^ 63"
    and wrt: "scull_write K False buf cnt s = Inr (n, s1)"
  obtains nds1 where "scull_ok (io_heap s1) (io_dev s1) nds1" "sd_quantum (io_dev s1) = sd_quantum (io_dev s)"
    "sd_qset (io_dev s1) = sd_qset (io_dev s)"
    "write_blocks K buf (min cnt (sd_quantum (io_dev s) - io_pos s mod sd_quantum (io_dev s))) s nds n s1 nds1"
proof -
  let ?q = "sd_quantum (io_dev s)" and ?n = "sd_qset (io_dev s)"
  let ?t = "s\<lparr>io_dev := (io_dev s)\<lparr>sd_sem := c\<rparr>\<rparr>" and ?c = "min cnt (?q - io_pos s mod ?q)"
  obtain ret s' nds' where call: "scull_write_locked K ?q ?n buf cnt ?t = Inr (ret, s')"
    and fr: "write_frame ?t nds s' nds'" and wb: "write_blocks K buf ?c ?t nds ret s' nds'"
    using scull_write_locked_spec [OF K, of ?t nds ?q ?n cnt ?c buf] ok pos cnt by auto
  have e: "ret = n" "s1 = s'\<lparr>io_dev := (io_dev s')\<lparr>sd_sem := Suc c\<rparr>\<rparr>"
    using wrt wr.free_enters [OF sem, of K ?q ?n buf cnt] call by (auto simp: scull_write_bracket)
  show ?thesis
  proof (rule that [of nds'])
    show "write_blocks K buf ?c s nds n s1 nds'"
      using wb unfolding e by (simp add: write_blocks_sem)
  qed (use fr in \<open>auto simp: e write_frame_def\<close>)
qed

text \<open>C31: A write into a hole allocates a quantum and does not clear it: when the block of the
  position was not allocated and the write stores \<open>n > 0\<close> bytes, every other byte of the block
  holds what the allocator left there, and a later read inside the file size delivers it.\<close>

theorem scull_write_leaves_stale:
  assumes "kmalloc_ok K" "copy_from_ok K"
    and "scull_ok (io_heap s) (io_dev s) nds" "sd_sem (io_dev s) = Suc c"
    and "pos_ok (sd_quantum (io_dev s)) (sd_qset (io_dev s)) (io_pos s)"
    and "0 \<le> cnt" "io_pos s + cnt < 2 ^ 63"
    and "scull_write K False buf cnt s = Inr (n, s1)" "0 < n"
    and "scull_peek (io_heap s) (io_dev s) (io_pos s) = None"
  shows "\<exists>j. \<forall>p\<ge>0. p div sd_quantum (io_dev s) = io_pos s div sd_quantum (io_dev s) \<longrightarrow>
    p \<notin> {io_pos s..<io_pos s + n} \<longrightarrow>
    scull_peek (io_heap s1) (io_dev s1) p = Some (kmalloc_byte K j (nat (p mod sd_quantum (io_dev s))))"
proof -
  define q pos where "q = sd_quantum (io_dev s)" and "pos = io_pos s"
  have g: "geom_ok q (sd_qset (io_dev s))" using assms(3) by (simp add: scull_ok_def q_def)
  note gb = geom_bounds [OF g]
  obtain nds1 where ok1: "scull_ok (io_heap s1) (io_dev s1) nds1"
    and geo: "sd_quantum (io_dev s1) = q" "sd_qset (io_dev s1) = sd_qset (io_dev s)"
    and wb: "write_blocks K buf (min cnt (q - pos mod q)) s nds n s1 nds1"
    using scull_write_blocks [OF assms(1-8)] unfolding q_def pos_def by blast
  have hole: "block_at (io_heap s) nds (sd_qset (io_dev s)) (pos div q) = None"
    using assms(10) scull_ok_peek [OF assms(3)] by (simp add: q_def pos_def)
  have blk: "0 \<le> pos div q"
    using assms(5) gb by (simp add: pos_ok_def pos_def pos_imp_zdiv_nonneg_iff)
  have n: "n = min cnt (q - pos mod q)"
    using wb assms(9) by (auto simp: write_blocks_def Let_def q_def pos_def)
  have "\<exists>j new. length new = nat n \<and>
      (\<forall>b\<ge>0. block_at (io_heap s1) nds1 (sd_qset (io_dev s)) b = (if b = pos div q
            then Some (buf_write (old_block K j q (block_at (io_heap s) nds (sd_qset (io_dev s)) b))
              (nat (pos mod q)) new) else block_at (io_heap s) nds (sd_qset (io_dev s)) b))"
    using wb unfolding n [symmetric] write_blocks_def Let_def q_def [symmetric] pos_def [symmetric]
    by (rule disjE) (use assms(9) in simp, blast)
  then obtain j new where new: "length new = nat n"
    and upd: "\<forall>b\<ge>0. block_at (io_heap s1) nds1 (sd_qset (io_dev s)) b = (if b = pos div q
            then Some (buf_write (old_block K j q (block_at (io_heap s) nds (sd_qset (io_dev s)) b))
              (nat (pos mod q)) new) else block_at (io_heap s) nds (sd_qset (io_dev s)) b)"
    by blast
  have aft: "block_at (io_heap s1) nds1 (sd_qset (io_dev s)) (pos div q) =
      Some (buf_write (map (kmalloc_byte K j) [0..<nat q]) (nat (pos mod q)) new)"
    using upd blk hole by (simp add: old_block_def)
  show ?thesis
  proof (intro exI allI impI)
    fix p assume p: "0 \<le> p" "p div sd_quantum (io_dev s) = io_pos s div sd_quantum (io_dev s)"
      "p \<notin> {io_pos s..<io_pos s + n}"
    then have pq: "p div q = pos div q" "p \<notin> {pos..<pos + n}" by (simp_all add: q_def pos_def)
    have "buf_write (map (kmalloc_byte K j) [0..<nat q]) (nat (pos mod q)) new ! nat (p mod q) =
        kmalloc_byte K j (nat (p mod q))"
      using buf_write_byte [OF _ gb(1) new _ _ pq(1)] pq(2) n assms(9) gb(1) by auto
    then show "scull_peek (io_heap s1) (io_dev s1) p = Some (kmalloc_byte K j (nat (p mod sd_quantum (io_dev s))))"
      using scull_ok_peek [OF ok1, of p] aft by (simp add: geo pq(1) q_def [symmetric])
  qed
qed

lemma scull_write_leaves_stale_witness:
  "\<exists>s1. scull_write demo_api False 100 3 (demo_io 9) = Inr (3, s1) \<and>
    scull_peek (io_heap s1) (io_dev s1) 8 = Some 0xA5"
proof -
  obtain s1 where w: "scull_write demo_api False 100 3 (demo_io 9) = Inr (3, s1)"
    by (rule demo_write)
  have "\<exists>j. \<forall>p\<ge>0. p div sd_quantum (io_dev (demo_io 9)) = io_pos (demo_io 9) div sd_quantum (io_dev (demo_io 9)) \<longrightarrow>
    p \<notin> {io_pos (demo_io 9)..<io_pos (demo_io 9) + 3} \<longrightarrow>
    scull_peek (io_heap s1) (io_dev s1) p = Some (kmalloc_byte demo_api j (nat (p mod sd_quantum (io_dev (demo_io 9)))))"
    by (rule scull_write_leaves_stale [OF sample_kmalloc_ok sample_copy_from_ok demo_ok(1,2) demo_ok(3) _ _ w])
      (simp_all add: demo_io_def scull_peek_def demo_dev_def item_block_def)
  then show ?thesis
    using w by (auto simp: demo_io_def demo_dev_def sample_api_def dest: spec [of _ 8])
qed

end
