(* ===== verification/ScullIoctl.thy ===== *)
theory ScullIoctl
  imports Scull
begin

text \<open>
  \<open>scull_ioctl\<close> (\<open>Scull/main.c\<close>) and the command numbers of \<open>Scull/scull.h\<close>. The macros of
  \<open>linux/ioctl.h\<close> that build and take apart a command are parameters (\<open>ioc\<close>), with the
  documented laws \<open>ioc_ok\<close>; \<open>linux_ioc\<close> is the usual encoding. The thirteen copied cases of the
  switch are compared with one abstract command interpreter, \<open>ioctl_exec\<close>.
\<close>

section \<open>Command numbers\<close>

record ioc =
  IO_cmd :: "int \<Rightarrow> int \<Rightarrow> int"
  IOR_cmd :: "int \<Rightarrow> int \<Rightarrow> int \<Rightarrow> int"
  IOW_cmd :: "int \<Rightarrow> int \<Rightarrow> int \<Rightarrow> int"
  IOWR_cmd :: "int \<Rightarrow> int \<Rightarrow> int \<Rightarrow> int"
  IOC_TYPE :: "int \<Rightarrow> int"
  IOC_NR :: "int \<Rightarrow> int"
  IOC_SIZE :: "int \<Rightarrow> int"
  IOC_READ_set :: "int \<Rightarrow> bool"
    \<comment> \<open>\<open>_IOC_DIR(cmd) & _IOC_READ\<close>\<close>
  IOC_WRITE_set :: "int \<Rightarrow> bool"

definition ioc_decodes :: "ioc \<Rightarrow> int \<Rightarrow> int \<Rightarrow> int \<Rightarrow> int \<Rightarrow> bool \<Rightarrow> bool \<Rightarrow> bool" where
  "ioc_decodes M cmd t n sz r w \<longleftrightarrow> IOC_TYPE M cmd = t \<and> IOC_NR M cmd = n \<and> IOC_SIZE M cmd = sz \<and>
     IOC_READ_set M cmd = r \<and> IOC_WRITE_set M cmd = w"

definition ioc_ok :: "ioc \<Rightarrow> bool" where
  "ioc_ok M \<longleftrightarrow> (\<forall>t n sz. 0 \<le> t \<longrightarrow> t < 256 \<longrightarrow> 0 \<le> n \<longrightarrow> n < 256 \<longrightarrow> 0 \<le> sz \<longrightarrow> sz < 16384 \<longrightarrow>
     ioc_decodes M (IO_cmd M t n) t n 0 False False \<and>
     ioc_decodes M (IOR_cmd M t n sz) t n sz True False \<and>
     ioc_decodes M (IOW_cmd M t n sz) t n sz False True \<and>
     ioc_decodes M (IOWR_cmd M t n sz) t n sz True True)"

definition linux_cmd :: "int \<Rightarrow> int \<Rightarrow> int \<Rightarrow> int \<Rightarrow> int" where
  "linux_cmd d t n sz = d * 2 ^ 30 + sz * 2 ^ 16 + t * 2 ^ 8 + n"

definition linux_ioc :: ioc where
  "linux_ioc = \<lparr>IO_cmd = (\<lambda>t n. linux_cmd 0 t n 0), IOR_cmd = linux_cmd 2, IOW_cmd = linux_cmd 1,
     IOWR_cmd = linux_cmd 3, IOC_TYPE = (\<lambda>c. c div 2 ^ 8 mod 2 ^ 8), IOC_NR = (\<lambda>c. c mod 2 ^ 8),
     IOC_SIZE = (\<lambda>c. c div 2 ^ 16 mod 2 ^ 14), IOC_READ_set = (\<lambda>c. 2 \<le> c div 2 ^ 30),
     IOC_WRITE_set = (\<lambda>c. c div 2 ^ 30 mod 2 = 1)\<rparr>"

lemma radix:
  fixes a b m :: int
  assumes "0 \<le> b" "b < m"
  shows "(a * m + b) mod m = b" "(a * m + b) div m = a"
  using assms by simp_all

lemma linux_cmd_fields:
  assumes "0 \<le> t" "t < 256" "0 \<le> n" "n < 256" "0 \<le> sz" "sz < 16384"
  shows "linux_cmd d t n sz mod 2 ^ 8 = n" "linux_cmd d t n sz div 2 ^ 8 mod 2 ^ 8 = t"
    "linux_cmd d t n sz div 2 ^ 16 mod 2 ^ 14 = sz" "linux_cmd d t n sz div 2 ^ 30 = d"
proof -
  have n: "linux_cmd d t n sz = (d * 2 ^ 22 + sz * 2 ^ 8 + t) * 2 ^ 8 + n"
    by (simp add: linux_cmd_def)
  show "linux_cmd d t n sz mod 2 ^ 8 = n"
    unfolding n by (rule radix) (use assms in simp_all)
  have "linux_cmd d t n sz div 2 ^ 8 = d * 2 ^ 22 + sz * 2 ^ 8 + t"
    unfolding n by (rule radix) (use assms in simp_all)
  then have t: "linux_cmd d t n sz div 2 ^ 8 = (d * 2 ^ 14 + sz) * 2 ^ 8 + t"
    by simp
  show "linux_cmd d t n sz div 2 ^ 8 mod 2 ^ 8 = t"
    unfolding t by (rule radix) (use assms in simp_all)
  have "linux_cmd d t n sz div 2 ^ 16 = linux_cmd d t n sz div 2 ^ 8 div 2 ^ 8"
    by (simp flip: zdiv_zmult2_eq)
  then have s: "linux_cmd d t n sz div 2 ^ 16 = d * 2 ^ 14 + sz"
    unfolding t by (simp only: radix(2) [of t "2 ^ 8"] assms) (use assms in simp)
  show "linux_cmd d t n sz div 2 ^ 16 mod 2 ^ 14 = sz"
    unfolding s by (rule radix) (use assms in simp_all)
  have "linux_cmd d t n sz div 2 ^ 30 = linux_cmd d t n sz div 2 ^ 16 div 2 ^ 14"
    by (simp flip: zdiv_zmult2_eq)
  then show "linux_cmd d t n sz div 2 ^ 30 = d"
    unfolding s by (simp only:) (rule radix, use assms in simp_all)
qed

lemma linux_ioc_ok: "ioc_ok linux_ioc"
  using linux_cmd_fields by (simp add: ioc_ok_def ioc_decodes_def linux_ioc_def)

abbreviation (input) SCULL_IOC_MAGIC :: int where "SCULL_IOC_MAGIC \<equiv> 107"
abbreviation (input) SCULL_IOC_MAXNR :: int where "SCULL_IOC_MAXNR \<equiv> 14"
abbreviation (input) sizeof_int :: int where "sizeof_int \<equiv> 4"

definition SCULL_IOCRESET :: "ioc \<Rightarrow> int" where "SCULL_IOCRESET M = IO_cmd M SCULL_IOC_MAGIC 0"
definition SCULL_IOCSQUANTUM :: "ioc \<Rightarrow> int" where "SCULL_IOCSQUANTUM M = IOW_cmd M SCULL_IOC_MAGIC 1 sizeof_int"
definition SCULL_IOCSQSET :: "ioc \<Rightarrow> int" where "SCULL_IOCSQSET M = IOW_cmd M SCULL_IOC_MAGIC 2 sizeof_int"
definition SCULL_IOCTQUANTUM :: "ioc \<Rightarrow> int" where "SCULL_IOCTQUANTUM M = IO_cmd M SCULL_IOC_MAGIC 3"
definition SCULL_IOCTQSET :: "ioc \<Rightarrow> int" where "SCULL_IOCTQSET M = IO_cmd M SCULL_IOC_MAGIC 4"
definition SCULL_IOCGQUANTUM :: "ioc \<Rightarrow> int" where "SCULL_IOCGQUANTUM M = IOR_cmd M SCULL_IOC_MAGIC 5 sizeof_int"
definition SCULL_IOCGQSET :: "ioc \<Rightarrow> int" where "SCULL_IOCGQSET M = IOR_cmd M SCULL_IOC_MAGIC 6 sizeof_int"
definition SCULL_IOCQQUANTUM :: "ioc \<Rightarrow> int" where "SCULL_IOCQQUANTUM M = IO_cmd M SCULL_IOC_MAGIC 7"
definition SCULL_IOCQQSET :: "ioc \<Rightarrow> int" where "SCULL_IOCQQSET M = IO_cmd M SCULL_IOC_MAGIC 8"
definition SCULL_IOCXQUANTUM :: "ioc \<Rightarrow> int" where "SCULL_IOCXQUANTUM M = IOWR_cmd M SCULL_IOC_MAGIC 9 sizeof_int"
definition SCULL_IOCXQSET :: "ioc \<Rightarrow> int" where "SCULL_IOCXQSET M = IOWR_cmd M SCULL_IOC_MAGIC 10 sizeof_int"
definition SCULL_IOCHQUANTUM :: "ioc \<Rightarrow> int" where "SCULL_IOCHQUANTUM M = IO_cmd M SCULL_IOC_MAGIC 11"
definition SCULL_IOCHQSET :: "ioc \<Rightarrow> int" where "SCULL_IOCHQSET M = IO_cmd M SCULL_IOC_MAGIC 12"

text \<open>Two commands of the pipe devices, which the repository does not contain.\<close>

definition SCULL_P_IOCTSIZE :: "ioc \<Rightarrow> int" where "SCULL_P_IOCTSIZE M = IO_cmd M SCULL_IOC_MAGIC 13"
definition SCULL_P_IOCQSIZE :: "ioc \<Rightarrow> int" where "SCULL_P_IOCQSIZE M = IO_cmd M SCULL_IOC_MAGIC 14"

lemmas ioctl_cmds = SCULL_IOCRESET_def SCULL_IOCSQUANTUM_def SCULL_IOCSQSET_def SCULL_IOCTQUANTUM_def
  SCULL_IOCTQSET_def SCULL_IOCGQUANTUM_def SCULL_IOCGQSET_def SCULL_IOCQQUANTUM_def SCULL_IOCQQSET_def
  SCULL_IOCXQUANTUM_def SCULL_IOCXQSET_def SCULL_IOCHQUANTUM_def SCULL_IOCHQSET_def

section \<open>The handler\<close>

text \<open>\<open>put_user\<close> checks the range itself, \<open>__put_user\<close> does not.\<close>

definition put_user_checked :: "kapi \<Rightarrow> umem \<Rightarrow> uaddr \<Rightarrow> int \<Rightarrow> int \<times> umem" where
  "put_user_checked K um a v = (if access_ok K a sizeof_int then put_user_int K um a v else (- EFAULT, um))"

type_synonym ioctl_res = "int \<times> scull_globals \<times> umem"

definition ioctl_access_err :: "kapi \<Rightarrow> ioc \<Rightarrow> int \<Rightarrow> int \<Rightarrow> bool" where
  "ioctl_access_err K M cmd arg =
     (if IOC_READ_set M cmd then \<not> access_ok K arg (IOC_SIZE M cmd)
      else if IOC_WRITE_set M cmd then \<not> access_ok K arg (IOC_SIZE M cmd) else False)"

definition ioctl_switch :: "kapi \<Rightarrow> ioc \<Rightarrow> int \<Rightarrow> int \<Rightarrow> scull_globals \<Rightarrow> umem \<Rightarrow> ioctl_res" where
  "ioctl_switch K M cmd arg g um =
     (if cmd = SCULL_IOCRESET M then (0, g\<lparr>g_quantum := SCULL_QUANTUM, g_qset := SCULL_QSET\<rparr>, um)
      else if cmd = SCULL_IOCSQUANTUM M then
        (if \<not> capable_sys_admin K then (- EPERM, g, um)
         else let (retval, v) = get_user_int K um arg in (retval, g\<lparr>g_quantum := v\<rparr>, um))
      else if cmd = SCULL_IOCTQUANTUM M then
        (if \<not> capable_sys_admin K then (- EPERM, g, um)
         else (0, g\<lparr>g_quantum := s32 arg\<rparr>, um))
      else if cmd = SCULL_IOCGQUANTUM M then
        (let (retval, um') = put_user_int K um arg (g_quantum g) in (retval, g, um'))
      else if cmd = SCULL_IOCQQUANTUM M then (g_quantum g, g, um)
      else if cmd = SCULL_IOCXQUANTUM M then
        (if \<not> capable_sys_admin K then (- EPERM, g, um)
         else let tmp = g_quantum g; (retval, v) = get_user_int K um arg; g' = g\<lparr>g_quantum := v\<rparr> in
           if retval = 0 then let (retval', um') = put_user_int K um arg tmp in (retval', g', um')
           else (retval, g', um))
      else if cmd = SCULL_IOCHQUANTUM M then
        (if \<not> capable_sys_admin K then (- EPERM, g, um)
         else (g_quantum g, g\<lparr>g_quantum := s32 arg\<rparr>, um))
      else if cmd = SCULL_IOCSQSET M then
        (if \<not> capable_sys_admin K then (- EPERM, g, um)
         else let (retval, v) = get_user_int K um arg in (retval, g\<lparr>g_qset := v\<rparr>, um))
      else if cmd = SCULL_IOCTQSET M then
        (if \<not> capable_sys_admin K then (- EPERM, g, um)
         else (0, g\<lparr>g_qset := s32 arg\<rparr>, um))
      else if cmd = SCULL_IOCGQSET M then
        (let (retval, um') = put_user_int K um arg (g_qset g) in (retval, g, um'))
      else if cmd = SCULL_IOCQQSET M then (g_qset g, g, um)
      else if cmd = SCULL_IOCXQSET M then
        (if \<not> capable_sys_admin K then (- EPERM, g, um)
         else let tmp = g_qset g; (retval, v) = get_user_int K um arg; g' = g\<lparr>g_qset := v\<rparr> in
           if retval = 0 then let (retval', um') = put_user_checked K um arg tmp in (retval', g', um')
           else (retval, g', um))
      else if cmd = SCULL_IOCHQSET M then
        (if \<not> capable_sys_admin K then (- EPERM, g, um)
         else (g_qset g, g\<lparr>g_qset := s32 arg\<rparr>, um))
      else (- ENOTTY, g, um))"

definition scull_ioctl :: "kapi \<Rightarrow> ioc \<Rightarrow> int \<Rightarrow> int \<Rightarrow> scull_globals \<Rightarrow> umem \<Rightarrow> ioctl_res" where
  "scull_ioctl K M cmd arg g um =
     (if IOC_TYPE M cmd \<noteq> SCULL_IOC_MAGIC then (- ENOTTY, g, um)
      else if IOC_NR M cmd > SCULL_IOC_MAXNR then (- ENOTTY, g, um)
      else if ioctl_access_err K M cmd arg then (- EFAULT, g, um)
      else ioctl_switch K M cmd arg g um)"

section \<open>The abstract commands\<close>

text \<open>
  The header's scheme: S(et), T(ell), G(et), Q(uery), eX(change) and sH(ift), each for one of
  the two parameters.
\<close>

datatype ioctl_par = ParQuantum | ParQset

datatype ioctl_cmd = CReset | CSet ioctl_par | CTell ioctl_par | CGet ioctl_par | CQuery ioctl_par
  | CXchg ioctl_par | CShift ioctl_par

fun get_par :: "ioctl_par \<Rightarrow> scull_globals \<Rightarrow> int" where
  "get_par ParQuantum g = g_quantum g"
| "get_par ParQset g = g_qset g"

fun set_par :: "ioctl_par \<Rightarrow> int \<Rightarrow> scull_globals \<Rightarrow> scull_globals" where
  "set_par ParQuantum v g = g\<lparr>g_quantum := v\<rparr>"
| "set_par ParQset v g = g\<lparr>g_qset := v\<rparr>"

fun cmd_code :: "ioc \<Rightarrow> ioctl_cmd \<Rightarrow> int" where
  "cmd_code M CReset = SCULL_IOCRESET M"
| "cmd_code M (CSet ParQuantum) = SCULL_IOCSQUANTUM M"
| "cmd_code M (CSet ParQset) = SCULL_IOCSQSET M"
| "cmd_code M (CTell ParQuantum) = SCULL_IOCTQUANTUM M"
| "cmd_code M (CTell ParQset) = SCULL_IOCTQSET M"
| "cmd_code M (CGet ParQuantum) = SCULL_IOCGQUANTUM M"
| "cmd_code M (CGet ParQset) = SCULL_IOCGQSET M"
| "cmd_code M (CQuery ParQuantum) = SCULL_IOCQQUANTUM M"
| "cmd_code M (CQuery ParQset) = SCULL_IOCQQSET M"
| "cmd_code M (CXchg ParQuantum) = SCULL_IOCXQUANTUM M"
| "cmd_code M (CXchg ParQset) = SCULL_IOCXQSET M"
| "cmd_code M (CShift ParQuantum) = SCULL_IOCHQUANTUM M"
| "cmd_code M (CShift ParQset) = SCULL_IOCHQSET M"

fun cmd_uses_ptr :: "ioctl_cmd \<Rightarrow> bool" where
  "cmd_uses_ptr (CSet p) = True"
| "cmd_uses_ptr (CGet p) = True"
| "cmd_uses_ptr (CXchg p) = True"
| "cmd_uses_ptr _ = False"

fun cmd_privileged :: "ioctl_cmd \<Rightarrow> bool" where
  "cmd_privileged (CSet p) = True"
| "cmd_privileged (CTell p) = True"
| "cmd_privileged (CXchg p) = True"
| "cmd_privileged (CShift p) = True"
| "cmd_privileged _ = False"

fun ioctl_exec :: "kapi \<Rightarrow> ioctl_cmd \<Rightarrow> int \<Rightarrow> scull_globals \<Rightarrow> umem \<Rightarrow> ioctl_res" where
  "ioctl_exec K CReset arg g um = (0, set_par ParQuantum 4000 (set_par ParQset 1000 g), um)"
| "ioctl_exec K (CSet p) arg g um =
     (fst (get_user_int K um arg), set_par p (snd (get_user_int K um arg)) g, um)"
| "ioctl_exec K (CTell p) arg g um = (0, set_par p (s32 arg) g, um)"
| "ioctl_exec K (CGet p) arg g um =
     (fst (put_user_int K um arg (get_par p g)), g, snd (put_user_int K um arg (get_par p g)))"
| "ioctl_exec K (CQuery p) arg g um = (get_par p g, g, um)"
| "ioctl_exec K (CXchg p) arg g um =
     (if fst (get_user_int K um arg) = 0
      then (fst (put_user_int K um arg (get_par p g)), set_par p (snd (get_user_int K um arg)) g,
        snd (put_user_int K um arg (get_par p g)))
      else (fst (get_user_int K um arg), set_par p (snd (get_user_int K um arg)) g, um))"
| "ioctl_exec K (CShift p) arg g um = (get_par p g, set_par p (s32 arg) g, um)"

text \<open>The codes take apart into their fields, and no two are equal.\<close>

lemma ioctl_fields:
  assumes "ioc_ok M"
  shows "ioc_decodes M (SCULL_IOCRESET M) 107 0 0 False False"
    "ioc_decodes M (SCULL_IOCSQUANTUM M) 107 1 4 False True"
    "ioc_decodes M (SCULL_IOCSQSET M) 107 2 4 False True"
    "ioc_decodes M (SCULL_IOCTQUANTUM M) 107 3 0 False False"
    "ioc_decodes M (SCULL_IOCTQSET M) 107 4 0 False False"
    "ioc_decodes M (SCULL_IOCGQUANTUM M) 107 5 4 True False"
    "ioc_decodes M (SCULL_IOCGQSET M) 107 6 4 True False"
    "ioc_decodes M (SCULL_IOCQQUANTUM M) 107 7 0 False False"
    "ioc_decodes M (SCULL_IOCQQSET M) 107 8 0 False False"
    "ioc_decodes M (SCULL_IOCXQUANTUM M) 107 9 4 True True"
    "ioc_decodes M (SCULL_IOCXQSET M) 107 10 4 True True"
    "ioc_decodes M (SCULL_IOCHQUANTUM M) 107 11 0 False False"
    "ioc_decodes M (SCULL_IOCHQSET M) 107 12 0 False False"
  using assms [unfolded ioc_ok_def, rule_format, of 107 _ 4] unfolding ioctl_cmds by simp_all

definition ioctl_codes :: "ioc \<Rightarrow> int list" where
  "ioctl_codes M = [SCULL_IOCRESET M, SCULL_IOCSQUANTUM M, SCULL_IOCSQSET M, SCULL_IOCTQUANTUM M,
     SCULL_IOCTQSET M, SCULL_IOCGQUANTUM M, SCULL_IOCGQSET M, SCULL_IOCQQUANTUM M, SCULL_IOCQQSET M,
     SCULL_IOCXQUANTUM M, SCULL_IOCXQSET M, SCULL_IOCHQUANTUM M, SCULL_IOCHQSET M]"

lemma ioctl_codes_distinct:
  assumes "ioc_ok M"
  shows "distinct (ioctl_codes M)" "distinct (rev (ioctl_codes M))"
proof -
  have "map (IOC_NR M) (ioctl_codes M) = [0, 1, 2, 3, 4, 5, 6, 7, 8, 9, 10, 11, 12]"
    using ioctl_fields [OF assms] by (simp add: ioctl_codes_def ioc_decodes_def)
  then have "distinct (map (IOC_NR M) (ioctl_codes M))" by simp
  then show "distinct (ioctl_codes M)" by (simp only: distinct_map)
  then show "distinct (rev (ioctl_codes M))" by simp
qed

section \<open>The handler implements the commands\<close>

lemma ioctl_commands:
  assumes "ioc_ok M"
  shows "scull_ioctl K M (cmd_code M c) arg g um =
    (if cmd_uses_ptr c \<and> \<not> access_ok K arg 4 then (- EFAULT, g, um)
     else if cmd_privileged c \<and> \<not> capable_sys_admin K then (- EPERM, g, um)
     else ioctl_exec K c arg g um)"
proof -
  note f = ioctl_fields [OF assms, unfolded ioc_decodes_def]
  have d: "distinct (ioctl_codes M)" "distinct (rev (ioctl_codes M))"
    by (rule ioctl_codes_distinct [OF assms])+
  have sw: "ioctl_switch K M (cmd_code M c) arg g um =
      (if cmd_uses_ptr c \<and> \<not> access_ok K arg 4 then ioctl_switch K M (cmd_code M c) arg g um
       else if cmd_privileged c \<and> \<not> capable_sys_admin K then (- EPERM, g, um)
       else ioctl_exec K c arg g um)"
    by (cases "(M, c)" rule: cmd_code.cases)
      (use d in \<open>simp_all add: ioctl_codes_def ioctl_switch_def put_user_checked_def Let_def split_beta\<close>)
  have "IOC_TYPE M (cmd_code M c) = 107 \<and> IOC_NR M (cmd_code M c) \<le> 14 \<and>
      ioctl_access_err K M (cmd_code M c) arg = (cmd_uses_ptr c \<and> \<not> access_ok K arg 4)"
    by (cases "(M, c)" rule: cmd_code.cases) (simp_all add: f ioctl_access_err_def)
  then show ?thesis
    by (subst scull_ioctl_def, subst sw) simp
qed

text \<open>All other numbers fall through the switch, those of the pipe devices too.\<close>

lemma ioctl_unknown:
  assumes "cmd \<notin> range (cmd_code M)"
  shows "ioctl_switch K M cmd arg g um = (- ENOTTY, g, um)"
proof -
  have "cmd \<noteq> cmd_code M c" for c using assms by blast
  note ne = this [of CReset] this [of "CSet ParQuantum"] this [of "CSet ParQset"] this [of "CTell ParQuantum"]
    this [of "CTell ParQset"] this [of "CGet ParQuantum"] this [of "CGet ParQset"] this [of "CQuery ParQuantum"]
    this [of "CQuery ParQset"] this [of "CXchg ParQuantum"] this [of "CXchg ParQset"] this [of "CShift ParQuantum"]
    this [of "CShift ParQset"]
  show ?thesis using ne unfolding ioctl_switch_def by simp
qed

lemma pipe_commands_unknown:
  assumes "ioc_ok M" "cmd \<in> {SCULL_P_IOCTSIZE M, SCULL_P_IOCQSIZE M}"
  shows "scull_ioctl K M cmd arg g um = (- ENOTTY, g, um)"
proof -
  have d: "ioc_decodes M (IO_cmd M 107 n) 107 n 0 False False" if "0 \<le> n" "n < 256" for n
    using assms(1) that unfolding ioc_ok_def by (auto dest!: spec [of _ 107] spec [of _ n] spec [of _ 0])
  have f: "IOC_TYPE M cmd = 107" "IOC_NR M cmd \<in> {13, 14}" "\<not> ioctl_access_err K M cmd arg"
    using assms(2) d [of 13] d [of 14]
    by (auto simp: ioc_decodes_def ioctl_access_err_def SCULL_P_IOCTSIZE_def SCULL_P_IOCQSIZE_def)
  have le: "IOC_NR M (cmd_code M c) \<le> 12" for c
    by (cases "(M, c)" rule: cmd_code.cases) (simp_all add: ioctl_fields [OF assms(1), unfolded ioc_decodes_def])
  have "cmd \<notin> range (cmd_code M)"
  proof
    assume "cmd \<in> range (cmd_code M)"
    then obtain c where "cmd = cmd_code M c" by blast
    then show False using le [of c] f(2) by auto
  qed
  from ioctl_unknown [OF this, of K arg g um] show ?thesis using f by (auto simp: scull_ioctl_def)
qed

text \<open>C24: The thirteen commands of \<open>scull_ioctl\<close> follow one scheme. The pointer commands first
  fail with \<open>-EFAULT\<close> when the range is not a user range, then the commands that change a
  parameter fail with \<open>-EPERM\<close> for a caller without \<open>CAP_SYS_ADMIN\<close>, in both cases without any
  effect; otherwise Set, Tell, Get, Query, eXchange, sHift and Reset do to the quantum or to the
  quantum-set size what the header says.\<close>

theorem scull_ioctl_exec:
  assumes "ioc_ok M"
  shows "scull_ioctl K M (cmd_code M c) arg g um =
    (if cmd_uses_ptr c \<and> \<not> access_ok K arg 4 then (- EFAULT, g, um)
     else if cmd_privileged c \<and> \<not> capable_sys_admin K then (- EPERM, g, um)
     else ioctl_exec K c arg g um)"
  by (rule ioctl_commands [OF assms])

lemma scull_ioctl_exec_witness:
  "scull_ioctl (sample_api [] 1000 False) linux_ioc (cmd_code linux_ioc (CTell ParQset)) 7 scull_params (\<lambda>a. 0) =
    (- EPERM, scull_params, (\<lambda>a. 0))"
  by (subst scull_ioctl_exec [OF linux_ioc_ok]) (simp add: sample_api_def)

lemma ioctl_switch_unprivileged:
  assumes "\<not> capable_sys_admin K"
  shows "fst (snd (ioctl_switch K M cmd arg g um)) =
    (if cmd = SCULL_IOCRESET M then g\<lparr>g_quantum := 4000, g_qset := 1000\<rparr> else g)"
proof -
  have push: "fst (snd (if b then x else y)) = (if b then fst (snd x) else fst (snd y))"
    for b and x y :: ioctl_res by simp
  show ?thesis
    by (simp add: ioctl_switch_def assms split_beta Let_def push cong: if_cong split del: if_split)
qed

text \<open>Whatever the command word, a caller without \<open>CAP_SYS_ADMIN\<close> cannot choose the geometry:
  the two parameters keep their values or, by the unguarded Reset command, return to the
  defaults 4000 and 1000; the other globals never change.\<close>

lemma scull_ioctl_unprivileged:
  assumes "\<not> capable_sys_admin K"
  shows "fst (snd (scull_ioctl K M cmd arg g um)) = g \<or>
    cmd = SCULL_IOCRESET M \<and> fst (snd (scull_ioctl K M cmd arg g um)) = g\<lparr>g_quantum := 4000, g_qset := 1000\<rparr>"
  using ioctl_switch_unprivileged [OF assms] by (simp add: scull_ioctl_def)

lemma scull_ioctl_unprivileged_witness:
  "fst (snd (scull_ioctl (sample_api [] 1000 False) linux_ioc 27393 0 scull_params (\<lambda>a. 0))) = scull_params \<or>
    27393 = SCULL_IOCRESET linux_ioc \<and>
    fst (snd (scull_ioctl (sample_api [] 1000 False) linux_ioc 27393 0 scull_params (\<lambda>a. 0))) =
      scull_params\<lparr>g_quantum := 4000, g_qset := 1000\<rparr>"
  by (rule scull_ioctl_unprivileged) (simp add: sample_api_def)

text \<open>eXchange swaps: when the user word can be read and written, the parameter takes the
  user's value, the user's word holds the old parameter, and the call returns 0. When the word
  cannot be read the call returns \<open>-EFAULT\<close>, and the parameter is 0 afterwards.\<close>

lemma scull_ioctl_exchange:
  assumes "ioc_ok M" "user_int_ok K" "capable_sys_admin K" "access_ok K arg 4"
    and "s32 (get_par p g) = get_par p g"
    and "scull_ioctl K M (cmd_code M (CXchg p)) arg g um = (ret, g', um')"
    and "get_user_int K um arg = (err, v)" "fst (put_user_int K um arg (get_par p g)) = 0"
  shows "if err = 0 then ret = 0 \<and> get_par p g' = v \<and> get_user_int K um' arg = (0, get_par p g)
    else ret = - EFAULT \<and> get_par p g' = 0 \<and> um' = um"
proof -
  have run: "scull_ioctl K M (cmd_code M (CXchg p)) arg g um = ioctl_exec K (CXchg p) arg g um"
    by (simp add: ioctl_commands [OF assms(1)] assms(3,4))
  have gp: "get_par p (set_par p x g) = x" for x by (cases p) simp_all
  have gu: "err \<noteq> 0 \<Longrightarrow> err = - EFAULT \<and> v = 0"
    using assms(2,7) unfolding user_int_ok_def by (metis fst_conv snd_conv insertE singletonD)
  have pu: "get_user_int K (snd (put_user_int K um arg (get_par p g))) arg = (0, get_par p g)"
    using assms(2,5,8) unfolding user_int_ok_def by metis
  show ?thesis
    using assms(6,7,8) gu pu by (auto simp: run gp)
qed

definition demo_um :: umem where
  "demo_um = (\<lambda>a. if a = 100 then 9 else 0)"

definition demo_exchange :: ioctl_res where
  "demo_exchange = scull_ioctl (sample_api [] 1000 True) linux_ioc (cmd_code linux_ioc (CXchg ParQset)) 100 scull_params demo_um"

lemma scull_ioctl_exchange_witness:
  "fst demo_exchange = 0 \<and> g_qset (fst (snd demo_exchange)) = 9 \<and>
    get_user_int (sample_api [] 1000 True) (snd (snd demo_exchange)) 100 = (0, 1000)"
proof -
  have g: "get_user_int (sample_api [] 1000 True) demo_um 100 = (0, 9)"
    by (simp add: demo_um_def sample_api_def int_of_bytes_def um_read_def s32_def upt_rec)
  show ?thesis
    using scull_ioctl_exchange [OF linux_ioc_ok sample_user_int_ok, of "[]" 1000 True 100 ParQset scull_params demo_um
        "fst demo_exchange" "fst (snd demo_exchange)" "snd (snd demo_exchange)" 0 9] g
    by (simp add: demo_exchange_def sample_api_def scull_params_def s32_def)
qed

end
