(* ===== verification/ScullAdmin.thy ===== *)
theory ScullAdmin
  imports ScullProps ScullIoctl
begin

text \<open>
  Emptying, opening and seeking, and the limits of the addressing: what \<open>scull_trim\<close> frees,
  what \<open>scull_open\<close> does on each branch, where \<open>scull_llseek\<close> goes, and what happens with
  positions and geometries the code does not guard against.
\<close>

section \<open>Trimming and opening\<close>

lemma scull_trim_frees:
  assumes "scull_rep h dev nds"
  shows "scull_trim g h dev = Inr (freed h (set (owned nds)),
    dev\<lparr>sd_size := 0, sd_quantum := g_quantum g, sd_qset := g_qset g, sd_data := NULL\<rparr>)"
  using trim_list_frees [of h "sd_quantum dev" "sd_qset dev" "sd_data dev" nds] assms
  by (simp add: scull_trim_def scull_rep_def nodes_def)

text \<open>C17: \<open>scull_trim\<close> frees every item, pointer array and quantum of the device exactly once and
  nothing else, without touching freed memory; the device it leaves is well formed and empty,
  holds no byte, and takes its geometry from the module parameters.\<close>

theorem scull_trim_correct:
  assumes "scull_rep h dev nds" "geom_ok (g_quantum g) (g_qset g)"
  shows "\<exists>h' dev'. scull_trim g h dev = Inr (h', dev') \<and>
    (\<forall>x. h' x = (if x \<in> set (owned nds) then None else h x)) \<and>
    scull_ok h' dev' [] \<and> (\<forall>p. scull_peek h' dev' p = None) \<and>
    sd_size dev' = 0 \<and> sd_quantum dev' = g_quantum g \<and> sd_qset dev' = g_qset g \<and> sd_sem dev' = sd_sem dev"
proof -
  have emp: "nth_item h' NULL k = NULL" for h' k by (cases k) simp_all
  show ?thesis
    unfolding scull_trim_frees [OF assms(1)]
    using assms(2) by (simp add: freed_apply scull_ok_def scull_rep_def nodes_def scull_peek_def Let_def emp item_block_def)
qed

lemma scull_trim_correct_witness:
  "\<exists>s1 nds h' dev'. scull_write demo_api False 100 3 (demo_io 9) = Inr (3, s1) \<and>
    scull_rep (io_heap s1) (io_dev s1) nds \<and> nds \<noteq> [] \<and>
    scull_trim scull_params (io_heap s1) (io_dev s1) = Inr (h', dev') \<and>
    (\<forall>x. h' x = (if x \<in> set (owned nds) then None else io_heap s1 x))"
proof -
  obtain s1 nds where w: "scull_write demo_api False 100 3 (demo_io 9) = Inr (3, s1)"
    and ok: "scull_ok (io_heap s1) (io_dev s1) nds"
    and out: "write_outcome demo_api 100 3 (demo_io 9) 3 s1"
    by (rule demo_written)
  have rep: "scull_rep (io_heap s1) (io_dev s1) nds" using ok by (simp add: scull_ok_def)
  have "scull_peek (io_heap s1) (io_dev s1) 9 \<noteq> None"
    using out by (auto simp: write_outcome_def Let_def demo_io_def demo_dev_def)
  then have "nds \<noteq> []"
    using scull_ok_peek [OF ok, of 9] by (auto simp: block_at_def)
  moreover have "geom_ok (g_quantum scull_params) (g_qset scull_params)"
    by (simp add: geom_ok_def scull_params_def)
  ultimately show ?thesis
    using scull_trim_correct [OF rep, of scull_params] w rep by blast
qed

text \<open>\<open>scull_open\<close> empties the device exactly when it is opened write-only. Then it returns 0
  with the device's objects freed and its geometry set from the module parameters, or
  \<open>-ERESTARTSYS\<close> with nothing changed when the wait for the semaphore is interrupted, and it
  sleeps only while the semaphore is held; any other open returns 0 and changes nothing.\<close>

lemma scull_open_correct:
  assumes "scull_rep h dev nds"
  shows "scull_open g intr f_flags h dev =
    (if and f_flags 3 \<noteq> 1 then Inr (0, h, dev)
     else if intr then Inr (- ERESTARTSYS, h, dev)
     else if sd_sem dev = 0 then Inl Blocked
     else Inr (0, freed h (set (owned nds)),
       dev\<lparr>sd_size := 0, sd_quantum := g_quantum g, sd_qset := g_qset g, sd_data := NULL\<rparr>))"
proof (cases "sd_sem dev")
  case 0
  then show ?thesis by (simp add: scull_open_def down_interruptible_def)
next
  case (Suc c)
  have "scull_rep h (dev\<lparr>sd_sem := c\<rparr>) nds" using assms by (simp add: scull_rep_def)
  from scull_trim_frees [OF this] show ?thesis
    using Suc by (cases dev) (simp add: scull_open_def down_interruptible_def up_def)
qed

lemma scull_open_correct_witness:
  "scull_open scull_params False 1 Map.empty demo_dev =
    Inr (0, Map.empty, demo_dev\<lparr>sd_quantum := 4000, sd_qset := 1000\<rparr>)"
proof -
  have "scull_rep Map.empty demo_dev []" by (simp add: scull_rep_def nodes_def demo_dev_def)
  from scull_open_correct [OF this, of scull_params False 1] show ?thesis
    by (simp add: demo_dev_def scull_params_def)
qed

section \<open>Seeking\<close>

text \<open>C32: \<open>scull_llseek\<close> moves to base + offset, the base being 0, the position or the file size;
  it fails with \<open>-EINVAL\<close> and leaves the position alone when \<open>whence\<close> is none of 0, 1, 2, when
  the target is negative, and also when the sum leaves the range of \<open>loff_t\<close>, where the code's
  arithmetic wraps to a negative number.\<close>

theorem scull_llseek_correct:
  assumes "0 \<le> f_pos" "f_pos < 2 ^ 63" "0 \<le> sd_size dev" "sd_size dev < 2 ^ 63"
    and "- (2 ^ 63) \<le> off" "off < 2 ^ 63"
  shows "scull_llseek dev f_pos off whence =
    (let target = (if whence = 1 then f_pos else if whence = 2 then sd_size dev else 0) + off in
     if whence \<notin> {0, 1, 2} \<or> target < 0 \<or> 2 ^ 63 \<le> target then (- EINVAL, f_pos) else (target, target))"
proof -
  have wrap: "s64 (b + off) = (if b + off < 2 ^ 63 then b + off else b + off - 2 ^ 64)"
    if "0 \<le> b" "b < 2 ^ 63" for b
  proof (cases "b + off < 2 ^ 63")
    case True
    then show ?thesis using that assms by (simp add: s64_id)
  next
    case False
    then have "b + off + 2 ^ 63 = (b + off - 2 ^ 63) + 2 ^ 64" by simp
    then have "s64 (b + off) = (b + off - 2 ^ 63) mod 2 ^ 64 - 2 ^ 63"
      unfolding s64_def by (metis mod_add_self2)
    then show ?thesis using False that assms by simp
  qed
  have u: "s64 (u64 x) = s64 x" for x
    by (simp add: s64_def u64_def mod_add_left_eq)
  show ?thesis
    using wrap [OF assms(1,2)] wrap [OF assms(3,4)] assms
    by (simp add: scull_llseek_def Let_def u)
qed

lemma scull_llseek_correct_witness:
  "scull_llseek (demo_dev\<lparr>sd_size := 10\<rparr>) 3 (- 4) 2 = (6, 6) \<and>
   scull_llseek (demo_dev\<lparr>sd_size := 10\<rparr>) 3 (2 ^ 63 - 1) 1 = (- EINVAL, 3)"
  using scull_llseek_correct [of 3 "demo_dev\<lparr>sd_size := 10\<rparr>" "- 4" 2]
    scull_llseek_correct [of 3 "demo_dev\<lparr>sd_size := 10\<rparr>" "2 ^ 63 - 1" 1] by simp

section \<open>Addressing\<close>

text \<open>For a sane geometry and a position whose item number is an \<open>int\<close>, the address
  computation of read and write never traps, gives an index inside the pointer array and an
  offset inside the quantum, and loses nothing: the three numbers determine the position.\<close>

lemma scull_locate_correct:
  assumes "geom_ok quantum qset" "pos_ok quantum qset pos"
  shows "\<exists>item s_pos q_pos. scull_locate quantum qset pos = Inr (item, s_pos, q_pos) \<and>
    0 \<le> item \<and> item < 2 ^ 31 \<and> 0 \<le> s_pos \<and> s_pos < qset \<and> 0 \<le> q_pos \<and> q_pos < quantum \<and>
    pos = item * (quantum * qset) + s_pos * quantum + q_pos"
  using scull_locate_ok [OF assms] locate_range [OF assms] by blast

lemma scull_locate_correct_witness:
  "scull_locate 4000 1000 8012345 = Inr (2, 3, 345)"
proof -
  have "\<exists>item s_pos q_pos. scull_locate 4000 1000 8012345 = Inr (item, s_pos, q_pos) \<and>
    0 \<le> item \<and> item < 2 ^ 31 \<and> 0 \<le> s_pos \<and> s_pos < 1000 \<and> 0 \<le> q_pos \<and> q_pos < 4000 \<and>
    8012345 = item * (4000 * 1000) + s_pos * 4000 + q_pos"
    by (rule scull_locate_correct) (simp_all add: geom_ok_def pos_ok_def)
  then obtain item s_pos q_pos where loc: "scull_locate 4000 1000 8012345 = Inr (item, s_pos, q_pos)"
    and r: "0 \<le> s_pos" "s_pos < 1000" "0 \<le> q_pos" "q_pos < 4000"
      "8012345 = item * 4000000 + s_pos * 4000 + q_pos" by auto
  have "item < 3" "1 < item" using r by linarith+
  then have i: "item = 2" by simp
  have "s_pos < 4" "2 < s_pos" using r i by linarith+
  then have s3: "s_pos = 3" by simp
  then have "q_pos = 345" using r(5) i by simp
  then show ?thesis using loc i s3 by simp
qed

text \<open>C33: Beyond that range the item number is cut to 32 bits: a position \<open>2^32\<close> items further
  on is stored in the same item, slot and offset, so data written there overwrites the data of
  the lower position.\<close>

theorem scull_locate_aliases:
  assumes "geom_ok quantum qset" "pos_ok quantum qset pos"
    and "pos + 2 ^ 32 * (quantum * qset) < 2 ^ 63"
  shows "scull_locate quantum qset (pos + 2 ^ 32 * (quantum * qset)) = scull_locate quantum qset pos"
proof -
  let ?m = "quantum * qset"
  note gb = geom_bounds [OF assms(1)]
  have m: "s32 ?m = ?m" using gb by (simp add: s32_nonneg)
  have p: "0 \<le> pos" "0 \<le> pos + 2 ^ 32 * ?m" using assms(2) gb by (simp_all add: pos_ok_def)
  have d: "(pos + 2 ^ 32 * ?m) div ?m = pos div ?m + 2 ^ 32" "(pos + 2 ^ 32 * ?m) mod ?m = pos mod ?m"
    using gb by simp_all
  have "s32 (x + 2 ^ 32) = s32 x" for x
  proof -
    have "x + 2 ^ 32 + 2 ^ 31 = (x + 2 ^ 31) + 2 ^ 32" by simp
    then show ?thesis unfolding s32_def by (simp only: mod_add_self2)
  qed
  then show ?thesis
    unfolding scull_locate_def Let_def m
    by (simp only: c_div_nonneg [OF p(1) gb(3)] c_div_nonneg [OF p(2) gb(3)]
        c_mod_nonneg [OF p(1) gb(3)] c_mod_nonneg [OF p(2) gb(3)] d kbind_simps)
qed

lemma scull_locate_aliases_witness:
  "scull_locate 4000 1000 (8012345 + 2 ^ 32 * (4000 * 1000)) = scull_locate 4000 1000 8012345"
  by (rule scull_locate_aliases) (simp_all add: geom_ok_def pos_ok_def)

section \<open>A geometry of zero\<close>

lemma scull_locate_zero: "quantum * qset = 0 \<Longrightarrow> scull_locate quantum qset pos = Inl DivTrap"
  by (simp only: scull_locate_def Let_def) (simp add: s32_def)

text \<open>C30: A failing Set command breaks the device. When the administrator's \<open>SCULL_IOCSQUANTUM\<close>
  (or \<open>SCULL_IOCSQSET\<close>) cannot read its argument it returns \<open>-EFAULT\<close>, but the parameter has
  become 0; the next write-only open gives the device this geometry, and every write that then
  gets the semaphore divides by zero.\<close>

theorem failed_set_traps_write:
  assumes "ioc_ok M" "user_int_ok K" "capable_sys_admin K" "access_ok K arg 4"
    and "fst (get_user_int K um arg) \<noteq> 0"
    and "scull_rep h dev nds" "sd_sem dev = Suc c" "and f_flags 3 = 1"
  shows "\<exists>g' h' dev'. scull_ioctl K M (cmd_code M (CSet par)) arg g um = (- EFAULT, g', um) \<and>
    scull_open g' False f_flags h dev = Inr (0, h', dev') \<and>
    (\<forall>s buf cnt. io_dev s = dev' \<longrightarrow> scull_write K False buf cnt s = Inl DivTrap)"
proof -
  have gu: "fst (get_user_int K um arg) = - EFAULT" "snd (get_user_int K um arg) = 0"
    using assms(2,5) unfolding user_int_ok_def by (metis insertE singletonD, metis)
  define g' where "g' = set_par par 0 g"
  have io: "scull_ioctl K M (cmd_code M (CSet par)) arg g um = (- EFAULT, g', um)"
    by (simp add: ioctl_commands [OF assms(1)] assms(3,4) gu g'_def)
  have zero: "g_quantum g' * g_qset g' = 0" by (cases par) (simp_all add: g'_def)
  have rep: "scull_rep h (dev\<lparr>sd_sem := c\<rparr>) nds" using assms(6) by (simp add: scull_rep_def)
  define dev' where "dev' = dev\<lparr>sd_size := 0, sd_quantum := g_quantum g', sd_qset := g_qset g', sd_data := NULL\<rparr>"
  have op: "scull_open g' False f_flags h dev = Inr (0, freed h (set (owned nds)), dev')"
    using scull_trim_frees [OF rep, of g'] assms(7,8)
    by (cases dev) (simp add: scull_open_def down_interruptible_def up_def dev'_def)
  have "scull_write K False buf cnt s = Inl DivTrap" if "io_dev s = dev'" for s buf cnt
    using that assms(7) scull_locate_zero [OF zero]
    by (simp add: scull_write_def down_interruptible_def scull_write_locked_def Let_def dev'_def)
  then show ?thesis using io op by blast
qed

lemma failed_set_traps_write_witness:
  "\<exists>g' h' dev'. scull_ioctl (sample_api [] 10 True) linux_ioc (cmd_code linux_ioc (CSet ParQuantum)) 2000 scull_params (\<lambda>a. 0) =
      (- EFAULT, g', (\<lambda>a. 0)) \<and>
    scull_open g' False 1 Map.empty demo_dev = Inr (0, h', dev') \<and>
    (\<forall>s buf cnt. io_dev s = dev' \<longrightarrow> scull_write (sample_api [] 10 True) False buf cnt s = Inl DivTrap)"
  by (rule failed_set_traps_write [OF linux_ioc_ok sample_user_int_ok, where nds = "[]" and c = 0])
    (simp_all add: sample_api_def scull_rep_def nodes_def demo_dev_def)

section \<open>The semaphore\<close>

text \<open>Reading and writing never leak the semaphore: on every branch that returns, errors and
  interruption included and whatever the geometry, its count is what it was at the call.\<close>

lemma scull_sem_balanced:
  assumes "scull_read K intr buf cnt s = Inr (ret, s') \<or> scull_write K intr buf cnt s = Inr (ret, s')"
  shows "sd_sem (io_dev s') = sd_sem (io_dev s)"
  using assms rd.balanced wr.balanced unfolding scull_read_bracket scull_write_bracket by blast

lemma scull_sem_balanced_witness:
  "\<exists>s1. scull_write demo_api False 100 3 (demo_io 9) = Inr (3, s1) \<and> sd_sem (io_dev s1) = 1"
proof -
  obtain s1 where w: "scull_write demo_api False 100 3 (demo_io 9) = Inr (3, s1)"
    by (rule demo_write)
  then show ?thesis
    using scull_sem_balanced [OF disjI2 [OF w]] by (simp add: demo_io_def demo_dev_def)
qed

end
