(* ===== verification/ScullConc.thy ===== *)
theory ScullConc
  imports ScullProps ScullIoctl ScullAdmin
begin

text \<open>
  Any number of threads on one scull device. A call is four steps: it enters and, for a read or
  a write, copies the geometry of the device (before it holds the semaphore, as the code does);
  it acquires the semaphore or is interrupted; it works; it releases. Any other process may
  change the module parameters by \<open>ioctl\<close> or its own memory at any moment; \<open>scull_llseek\<close> takes
  no semaphore, reads the size once and changes only the position of the caller's file. The
  theory shows mutual exclusion on every run, that without a change of the parameters no interleaving can
  break the device or crash, and that with one a thread that entered before works with the old
  geometry and overruns a quantum.
\<close>

section \<open>The system\<close>

text \<open>Read and write take the user buffer, the count and the file position.\<close>

datatype job = RdJob uaddr int int | WrJob uaddr int int | TruncJob

datatype pc = Idle | Entered job int int | Locked job int int | Leaving int | Crashed fault

record scull_sys =
  sy_heap :: scull_heap
  sy_dev :: scull_dev
  sy_user :: umem
  sy_globals :: scull_globals
  sy_pc :: "nat \<Rightarrow> pc"

fun job_pos :: "job \<Rightarrow> int" where
  "job_pos (RdJob buf count f_pos) = f_pos"
| "job_pos (WrJob buf count f_pos) = f_pos"
| "job_pos TruncJob = 0"

definition job_io :: "scull_sys \<Rightarrow> job \<Rightarrow> scull_io" where
  "job_io S j = \<lparr>io_heap = sy_heap S, io_dev = sy_dev S, io_user = sy_user S, io_pos = job_pos j\<rparr>"

text \<open>What a call does between \<open>down_interruptible\<close> and \<open>up\<close>.\<close>

fun job_body :: "kapi \<Rightarrow> scull_globals \<Rightarrow> job \<Rightarrow> int \<Rightarrow> int \<Rightarrow> scull_io \<Rightarrow> (int \<times> scull_io) res" where
  "job_body K g (RdJob buf count f_pos) quantum qset s = scull_read_locked K quantum qset buf count s"
| "job_body K g (WrJob buf count f_pos) quantum qset s = scull_write_locked K quantum qset buf count s"
| "job_body K g TruncJob quantum qset s =
     kbind (scull_trim g (io_heap s) (io_dev s)) (\<lambda>(h, dev). Inr (0, s\<lparr>io_heap := h, io_dev := dev\<rparr>))"

inductive conc_step :: "kapi \<Rightarrow> ioc \<Rightarrow> scull_sys \<Rightarrow> scull_sys \<Rightarrow> bool" for K M where
  enter: "sy_pc S i = Idle \<Longrightarrow>
    conc_step K M S (S\<lparr>sy_pc := (sy_pc S)(i := Entered j (sd_quantum (sy_dev S)) (sd_qset (sy_dev S)))\<rparr>)"
| signal: "sy_pc S i = Entered j q n \<Longrightarrow> conc_step K M S (S\<lparr>sy_pc := (sy_pc S)(i := Idle)\<rparr>)"
| acquire: "sy_pc S i = Entered j q n \<Longrightarrow> down_interruptible False (sy_dev S) = Inr (0, dev) \<Longrightarrow>
    conc_step K M S (S\<lparr>sy_dev := dev, sy_pc := (sy_pc S)(i := Locked j q n)\<rparr>)"
| work: "sy_pc S i = Locked j q n \<Longrightarrow> job_body K (sy_globals S) j q n (job_io S j) = Inr (ret, s') \<Longrightarrow>
    conc_step K M S (S\<lparr>sy_heap := io_heap s', sy_dev := io_dev s', sy_user := io_user s',
      sy_pc := (sy_pc S)(i := Leaving ret)\<rparr>)"
| crash: "sy_pc S i = Locked j q n \<Longrightarrow> job_body K (sy_globals S) j q n (job_io S j) = Inl f \<Longrightarrow>
    conc_step K M S (S\<lparr>sy_pc := (sy_pc S)(i := Crashed f)\<rparr>)"
| leave: "sy_pc S i = Leaving ret \<Longrightarrow>
    conc_step K M S (S\<lparr>sy_dev := up (sy_dev S), sy_pc := (sy_pc S)(i := Idle)\<rparr>)"
| tune: "scull_ioctl K M cmd arg (sy_globals S) (sy_user S) = (r, g', um') \<Longrightarrow>
    conc_step K M S (S\<lparr>sy_globals := g', sy_user := um'\<rparr>)"
| user: "conc_step K M S (S\<lparr>sy_user := um'\<rparr>)"
| seek: "sy_pc S i = Idle \<Longrightarrow> scull_llseek (sy_dev S) f_pos off whence = (r, f_pos') \<Longrightarrow> conc_step K M S S"

text \<open>The states reached by steps into states that satisfy \<open>P\<close>.\<close>

inductive conc_reach :: "kapi \<Rightarrow> ioc \<Rightarrow> (scull_sys \<Rightarrow> bool) \<Rightarrow> scull_sys \<Rightarrow> scull_sys \<Rightarrow> bool" for K M P S0 where
  reach_start: "conc_reach K M P S0 S0"
| reach_step: "conc_reach K M P S0 S \<Longrightarrow> conc_step K M S S' \<Longrightarrow> P S' \<Longrightarrow> conc_reach K M P S0 S'"

text \<open>An invariant: what every step keeps.\<close>

lemma conc_reach_inv:
  assumes "conc_reach K M P S0 S" "Q S0"
    and "\<And>S S'. Q S \<Longrightarrow> conc_step K M S S' \<Longrightarrow> P S' \<Longrightarrow> Q S'"
  shows "Q S"
  using assms(1,2) by (induction rule: conc_reach.induct) (auto intro: assms(3))

section \<open>Mutual exclusion\<close>

fun inside :: "pc \<Rightarrow> bool" where
  "inside (Locked _ _ _) = True"
| "inside (Leaving _) = True"
| "inside (Crashed _) = True"
| "inside _ = False"

definition sem_inv :: "scull_sys \<Rightarrow> bool" where
  "sem_inv S \<longleftrightarrow>
     sd_sem (sy_dev S) = 1 \<and> (\<forall>i. \<not> inside (sy_pc S i)) \<or>
     sd_sem (sy_dev S) = 0 \<and> (\<exists>i. \<forall>k. inside (sy_pc S k) \<longleftrightarrow> k = i)"

lemma job_body_sem:
  "job_body K g j q n s = Inr (ret, s') \<Longrightarrow> sd_sem (io_dev s') = sd_sem (io_dev s)"
  by (cases j) (auto simp: scull_trim_def kbind_Inr_iff dest: scull_read_locked_sem scull_write_locked_sem)

lemma sem_inv_step: "conc_step K M S S' \<Longrightarrow> sem_inv S \<Longrightarrow> sem_inv S'"
proof (induction S S' rule: conc_step.induct)
  case (enter S i j)
  then have "inside (sy_pc S k) = inside (((sy_pc S)(i := Entered j q n)) k)" for k q n by auto
  then show ?case using enter.prems by (simp add: sem_inv_def del: fun_upd_apply)
next
  case (signal S i j q n)
  then have "inside (sy_pc S k) = inside (((sy_pc S)(i := Idle)) k)" for k by auto
  then show ?case using signal.prems by (simp add: sem_inv_def del: fun_upd_apply)
next
  case (acquire S i j q n dev)
  then have "sd_sem (sy_dev S) = 1" "\<And>k. \<not> inside (sy_pc S k)" "sd_sem dev = 0"
    by (auto simp: sem_inv_def down_interruptible_def split: nat.splits)
  then show ?case by (auto simp: sem_inv_def)
next
  case (work S i j q n ret s')
  have "inside (sy_pc S k) = inside (((sy_pc S)(i := Leaving ret)) k)" for k using work.hyps by auto
  moreover have "sd_sem (io_dev s') = sd_sem (sy_dev S)"
    using job_body_sem [OF work.hyps(2)] by (simp add: job_io_def)
  ultimately show ?case using work.prems by (simp add: sem_inv_def del: fun_upd_apply)
next
  case (crash S i j q n f)
  then have "inside (sy_pc S k) = inside (((sy_pc S)(i := Crashed f)) k)" for k by auto
  then show ?case using crash.prems by (simp add: sem_inv_def del: fun_upd_apply)
next
  case (leave S i ret)
  then have "inside (sy_pc S i)" by simp
  with leave.prems have "sd_sem (sy_dev S) = 0" "\<And>k. inside (sy_pc S k) \<longleftrightarrow> k = i"
    by (auto simp: sem_inv_def)
  then show ?case by (simp add: sem_inv_def up_def)
qed (simp_all add: sem_inv_def)

lemma sem_inv_exclusive: "sem_inv S \<Longrightarrow> inside (sy_pc S i) \<Longrightarrow> inside (sy_pc S k) \<Longrightarrow> i = k"
  by (auto simp: sem_inv_def)

section \<open>Runs with a fixed geometry\<close>

fun job_ok :: "int \<Rightarrow> int \<Rightarrow> job \<Rightarrow> bool" where
  "job_ok q n (RdJob buf count f_pos) \<longleftrightarrow> pos_ok q n f_pos \<and> 0 \<le> count \<and> count < 2 ^ 63"
| "job_ok q n (WrJob buf count f_pos) \<longleftrightarrow> pos_ok q n f_pos \<and> 0 \<le> count \<and> f_pos + count < 2 ^ 63"
| "job_ok q n TruncJob \<longleftrightarrow> True"

fun pc_ok :: "int \<Rightarrow> int \<Rightarrow> pc \<Rightarrow> bool" where
  "pc_ok q n (Entered j q' n') \<longleftrightarrow> q' = q \<and> n' = n \<and> job_ok q n j"
| "pc_ok q n (Locked j q' n') \<longleftrightarrow> q' = q \<and> n' = n \<and> job_ok q n j"
| "pc_ok q n (Leaving _) \<longleftrightarrow> True"
| "pc_ok q n Idle \<longleftrightarrow> True"
| "pc_ok q n (Crashed _) \<longleftrightarrow> False"

text \<open>What the environment grants: the parameters stay, and calls use positions and counts in range.\<close>

definition steady :: "int \<Rightarrow> int \<Rightarrow> scull_sys \<Rightarrow> bool" where
  "steady q n S \<longleftrightarrow> g_quantum (sy_globals S) = q \<and> g_qset (sy_globals S) = n \<and>
     (\<forall>i j q' n'. sy_pc S i = Entered j q' n' \<longrightarrow> job_ok q n j)"

definition dev_inv :: "int \<Rightarrow> int \<Rightarrow> scull_sys \<Rightarrow> bool" where
  "dev_inv q n S \<longleftrightarrow> g_quantum (sy_globals S) = q \<and> g_qset (sy_globals S) = n \<and>
     sd_quantum (sy_dev S) = q \<and> sd_qset (sy_dev S) = n \<and>
     (\<exists>nds. scull_ok (sy_heap S) (sy_dev S) nds) \<and> (\<forall>i. pc_ok q n (sy_pc S i))"

lemma job_body_ok:
  assumes K: "kapi_ok K"
    and ok: "scull_ok (io_heap s) (io_dev s) nds" "sd_quantum (io_dev s) = q" "sd_qset (io_dev s) = n"
    and g: "g_quantum g = q" "g_qset g = n" and j: "job_ok q n j" "io_pos s = job_pos j"
  shows "\<exists>ret s' nds'. job_body K g j q n s = Inr (ret, s') \<and> scull_ok (io_heap s') (io_dev s') nds' \<and>
    sd_quantum (io_dev s') = q \<and> sd_qset (io_dev s') = n"
proof (cases j)
  case (RdJob buf count f_pos)
  obtain ret s' where c: "scull_read_locked K q n buf count s = Inr (ret, s')" "read_keeps s nds s'"
    using scull_read_locked_spec [of K s nds q n count buf] assms RdJob by (auto simp: kapi_ok_def)
  then obtain a new where "io_dev s' = (io_dev s)\<lparr>sd_data := a\<rparr>" "scull_ok (io_heap s') (io_dev s') (nds @ blanks new)"
    unfolding read_keeps_def by blast
  then show ?thesis using RdJob c(1) ok by auto
next
  case (WrJob buf count f_pos)
  obtain ret s' nds' where c: "scull_write_locked K q n buf count s = Inr (ret, s')" "write_frame s nds s' nds'"
    using scull_write_locked_spec [of K s nds q n count _ buf] assms WrJob by (auto simp: kapi_ok_def)
  then obtain a z where "io_dev s' = (io_dev s)\<lparr>sd_data := a, sd_size := z\<rparr>" "scull_ok (io_heap s') (io_dev s') nds'"
    unfolding write_frame_def by blast
  then show ?thesis using WrJob c(1) ok by auto
next
  case TruncJob
  have "scull_rep (io_heap s) (io_dev s) nds" "geom_ok q n" using ok by (simp_all add: scull_ok_def)
  then show ?thesis
    using TruncJob g scull_trim_frees [of "io_heap s" "io_dev s" nds g]
    by (auto simp: scull_ok_def scull_rep_def nodes_def intro!: exI [of _ "[]"])
qed

lemma dev_inv_step:
  assumes "kapi_ok K" "dev_inv q n S" "conc_step K M S S'" "steady q n S'"
  shows "dev_inv q n S'"
  using assms(3,2,4)
proof (induction S S' rule: conc_step.induct)
  case (enter S i j)
  let ?pc = "Entered j (sd_quantum (sy_dev S)) (sd_qset (sy_dev S))"
  have "sy_pc (S\<lparr>sy_pc := (sy_pc S)(i := ?pc)\<rparr>) i = ?pc" by simp
  then have "job_ok q n j" using enter.prems(2) unfolding steady_def by blast
  then show ?case using enter.prems by (auto simp: dev_inv_def)
next
  case (acquire S i j q' n' dev)
  then obtain c where "dev = (sy_dev S)\<lparr>sd_sem := c\<rparr>"
    by (auto simp: down_interruptible_def split: nat.splits)
  moreover have "pc_ok q n (sy_pc S i)" using acquire.prems by (simp add: dev_inv_def)
  ultimately show ?case using acquire.hyps acquire.prems by (auto simp: dev_inv_def)
next
  case (work S i j q' n' ret s')
  then obtain nds where ok: "scull_ok (sy_heap S) (sy_dev S) nds" by (auto simp: dev_inv_def)
  have pc: "pc_ok q n (sy_pc S i)" using work.prems by (simp add: dev_inv_def)
  obtain ret' s1 nds' where "job_body K (sy_globals S) j q n (job_io S j) = Inr (ret', s1)"
    "scull_ok (io_heap s1) (io_dev s1) nds'" "sd_quantum (io_dev s1) = q" "sd_qset (io_dev s1) = n"
    using job_body_ok [OF assms(1), of "job_io S j" nds q n "sy_globals S" j] ok pc work.hyps(1) work.prems(1)
    by (auto simp: dev_inv_def job_io_def)
  then show ?case using work.hyps pc work.prems by (auto simp: dev_inv_def)
next
  case (crash S i j q' n' f)
  then obtain nds where ok: "scull_ok (sy_heap S) (sy_dev S) nds" by (auto simp: dev_inv_def)
  have pc: "pc_ok q n (sy_pc S i)" using crash.prems by (simp add: dev_inv_def)
  have "\<exists>ret' s1. job_body K (sy_globals S) j q n (job_io S j) = Inr (ret', s1)"
    using job_body_ok [OF assms(1), of "job_io S j" nds q n "sy_globals S" j] ok pc crash.hyps(1) crash.prems(1)
    by (auto simp: dev_inv_def job_io_def)
  then show ?case using crash.hyps pc by auto
next
  case (leave S i ret)
  then show ?case by (auto simp: dev_inv_def up_def)
qed (auto simp: dev_inv_def steady_def)

section \<open>Whole calls as runs\<close>

lemma conc_reach_trans:
  assumes "conc_reach K M P S1 S2" "conc_reach K M P S0 S1"
  shows "conc_reach K M P S0 S2"
  using assms by (induction rule: conc_reach.induct) (auto intro: conc_reach.intros)

lemma conc_reach_one: "conc_step K M S S' \<Longrightarrow> P S' \<Longrightarrow> conc_reach K M P S S'"
  by (rule reach_step [OF reach_start])

text \<open>A thread that is not interrupted or overtaken; the module parameters satisfy \<open>Q\<close> all along.\<close>

lemma solo_run:
  assumes Q: "Q (sy_globals S)" and pc: "sy_pc S i = Idle" and sem: "sd_sem (sy_dev S) = Suc c"
    and body: "job_body K (sy_globals S) j (sd_quantum (sy_dev S)) (sd_qset (sy_dev S))
      ((job_io S j)\<lparr>io_dev := (sy_dev S)\<lparr>sd_sem := c\<rparr>\<rparr>) = Inr (ret, s')"
  shows "conc_reach K M (\<lambda>S. Q (sy_globals S)) S
    (S\<lparr>sy_heap := io_heap s', sy_dev := up (io_dev s'), sy_user := io_user s'\<rparr>)"
proof -
  let ?q = "sd_quantum (sy_dev S)" and ?n = "sd_qset (sy_dev S)" and ?dev = "(sy_dev S)\<lparr>sd_sem := c\<rparr>"
  define S1 where "S1 = S\<lparr>sy_pc := (sy_pc S)(i := Entered j ?q ?n)\<rparr>"
  define S2 where "S2 = S1\<lparr>sy_dev := ?dev, sy_pc := (sy_pc S1)(i := Locked j ?q ?n)\<rparr>"
  define S3 where "S3 = S2\<lparr>sy_heap := io_heap s', sy_dev := io_dev s', sy_user := io_user s',
    sy_pc := (sy_pc S2)(i := Leaving ret)\<rparr>"
  define S4 where "S4 = S3\<lparr>sy_dev := up (sy_dev S3), sy_pc := (sy_pc S3)(i := Idle)\<rparr>"
  have 1: "conc_step K M S S1" unfolding S1_def using pc by (rule enter)
  have 2: "conc_step K M S1 S2"
    unfolding S2_def by (rule acquire) (simp_all add: S1_def down_interruptible_def sem)
  have "job_io S2 j = (job_io S j)\<lparr>io_dev := ?dev\<rparr>" "sy_globals S2 = sy_globals S"
    by (simp_all add: job_io_def S2_def S1_def)
  then have 3: "conc_step K M S2 S3"
    unfolding S3_def using body by (intro work [where j = j and q = ?q and n = ?n]) (simp_all add: S2_def)
  have 4: "conc_step K M S3 S4"
    unfolding S4_def by (rule leave [where ret = ret]) (simp add: S3_def)
  have again: "(sy_pc S)(i := Idle) = sy_pc S" using pc by (simp add: fun_upd_idem)
  have "S4 = S\<lparr>sy_heap := io_heap s', sy_dev := up (io_dev s'), sy_user := io_user s'\<rparr>"
    by (cases S) (use again in \<open>simp add: S4_def S3_def S2_def S1_def\<close>)
  moreover have "conc_reach K M (\<lambda>S. Q (sy_globals S)) S S4"
    by (rule reach_step [OF reach_step [OF reach_step [OF conc_reach_one [OF 1] 2] 3] 4])
      (simp_all add: S4_def S3_def S2_def S1_def Q)
  ultimately show ?thesis by simp
qed

lemma solo_bracket:
  assumes "Q (sy_globals S)" "sy_pc S i = Idle"
    and "sem_bracket (job_body K (sy_globals S) j (sd_quantum (sy_dev S)) (sd_qset (sy_dev S))) False (job_io S j) =
      Inr (ret, s')"
  shows "conc_reach K M (\<lambda>S. Q (sy_globals S)) S (S\<lparr>sy_heap := io_heap s', sy_dev := io_dev s', sy_user := io_user s'\<rparr>)"
proof -
  obtain c s1 where c: "sd_sem (sy_dev S) = Suc c" "s' = s1\<lparr>io_dev := up (io_dev s1)\<rparr>"
    "job_body K (sy_globals S) j (sd_quantum (sy_dev S)) (sd_qset (sy_dev S))
      ((job_io S j)\<lparr>io_dev := (sy_dev S)\<lparr>sd_sem := c\<rparr>\<rparr>) = Inr (ret, s1)"
    using assms(3) by (auto simp: sem_bracket_def job_io_def down_interruptible_def kbind_Inr_iff split: nat.splits)
  show ?thesis using solo_run [where Q = Q, OF assms(1,2) c(1,3), of M] c(2) by simp
qed

lemma job_body_rw:
  "job_body K g (RdJob buf count f_pos) q n = scull_read_locked K q n buf count"
  "job_body K g (WrJob buf count f_pos) q n = scull_write_locked K q n buf count"
  by (rule ext, simp)+

lemma solo_read:
  assumes "Q (sy_globals S)" "sy_pc S i = Idle" "scull_read K False buf count (job_io S (RdJob buf count f_pos)) = Inr (ret, s')"
  shows "conc_reach K M (\<lambda>S. Q (sy_globals S)) S (S\<lparr>sy_heap := io_heap s', sy_dev := io_dev s', sy_user := io_user s'\<rparr>)"
  by (rule solo_bracket [where Q = Q, OF assms(1,2), of K "RdJob buf count f_pos" ret])
    (use assms(3) in \<open>simp add: job_body_rw scull_read_bracket job_io_def\<close>)

lemma solo_write:
  assumes "Q (sy_globals S)" "sy_pc S i = Idle" "scull_write K False buf count (job_io S (WrJob buf count f_pos)) = Inr (ret, s')"
  shows "conc_reach K M (\<lambda>S. Q (sy_globals S)) S (S\<lparr>sy_heap := io_heap s', sy_dev := io_dev s', sy_user := io_user s'\<rparr>)"
  by (rule solo_bracket [where Q = Q, OF assms(1,2), of K "WrJob buf count f_pos" ret])
    (use assms(3) in \<open>simp add: job_body_rw scull_write_bracket job_io_def\<close>)

lemma solo_open:
  assumes "Q (sy_globals S)" "sy_pc S i = Idle" "scull_open (sy_globals S) False 1 (sy_heap S) (sy_dev S) = Inr (ret, h', dev')"
  shows "conc_reach K M (\<lambda>S. Q (sy_globals S)) S (S\<lparr>sy_heap := h', sy_dev := dev'\<rparr>)"
proof -
  obtain c d where c: "sd_sem (sy_dev S) = Suc c" "dev' = up d"
    "scull_trim (sy_globals S) (sy_heap S) ((sy_dev S)\<lparr>sd_sem := c\<rparr>) = Inr (h', d)"
    using assms(3) by (auto simp: scull_open_def down_interruptible_def kbind_Inr_iff split: nat.splits)
  have "conc_reach K M (\<lambda>S. Q (sy_globals S)) S (S\<lparr>sy_heap := h', sy_dev := up d, sy_user := sy_user S\<rparr>)"
    using solo_run [where Q = Q, OF assms(1,2) c(1), of K TruncJob 0 "(job_io S TruncJob)\<lparr>io_heap := h', io_dev := d\<rparr>" M] c(3)
    by (simp add: job_io_def)
  then show ?thesis using c(2) by (cases S) simp
qed

section \<open>A stale geometry\<close>

lemma item_block_some:
  assumes "item_block h p s = Some bs"
  obtains it ps where "p \<noteq> NULL" "h p = Some (QsetObj it)" "qs_data it \<noteq> NULL"
    "h (qs_data it) = Some (PtrArr ps)" "ps ! s \<noteq> NULL" "h (ps ! s) = Some (Quantum bs)"
  using assms that
  by (auto simp: item_block_def deref_def split: if_splits option.splits scull_obj.splits)

text \<open>A write at position 0 with an old, larger quantum into a quantum of the new size.\<close>

lemma stale_write_overruns:
  assumes g: "geom_ok Q N" and cnt: "int (length bs) < min count Q" "count < 2 ^ 63" and pos: "io_pos s = 0"
    and blk: "item_block (io_heap s) (sd_data (io_dev s)) 0 = Some bs"
    and arr: "\<And>it ps. io_heap s (sd_data (io_dev s)) = Some (QsetObj it) \<Longrightarrow>
      io_heap s (qs_data it) = Some (PtrArr ps) \<Longrightarrow> ps \<noteq> []"
  shows "scull_write_locked K Q N buf count s = Inl OutOfBounds"
proof -
  note gb = geom_bounds [OF g]
  have loc: "scull_locate Q N 0 = Inr (0, 0, 0)"
    using scull_locate_ok [OF g, of 0] gb by (simp add: pos_ok_def)
  obtain it ps where b: "sd_data (io_dev s) \<noteq> NULL" "io_heap s (sd_data (io_dev s)) = Some (QsetObj it)"
    "qs_data it \<noteq> NULL" "io_heap s (qs_data it) = Some (PtrArr ps)" "ps ! 0 \<noteq> NULL"
    "io_heap s (ps ! 0) = Some (Quantum bs)"
    using blk by (rule item_block_some)
  have ps: "ps \<noteq> []" by (rule arr [OF b(2,4)])
  have fol: "scull_follow K (io_heap s) (io_dev s) 0 = Inr (sd_data (io_dev s), io_heap s, io_dev s)"
    using b(1) by (simp add: scull_follow_def follow_loop.simps)
  have wa: "write_array K N (io_heap s) (sd_data (io_dev s)) = Inr (qs_data it, io_heap s)"
    using b by (simp add: write_array_def load_qset_def kload_def)
  have wq: "write_quantum K Q (io_heap s) (qs_data it) 0 = Inr (ps ! 0, io_heap s)"
    using b ps by (simp add: write_quantum_def load_arr_def kload_def arr_get_def)
  have lq: "load_quantum (io_heap s) (ps ! 0) = Inr bs" using b by (simp add: load_quantum_def kload_def)
  have "clamp_to_quantum Q 0 count = min count Q" using gb by (simp add: clamp_to_quantum_min)
  then have "\<not> clamp_to_quantum Q 0 count \<le> int (length bs)" using cnt(1) by linarith
  then have "quantum_from_user K bs 0 (io_user s) buf (clamp_to_quantum Q 0 count) = Inl OutOfBounds"
    by (simp add: quantum_from_user_def)
  then show ?thesis
    using b by (simp add: scull_write_locked_def Let_def pos loc fol wa wq lq)
qed

section \<open>Properties\<close>

text \<open>C14: However many threads use the device and however their calls, signals, ioctls and crashes
  interleave, at most one is between \<open>down_interruptible\<close> and \<open>up\<close>, and the semaphore counts
  exactly that: it is 1 when nobody is there and 0 when somebody is.\<close>

theorem scull_mutual_exclusion:
  assumes "conc_reach K M P S0 S" "sd_sem (sy_dev S0) = 1" "\<And>i. sy_pc S0 i = Idle"
  shows "(\<exists>i. \<forall>k. inside (sy_pc S k) \<longrightarrow> k = i) \<and>
    sd_sem (sy_dev S) = (if \<exists>i. inside (sy_pc S i) then 0 else 1)"
proof -
  have "sem_inv S0" using assms(2,3) by (simp add: sem_inv_def)
  then have "sem_inv S" by (rule conc_reach_inv [OF assms(1)]) (rule sem_inv_step)
  then show ?thesis by (auto simp: sem_inv_def)
qed

definition demo_sys :: scull_sys where
  "demo_sys = \<lparr>sy_heap = Map.empty, sy_dev = demo_dev, sy_user = (\<lambda>a. word_of_int a),
     sy_globals = scull_params\<lparr>g_quantum := 4, g_qset := 2\<rparr>, sy_pc = (\<lambda>i. Idle)\<rparr>"

definition demo_entered :: scull_sys where
  "demo_entered = demo_sys\<lparr>sy_pc := (sy_pc demo_sys)(0 := Entered (WrJob 0 4 0) 4 2)\<rparr>"

lemma demo_enters: "conc_step K M demo_sys demo_entered"
  using enter [of demo_sys 0 K M "WrJob 0 4 0"]
  by (simp add: demo_entered_def demo_sys_def demo_dev_def)

lemma scull_mutual_exclusion_witness:
  "(\<exists>i. \<forall>k. inside (sy_pc demo_entered k) \<longrightarrow> k = i) \<and>
   sd_sem (sy_dev demo_entered) = (if \<exists>i. inside (sy_pc demo_entered i) then 0 else 1)"
proof -
  have r: "conc_reach demo_api linux_ioc (\<lambda>S. True) demo_sys demo_entered"
    by (rule conc_reach_one [OF demo_enters]) simp
  show ?thesis
    by (rule scull_mutual_exclusion [OF r]) (simp_all add: demo_sys_def demo_dev_def)
qed

text \<open>C13: As long as nobody changes the module parameters, no interleaving of reads, writes and
  write-only opens of any number of threads crashes or breaks the device: in every reachable
  state the device is well formed with its geometry, and no thread has faulted.\<close>

theorem scull_threads_safe:
  assumes "kapi_ok K" "conc_reach K M (steady q n) S0 S"
    and "scull_ok (sy_heap S0) (sy_dev S0) nds" "sd_quantum (sy_dev S0) = q" "sd_qset (sy_dev S0) = n"
    and "steady q n S0" "\<And>i. sy_pc S0 i = Idle"
  shows "\<exists>nds'. scull_ok (sy_heap S) (sy_dev S) nds' \<and> sd_quantum (sy_dev S) = q \<and> sd_qset (sy_dev S) = n \<and>
    (\<forall>i f. sy_pc S i \<noteq> Crashed f)"
proof -
  have "dev_inv q n S0" using assms(3-7) by (auto simp: dev_inv_def steady_def)
  then have "dev_inv q n S"
    by (rule conc_reach_inv [OF assms(2)]) (rule dev_inv_step [OF assms(1)])
  then have inv: "\<exists>nds. scull_ok (sy_heap S) (sy_dev S) nds" "sd_quantum (sy_dev S) = q" "sd_qset (sy_dev S) = n"
    "\<And>i. pc_ok q n (sy_pc S i)" by (simp_all add: dev_inv_def)
  have "sy_pc S i \<noteq> Crashed f" for i f using inv(4) [of i] by auto
  then show ?thesis using inv(1-3) by blast
qed

lemma scull_threads_safe_witness:
  "\<exists>nds'. scull_ok (sy_heap demo_entered) (sy_dev demo_entered) nds' \<and>
    (\<forall>i f. sy_pc demo_entered i \<noteq> Crashed f)"
proof -
  have p: "pos_ok 4 2 0" by (simp add: pos_ok_def)
  have st: "steady 4 2 demo_sys" "steady 4 2 demo_entered"
    using p by (simp_all add: steady_def demo_entered_def demo_sys_def)
  have r: "conc_reach demo_api linux_ioc (steady 4 2) demo_sys demo_entered"
    by (rule conc_reach_one) (rule demo_enters, rule st(2))
  have ok: "scull_ok (sy_heap demo_sys) (sy_dev demo_sys) []"
    using demo_ok(1) [of 0] by (simp add: demo_sys_def demo_io_def)
  have "\<exists>nds'. scull_ok (sy_heap demo_entered) (sy_dev demo_entered) nds' \<and>
      sd_quantum (sy_dev demo_entered) = 4 \<and> sd_qset (sy_dev demo_entered) = 2 \<and>
      (\<forall>i f. sy_pc demo_entered i \<noteq> Crashed f)"
    by (rule scull_threads_safe [OF sample_kapi_ok r ok _ _ st(1)]) (simp_all add: demo_sys_def demo_dev_def)
  then show ?thesis by blast
qed

text \<open>The sequential operations are the runs of one thread that nobody interrupts: whatever
  \<open>scull_read\<close>, \<open>scull_write\<close> and a write-only \<open>scull_open\<close> compute, the system reaches.\<close>

lemma scull_calls_are_runs:
  assumes "sy_pc S i = Idle"
  shows "(\<forall>ret s'. scull_read K False buf count (job_io S (RdJob buf count f_pos)) = Inr (ret, s') \<longrightarrow>
      conc_reach K M (\<lambda>S. True) S (S\<lparr>sy_heap := io_heap s', sy_dev := io_dev s', sy_user := io_user s'\<rparr>)) \<and>
    (\<forall>ret s'. scull_write K False buf count (job_io S (WrJob buf count f_pos)) = Inr (ret, s') \<longrightarrow>
      conc_reach K M (\<lambda>S. True) S (S\<lparr>sy_heap := io_heap s', sy_dev := io_dev s', sy_user := io_user s'\<rparr>)) \<and>
    (\<forall>ret h' dev'. scull_open (sy_globals S) False 1 (sy_heap S) (sy_dev S) = Inr (ret, h', dev') \<longrightarrow>
      conc_reach K M (\<lambda>S. True) S (S\<lparr>sy_heap := h', sy_dev := dev'\<rparr>))"
  using solo_read [where Q = "\<lambda>g. True", OF TrueI assms] solo_write [where Q = "\<lambda>g. True", OF TrueI assms]
    solo_open [where Q = "\<lambda>g. True", OF TrueI assms] by blast

lemma scull_calls_are_runs_witness:
  "conc_reach demo_api linux_ioc (\<lambda>S. True) demo_sys
     (demo_sys\<lparr>sy_heap := Map.empty, sy_dev := demo_dev\<rparr>)"
proof -
  have "scull_open (sy_globals demo_sys) False 1 (sy_heap demo_sys) (sy_dev demo_sys) = Inr (0, Map.empty, demo_dev)"
    by (simp add: scull_open_def down_interruptible_def demo_sys_def demo_dev_def scull_trim_def
        trim_list.simps up_def)
  then show ?thesis
    using scull_calls_are_runs [of demo_sys 0 demo_api 0 0 0 linux_ioc] by (simp add: demo_sys_def)
qed

definition arrays_nonempty :: "scull_heap \<Rightarrow> scull_dev \<Rightarrow> bool" where
  "arrays_nonempty h dev \<longleftrightarrow>
     (case h (sd_data dev) of Some (QsetObj it) \<Rightarrow>
        (case h (qs_data it) of Some (PtrArr ps) \<Rightarrow> ps \<noteq> [] | _ \<Rightarrow> True)
      | _ \<Rightarrow> True)"

lemma demo_tell:
  "scull_ioctl demo_api linux_ioc (SCULL_IOCTQUANTUM linux_ioc) 2 (sy_globals demo_sys) (sy_user demo_sys) =
     (0, (sy_globals demo_sys)\<lparr>g_quantum := 2\<rparr>, sy_user demo_sys)"
proof -
  have "IOC_TYPE linux_ioc (SCULL_IOCTQUANTUM linux_ioc) = SCULL_IOC_MAGIC"
    "IOC_NR linux_ioc (SCULL_IOCTQUANTUM linux_ioc) \<le> SCULL_IOC_MAXNR"
    "\<not> ioctl_access_err demo_api linux_ioc (SCULL_IOCTQUANTUM linux_ioc) 2"
    "SCULL_IOCTQUANTUM linux_ioc \<noteq> SCULL_IOCRESET linux_ioc"
    "SCULL_IOCTQUANTUM linux_ioc \<noteq> SCULL_IOCSQUANTUM linux_ioc"
    by code_simp+
  then show ?thesis
    by (simp add: scull_ioctl_def ioctl_switch_def sample_api_def s32_id)
qed

text \<open>A write of four bytes at position 0 with the geometry of the device stores two.\<close>

abbreviation (input) write_now :: "scull_io \<Rightarrow> (int \<times> scull_io) res" where
  "write_now s \<equiv> scull_write_locked demo_api (sd_quantum (io_dev s)) (sd_qset (io_dev s)) 0 4
     (s\<lparr>io_dev := (io_dev s)\<lparr>sd_sem := 0\<rparr>, io_pos := 0\<rparr>)"

definition stores_two :: "scull_io \<Rightarrow> bool" where
  "stores_two s \<longleftrightarrow> (case write_now s of Inl f \<Rightarrow> False | Inr (r, s') \<Rightarrow> r = 2)"

lemma stores_two_run: "stores_two s \<Longrightarrow> \<exists>s'. write_now s = Inr (2, s')"
  by (auto simp: stores_two_def split: sum.splits)

lemma demo_short_write:
  "\<exists>s4 bs s5 nds. scull_write demo_api False 0 1 ((demo_io 0)\<lparr>io_dev := demo_dev\<lparr>sd_quantum := 2\<rparr>\<rparr>) = Inr (1, s4) \<and>
     item_block (io_heap s4) (sd_data (io_dev s4)) 0 = Some bs \<and> length bs = 2 \<and> sd_sem (io_dev s4) = 1 \<and>
     arrays_nonempty (io_heap s4) (io_dev s4) \<and> sd_quantum (io_dev s4) = 2 \<and> sd_qset (io_dev s4) = 2 \<and>
     write_now s4 = Inr (2, s5) \<and> scull_ok (io_heap s4) (io_dev s4) nds"
proof -
  let ?s = "(demo_io 0)\<lparr>io_dev := demo_dev\<lparr>sd_quantum := 2\<rparr>\<rparr>"
  have "case scull_write demo_api False 0 1 ?s of
      Inl _ \<Rightarrow> False
    | Inr (ret, s4) \<Rightarrow> ret = 1 \<and> map_option length (item_block (io_heap s4) (sd_data (io_dev s4)) 0) = Some 2 \<and>
        sd_sem (io_dev s4) = 1 \<and> arrays_nonempty (io_heap s4) (io_dev s4) \<and>
        sd_quantum (io_dev s4) = 2 \<and> sd_qset (io_dev s4) = 2 \<and>
        stores_two s4"
    by code_simp
  then obtain s4 bs where w: "scull_write demo_api False 0 1 ?s = Inr (1, s4)"
    "item_block (io_heap s4) (sd_data (io_dev s4)) 0 = Some bs" "length bs = 2" "sd_sem (io_dev s4) = 1"
    "arrays_nonempty (io_heap s4) (io_dev s4)" "sd_quantum (io_dev s4) = 2" "sd_qset (io_dev s4) = 2"
    "stores_two s4"
    by (auto split: sum.splits)
  have "scull_ok (io_heap ?s) (io_dev ?s) []"
    by (simp add: scull_ok_def geom_ok_def scull_rep_def nodes_def demo_io_def demo_dev_def)
  moreover have "sd_sem (io_dev ?s) = Suc 0" "pos_ok (sd_quantum (io_dev ?s)) (sd_qset (io_dev ?s)) (io_pos ?s)"
    "io_pos ?s + 1 < 2 ^ 63"
    by (simp_all add: demo_io_def demo_dev_def pos_ok_def)
  ultimately have "\<exists>ret s' nds. scull_write demo_api False 0 1 ?s = Inr (ret, s') \<and> write_frame ?s [] s' nds \<and>
      write_outcome demo_api 0 1 ?s ret s'"
    by (intro scull_write_runs [OF sample_kmalloc_ok sample_copy_from_ok]) simp_all
  then obtain nds where "scull_ok (io_heap s4) (io_dev s4) nds"
    unfolding w(1) write_frame_def by blast
  then show ?thesis using w stores_two_run [OF w(8)] by blast
qed

text \<open>Parameters a device can work with.\<close>

definition sane_params :: "scull_globals \<Rightarrow> bool" where
  "sane_params g \<longleftrightarrow> geom_ok (g_quantum g) (g_qset g)"

text \<open>C12: The geometry is read outside the semaphore, and that is a race. With module parameters
  that are sane all along, a run of two threads reaches a state where the device is well formed
  with a quantum of two bytes, the first thread is inside a write of four bytes at position 0 and
  works with the four-byte quantum it copied before it had the semaphore: a Tell command had
  changed the parameter, and the second thread had emptied the device by a write-only open and
  written a byte. The same write with the geometry the device has now would store two bytes;
  the next step of the first thread writes past the end of the quantum.\<close>

theorem scull_geometry_race:
  "\<exists>S1 S2. conc_reach demo_api linux_ioc (\<lambda>S. sane_params (sy_globals S)) demo_sys S1 \<and>
     (\<exists>nds. scull_ok (sy_heap S1) (sy_dev S1) nds) \<and> sd_quantum (sy_dev S1) = 2 \<and> sd_qset (sy_dev S1) = 2 \<and>
     sy_pc S1 0 = Locked (WrJob 0 4 0) 4 2 \<and>
     (\<exists>s'. job_body demo_api (sy_globals S1) (WrJob 0 4 0) (sd_quantum (sy_dev S1)) (sd_qset (sy_dev S1))
       (job_io S1 (WrJob 0 4 0)) = Inr (2, s')) \<and>
     conc_step demo_api linux_ioc S1 S2 \<and> sy_pc S2 0 = Crashed OutOfBounds"
proof -
  let ?K = demo_api
  let ?R = "conc_reach ?K linux_ioc (\<lambda>S. sane_params (sy_globals S))"
  let ?g = "(sy_globals demo_sys)\<lparr>g_quantum := 2\<rparr>"
  define S2 where "S2 = demo_entered\<lparr>sy_globals := ?g, sy_user := sy_user demo_sys\<rparr>"
  define S3 where "S3 = S2\<lparr>sy_heap := Map.empty, sy_dev := demo_dev\<lparr>sd_quantum := 2\<rparr>\<rparr>"
  have sane: "sane_params (sy_globals demo_entered)" "sane_params (sy_globals S2)" "sane_params (sy_globals S3)"
    by (simp_all add: sane_params_def geom_ok_def S3_def S2_def demo_entered_def demo_sys_def)
  have 2: "conc_step ?K linux_ioc demo_entered S2"
    unfolding S2_def using demo_tell by (intro tune) (simp add: demo_entered_def)
  have r2: "?R demo_sys S2"
    by (rule reach_step [OF conc_reach_one [OF demo_enters] 2]) (use sane in simp_all)
  have "scull_open (sy_globals S2) False 1 (sy_heap S2) (sy_dev S2) = Inr (0, Map.empty, demo_dev\<lparr>sd_quantum := 2\<rparr>)"
    by (simp add: S2_def demo_entered_def scull_open_def down_interruptible_def demo_sys_def demo_dev_def
        scull_trim_def trim_list.simps up_def scull_params_def)
  moreover have idle: "sy_pc S2 1 = Idle" "sy_pc S3 1 = Idle"
    by (simp_all add: S3_def S2_def demo_entered_def demo_sys_def)
  ultimately have r3: "?R S2 S3" unfolding S3_def by (intro solo_open [where Q = sane_params, OF sane(2)])
  have io3: "job_io S3 (WrJob 0 1 0) = (demo_io 0)\<lparr>io_dev := demo_dev\<lparr>sd_quantum := 2\<rparr>\<rparr>"
    by (simp add: job_io_def S3_def S2_def demo_entered_def demo_sys_def demo_io_def)
  obtain s4 bs s5 nds where w: "scull_write ?K False 0 1 (job_io S3 (WrJob 0 1 0)) = Inr (1, s4)"
    "item_block (io_heap s4) (sd_data (io_dev s4)) 0 = Some bs" "length bs = 2" "sd_sem (io_dev s4) = 1"
    "arrays_nonempty (io_heap s4) (io_dev s4)"
    and now: "sd_quantum (io_dev s4) = 2" "sd_qset (io_dev s4) = 2" "write_now s4 = Inr (2, s5)"
    "scull_ok (io_heap s4) (io_dev s4) nds"
    using demo_short_write unfolding io3 by blast
  define S4 where "S4 = S3\<lparr>sy_heap := io_heap s4, sy_dev := io_dev s4, sy_user := io_user s4\<rparr>"
  have r4: "?R S3 S4" unfolding S4_def by (rule solo_write [where Q = sane_params, OF sane(3) idle(2) w(1)])
  define S5 where "S5 = S4\<lparr>sy_dev := (sy_dev S4)\<lparr>sd_sem := 0\<rparr>, sy_pc := (sy_pc S4)(0 := Locked (WrJob 0 4 0) 4 2)\<rparr>"
  have p4: "sy_pc S4 0 = Entered (WrJob 0 4 0) 4 2" by (simp add: S4_def S3_def S2_def demo_entered_def)
  have 5: "conc_step ?K linux_ioc S4 S5"
    unfolding S5_def using p4 by (rule acquire) (simp add: S4_def down_interruptible_def w(4))
  have r5: "?R demo_sys S5"
    by (rule reach_step [OF conc_reach_trans [OF r4 conc_reach_trans [OF r3 r2]] 5])
      (use sane(3) in \<open>simp add: S5_def S4_def\<close>)
  have io5: "job_io S5 (WrJob 0 4 0) = s4\<lparr>io_dev := (io_dev s4)\<lparr>sd_sem := 0\<rparr>, io_pos := 0\<rparr>"
    by (simp add: job_io_def S5_def S4_def)
  have dev5: "sy_dev S5 = (io_dev s4)\<lparr>sd_sem := 0\<rparr>" "sy_heap S5 = io_heap s4" by (simp_all add: S5_def S4_def)
  have body: "scull_write_locked ?K 4 2 0 4 (job_io S5 (WrJob 0 4 0)) = Inl OutOfBounds"
    by (rule stale_write_overruns [where bs = bs])
      (use w(2,3,5) in \<open>simp_all add: S5_def S4_def job_io_def geom_ok_def arrays_nonempty_def\<close>)
  define S6 where "S6 = S5\<lparr>sy_pc := (sy_pc S5)(0 := Crashed OutOfBounds)\<rparr>"
  have 6: "conc_step ?K linux_ioc S5 S6"
    unfolding S6_def by (rule crash [where j = "WrJob 0 4 0" and q = 4 and n = 2]) (use body in \<open>simp_all add: S5_def\<close>)
  have "scull_ok (sy_heap S5) (sy_dev S5) nds" using now(4) by (simp add: dev5 scull_ok_def scull_rep_def)
  moreover have "sy_pc S5 0 = Locked (WrJob 0 4 0) 4 2" "sy_pc S6 0 = Crashed OutOfBounds"
    by (simp_all add: S6_def S5_def)
  moreover have "job_body ?K (sy_globals S5) (WrJob 0 4 0) (sd_quantum (sy_dev S5)) (sd_qset (sy_dev S5))
      (job_io S5 (WrJob 0 4 0)) = Inr (2, s5)"
    using now(3) by (simp add: io5 dev5)
  ultimately show ?thesis
    using r5 6 now(1,2) by (intro exI [of _ S5] exI [of _ S6]) (auto simp: dev5)
qed

end
