(* ===== verification/ScullLin.thy ===== *)
theory ScullLin
  imports ScullConc
begin

text \<open>
  The threads of \<open>ScullConc\<close>, seen from outside: a run is a list of events, the calls and returns
  of the threads among them. While the parameters stay, every run gives the results, and leaves
  the device, of the sequential operations executed one after the other, each at a point
  between its call and its return: the device is linearizable, and the point is the work done
  under the semaphore.
\<close>

section \<open>Events\<close>

datatype event = Invoke nat job | Interrupt nat | Acquire nat | Effect nat job int | Fault nat fault
  | Return nat int | Seek nat int int int int | Tune int int int | Poke umem

text \<open>The step of an event; \<open>None\<close> if the event cannot happen.\<close>

fun perform :: "kapi \<Rightarrow> ioc \<Rightarrow> event \<Rightarrow> scull_sys \<Rightarrow> scull_sys option" where
  "perform K M (Invoke i j) S =
     (if sy_pc S i = Idle then Some (S\<lparr>sy_pc := (sy_pc S)(i := Entered j (sd_quantum (sy_dev S)) (sd_qset (sy_dev S)))\<rparr>)
      else None)"
| "perform K M (Interrupt i) S =
     (case sy_pc S i of Entered j q n \<Rightarrow> Some (S\<lparr>sy_pc := (sy_pc S)(i := Idle)\<rparr>) | _ \<Rightarrow> None)"
| "perform K M (Acquire i) S =
     (case sy_pc S i of Entered j q n \<Rightarrow>
        (case down_interruptible False (sy_dev S) of
           Inr (r, dev) \<Rightarrow> if r = 0 then Some (S\<lparr>sy_dev := dev, sy_pc := (sy_pc S)(i := Locked j q n)\<rparr>) else None
         | Inl f \<Rightarrow> None)
      | _ \<Rightarrow> None)"
| "perform K M (Effect i j ret) S =
     (case sy_pc S i of Locked j' q n \<Rightarrow>
        (case job_body K (sy_globals S) j' q n (job_io S j') of
           Inr (r, s') \<Rightarrow> if j' = j \<and> r = ret
             then Some (S\<lparr>sy_heap := io_heap s', sy_dev := io_dev s', sy_user := io_user s', sy_pc := (sy_pc S)(i := Leaving r)\<rparr>)
             else None
         | Inl f \<Rightarrow> None)
      | _ \<Rightarrow> None)"
| "perform K M (Fault i f) S =
     (case sy_pc S i of Locked j q n \<Rightarrow>
        (case job_body K (sy_globals S) j q n (job_io S j) of
           Inl f' \<Rightarrow> if f' = f then Some (S\<lparr>sy_pc := (sy_pc S)(i := Crashed f)\<rparr>) else None
         | Inr x \<Rightarrow> None)
      | _ \<Rightarrow> None)"
| "perform K M (Return i ret) S =
     (if sy_pc S i = Leaving ret then Some (S\<lparr>sy_dev := up (sy_dev S), sy_pc := (sy_pc S)(i := Idle)\<rparr>) else None)"
| "perform K M (Seek i f_pos off whence r) S =
     (if sy_pc S i = Idle \<and> fst (scull_llseek (sy_dev S) f_pos off whence) = r then Some S else None)"
| "perform K M (Tune cmd arg r) S =
     (case scull_ioctl K M cmd arg (sy_globals S) (sy_user S) of
        (r', g', um') \<Rightarrow> if r' = r then Some (S\<lparr>sy_globals := g', sy_user := um'\<rparr>) else None)"
| "perform K M (Poke um) S = Some (S\<lparr>sy_user := um\<rparr>)"

fun perform_all :: "kapi \<Rightarrow> ioc \<Rightarrow> event list \<Rightarrow> scull_sys \<Rightarrow> scull_sys option" where
  "perform_all K M [] S = Some S"
| "perform_all K M (e # es) S = (case perform K M e S of None \<Rightarrow> None | Some S' \<Rightarrow> perform_all K M es S')"

text \<open>Events and steps are the same.\<close>

lemma perform_step: "perform K M e S = Some S' \<Longrightarrow> conc_step K M S S'"
  by (cases e)
    (auto split: pc.splits sum.splits prod.splits if_splits
      intro: conc_step.intros seek [where r = "fst x" and f_pos' = "snd x" for x])

lemma step_perform: "conc_step K M S S' \<Longrightarrow> \<exists>e. perform K M e S = Some S'"
proof (induction S S' rule: conc_step.induct)
  case (enter S i j)
  then show ?case by (intro exI [of _ "Invoke i j"]) simp
next
  case (signal S i j q n)
  then show ?case by (intro exI [of _ "Interrupt i"]) simp
next
  case (acquire S i j q n dev)
  then show ?case by (intro exI [of _ "Acquire i"]) simp
next
  case (work S i j q n ret s')
  then show ?case by (intro exI [of _ "Effect i j ret"]) simp
next
  case (crash S i j q n f)
  then show ?case by (intro exI [of _ "Fault i f"]) simp
next
  case (leave S i ret)
  then show ?case by (intro exI [of _ "Return i ret"]) simp
next
  case (tune cmd arg S r g' um')
  then show ?case by (intro exI [of _ "Tune cmd arg r"]) simp
next
  case (user S um')
  show ?case by (intro exI [of _ "Poke um'"]) simp
next
  case (seek S i f_pos off whence r f_pos')
  then show ?case by (intro exI [of _ "Seek i f_pos off whence r"]) simp
qed

section \<open>The sequential device\<close>

text \<open>What the threads share, when none is inside.\<close>

record shared =
  sh_heap :: scull_heap
  sh_dev :: scull_dev
  sh_user :: umem
  sh_globals :: scull_globals

definition shared_of :: "scull_sys \<Rightarrow> shared" where
  "shared_of S = \<lparr>sh_heap = sy_heap S, sh_dev = (sy_dev S)\<lparr>sd_sem := 1\<rparr>, sh_user = sy_user S, sh_globals = sy_globals S\<rparr>"

fun seq_job :: "kapi \<Rightarrow> job \<Rightarrow> shared \<Rightarrow> (int \<times> shared) res" where
  "seq_job K (RdJob buf count f_pos) X =
     kbind (scull_read K False buf count \<lparr>io_heap = sh_heap X, io_dev = sh_dev X, io_user = sh_user X, io_pos = f_pos\<rparr>)
       (\<lambda>(r, s). Inr (r, X\<lparr>sh_heap := io_heap s, sh_dev := io_dev s, sh_user := io_user s\<rparr>))"
| "seq_job K (WrJob buf count f_pos) X =
     kbind (scull_write K False buf count \<lparr>io_heap = sh_heap X, io_dev = sh_dev X, io_user = sh_user X, io_pos = f_pos\<rparr>)
       (\<lambda>(r, s). Inr (r, X\<lparr>sh_heap := io_heap s, sh_dev := io_dev s, sh_user := io_user s\<rparr>))"
| "seq_job K TruncJob X =
     kbind (scull_open (sh_globals X) False O_WRONLY (sh_heap X) (sh_dev X))
       (\<lambda>(r, h, dev). Inr (r, X\<lparr>sh_heap := h, sh_dev := dev\<rparr>))"

text \<open>The sequential operations at the points of the effects; the other events leave what is
  shared alone.\<close>

fun seq_event :: "kapi \<Rightarrow> ioc \<Rightarrow> event \<Rightarrow> shared \<Rightarrow> shared option" where
  "seq_event K M (Effect i j ret) X = (case seq_job K j X of Inr (r, X') \<Rightarrow> if r = ret then Some X' else None | Inl f \<Rightarrow> None)"
| "seq_event K M (Seek i f_pos off whence r) X =
     (if fst (scull_llseek (sh_dev X) f_pos off whence) = r then Some X else None)"
| "seq_event K M (Tune cmd arg r) X =
     (case scull_ioctl K M cmd arg (sh_globals X) (sh_user X) of
        (r', g', um') \<Rightarrow> if r' = r then Some (X\<lparr>sh_globals := g', sh_user := um'\<rparr>) else None)"
| "seq_event K M (Poke um) X = Some (X\<lparr>sh_user := um\<rparr>)"
| "seq_event K M (Fault i f) X = None"
| "seq_event K M _ X = Some X"

fun seq_events :: "kapi \<Rightarrow> ioc \<Rightarrow> event list \<Rightarrow> shared \<Rightarrow> shared option" where
  "seq_events K M [] X = Some X"
| "seq_events K M (e # es) X = (case seq_event K M e X of None \<Rightarrow> None | Some X' \<Rightarrow> seq_events K M es X')"

section \<open>Calls and returns\<close>

text \<open>Where a thread is between its calls: outside, in a call that has had no effect yet, or in one
  that has and will return its result.\<close>

datatype phase = Outside | Called job | Done int

fun phase_step :: "nat \<Rightarrow> event \<Rightarrow> phase \<Rightarrow> phase option" where
  "phase_step i (Invoke k j) p = (if k \<noteq> i then Some p else if p = Outside then Some (Called j) else None)"
| "phase_step i (Interrupt k) p = (if k \<noteq> i then Some p else case p of Called j \<Rightarrow> Some Outside | _ \<Rightarrow> None)"
| "phase_step i (Acquire k) p = (if k \<noteq> i then Some p else case p of Called j \<Rightarrow> Some p | _ \<Rightarrow> None)"
| "phase_step i (Effect k j r) p = (if k \<noteq> i then Some p else if p = Called j then Some (Done r) else None)"
| "phase_step i (Return k r) p = (if k \<noteq> i then Some p else if p = Done r then Some Outside else None)"
| "phase_step i (Seek k f_pos off whence r) p = (if k \<noteq> i then Some p else if p = Outside then Some p else None)"
| "phase_step i (Fault k f) p = (if k \<noteq> i then Some p else None)"
| "phase_step i (Tune cmd arg r) p = Some p"
| "phase_step i (Poke um) p = Some p"

fun phases :: "nat \<Rightarrow> event list \<Rightarrow> phase \<Rightarrow> phase option" where
  "phases i [] p = Some p"
| "phases i (e # es) p = (case phase_step i e p of None \<Rightarrow> None | Some p' \<Rightarrow> phases i es p')"

fun phase_of :: "pc \<Rightarrow> phase" where
  "phase_of (Entered j q n) = Called j"
| "phase_of (Locked j q n) = Called j"
| "phase_of (Leaving r) = Done r"
| "phase_of _ = Outside"

section \<open>One event\<close>

text \<open>What the environment grants: positions and counts in range, and parameters that stay.\<close>

fun steady_event :: "kapi \<Rightarrow> ioc \<Rightarrow> int \<Rightarrow> int \<Rightarrow> event \<Rightarrow> scull_sys \<Rightarrow> bool" where
  "steady_event K M q n (Invoke i j) S = job_ok q n j"
| "steady_event K M q n (Tune cmd arg r) S =
     (case scull_ioctl K M cmd arg (sy_globals S) (sy_user S) of (r', g', um') \<Rightarrow> g_quantum g' = q \<and> g_qset g' = n)"
| "steady_event K M q n e S = True"

fun steady_run :: "kapi \<Rightarrow> ioc \<Rightarrow> int \<Rightarrow> int \<Rightarrow> event list \<Rightarrow> scull_sys \<Rightarrow> bool" where
  "steady_run K M q n [] S = True"
| "steady_run K M q n (e # es) S = (steady_event K M q n e S \<and>
     (case perform K M e S of None \<Rightarrow> True | Some S' \<Rightarrow> steady_run K M q n es S'))"

definition lin_inv :: "int \<Rightarrow> int \<Rightarrow> scull_sys \<Rightarrow> bool" where
  "lin_inv q n S \<longleftrightarrow> sem_inv S \<and> dev_inv q n S"

lemma inv_steady: "dev_inv q n S \<Longrightarrow> steady q n S"
  unfolding dev_inv_def steady_def by (metis pc_ok.simps(1))

lemma perform_steady:
  assumes "dev_inv q n S" "steady_event K M q n e S" "perform K M e S = Some S'"
  shows "steady q n S'"
proof -
  have old: "job_ok q n j" if "sy_pc S i = Entered j q' n'" for i j q' n'
    using inv_steady [OF assms(1)] that unfolding steady_def by blast
  have "sy_pc S i = Entered j q' n' \<or> e = Invoke i j" if "sy_pc S' i = Entered j q' n'" for i j q' n'
    using assms(3) that by (cases e) (auto split: pc.splits sum.splits prod.splits if_splits)
  then have "job_ok q n j" if "sy_pc S' i = Entered j q' n'" for i j q' n'
    using old assms(2) that by fastforce
  moreover have "g_quantum (sy_globals S') = q \<and> g_qset (sy_globals S') = n"
    using assms by (cases e) (auto simp: dev_inv_def split: pc.splits sum.splits prod.splits if_splits)
  ultimately show ?thesis unfolding steady_def by blast
qed

lemma lin_inv_step:
  assumes "kapi_ok K" "lin_inv q n S" "steady_event K M q n e S" "perform K M e S = Some S'"
  shows "lin_inv q n S'"
proof -
  note step = perform_step [OF assms(4)]
  have "sem_inv S" "dev_inv q n S" using assms(2) by (simp_all add: lin_inv_def)
  then show ?thesis
    using sem_inv_step [OF step] dev_inv_step [OF assms(1) _ step perform_steady [OF _ assms(3,4)]]
    by (simp add: lin_inv_def)
qed

text \<open>The work under the semaphore is the whole sequential operation.\<close>

lemma up_sem: "sd_sem d = 0 \<Longrightarrow> up d = d\<lparr>sd_sem := 1\<rparr>"
  by (simp add: up_def)

lemma bracket_once:
  assumes "body (s\<lparr>io_dev := dev\<rparr>) = Inr (ret, s')" "sd_sem dev = 0" "sd_sem (io_dev s') = 0"
  shows "sem_bracket body False (s\<lparr>io_dev := dev\<lparr>sd_sem := 1\<rparr>\<rparr>) = Inr (ret, s'\<lparr>io_dev := (io_dev s')\<lparr>sd_sem := 1\<rparr>\<rparr>)"
proof -
  have "dev\<lparr>sd_sem := 0\<rparr> = dev" using assms(2) by (cases dev) simp
  then have "body (s\<lparr>io_dev := dev\<lparr>sd_sem := 0\<rparr>\<rparr>) = Inr (ret, s')" using assms(1) by (simp only:)
  then show ?thesis using assms by (simp add: sem_bracket_def down_interruptible_def up_sem)
qed

lemma job_seq:
  assumes body: "job_body K (sy_globals S) j q n (job_io S j) = Inr (ret, s')"
    and sem: "sd_sem (sy_dev S) = 0" and geo: "sd_quantum (sy_dev S) = q" "sd_qset (sy_dev S) = n"
  shows "seq_job K j (shared_of S) = Inr (ret, (shared_of S)\<lparr>sh_heap := io_heap s',
    sh_dev := (io_dev s')\<lparr>sd_sem := 1\<rparr>, sh_user := io_user s'\<rparr>)"
proof -
  have sem': "sd_sem (io_dev s') = 0" using job_body_sem [OF body] sem by (simp add: job_io_def)
  show ?thesis
  proof (cases j)
    case (RdJob buf count f_pos)
    have "sem_bracket (scull_read_locked K q n buf count) False ((job_io S j)\<lparr>io_dev := (sy_dev S)\<lparr>sd_sem := 1\<rparr>\<rparr>) =
        Inr (ret, s'\<lparr>io_dev := (io_dev s')\<lparr>sd_sem := 1\<rparr>\<rparr>)"
      by (rule bracket_once [OF _ sem sem']) (use body RdJob in \<open>simp add: job_io_def\<close>)
    then show ?thesis
      using RdJob geo by (simp add: scull_read_bracket shared_of_def job_io_def)
  next
    case (WrJob buf count f_pos)
    have "sem_bracket (scull_write_locked K q n buf count) False ((job_io S j)\<lparr>io_dev := (sy_dev S)\<lparr>sd_sem := 1\<rparr>\<rparr>) =
        Inr (ret, s'\<lparr>io_dev := (io_dev s')\<lparr>sd_sem := 1\<rparr>\<rparr>)"
      by (rule bracket_once [OF _ sem sem']) (use body WrJob in \<open>simp add: job_io_def\<close>)
    then show ?thesis
      using WrJob geo by (simp add: scull_write_bracket shared_of_def job_io_def)
  next
    case TruncJob
    then obtain h d where t: "scull_trim (sy_globals S) (sy_heap S) (sy_dev S) = Inr (h, d)" "ret = 0"
      "s' = (job_io S j)\<lparr>io_heap := h, io_dev := d\<rparr>"
      using body by (auto simp: job_io_def kbind_Inr_iff)
    have "(sy_dev S)\<lparr>sd_sem := 0\<rparr> = sy_dev S" using sem by simp
    then show ?thesis
      using t TruncJob sem' by (simp add: scull_open_def down_interruptible_def shared_of_def job_io_def up_sem)
  qed
qed

lemma perform_seq:
  assumes inv: "lin_inv q n S" and K: "kapi_ok K" and e: "perform K M e S = Some S'"
    and st: "steady_event K M q n e S"
  shows "seq_event K M e (shared_of S) = Some (shared_of S')"
    and "phase_step i e (phase_of (sy_pc S i)) = Some (phase_of (sy_pc S' i))"
proof -
  have inv': "lin_inv q n S'" by (rule lin_inv_step [OF K inv st e])
  have "sy_pc S' k \<noteq> Crashed f" for k f using inv' by (auto simp: lin_inv_def dev_inv_def dest: spec [of _ k])
  note safe = this
  show "seq_event K M e (shared_of S) = Some (shared_of S')"
  proof (cases e)
    case (Effect k j ret)
    then obtain q' n' s' where pc: "sy_pc S k = Locked j q' n'" and body: "job_body K (sy_globals S) j q' n' (job_io S j) = Inr (ret, s')"
      and S': "S' = S\<lparr>sy_heap := io_heap s', sy_dev := io_dev s', sy_user := io_user s', sy_pc := (sy_pc S)(k := Leaving ret)\<rparr>"
      using e by (auto split: pc.splits sum.splits prod.splits if_splits)
    have "inside (sy_pc S k)" by (simp add: pc)
    then have sem: "sd_sem (sy_dev S) = 0" using inv by (auto simp: lin_inv_def sem_inv_def)
    have "pc_ok q n (sy_pc S k)" and geo: "sd_quantum (sy_dev S) = q" "sd_qset (sy_dev S) = n"
      using inv by (simp_all add: lin_inv_def dev_inv_def)
    then have "q' = q" "n' = n" by (simp_all add: pc)
    then show ?thesis
      using job_seq [OF body sem] geo Effect by (simp add: S' shared_of_def)
  next
    case (Fault k f)
    then have "sy_pc S' k = Crashed f" using e by (auto split: pc.splits sum.splits if_splits)
    then show ?thesis using safe by blast
  next
    case (Seek k f_pos off whence r)
    then show ?thesis using e by (auto simp: scull_llseek_def shared_of_def Let_def split: if_splits)
  qed (use e in \<open>auto simp: shared_of_def up_def down_interruptible_def split: pc.splits sum.splits prod.splits if_splits nat.splits\<close>)
  show "phase_step i e (phase_of (sy_pc S i)) = Some (phase_of (sy_pc S' i))"
  proof (cases e)
    case (Fault k f)
    then have "sy_pc S' k = Crashed f" using e by (auto split: pc.splits sum.splits if_splits)
    then show ?thesis using safe by blast
  qed (use e in \<open>auto split: pc.splits sum.splits prod.splits if_splits\<close>)
qed

lemma perform_all_seq:
  assumes "kapi_ok K"
  shows "lin_inv q n S \<Longrightarrow> perform_all K M es S = Some S' \<Longrightarrow> steady_run K M q n es S \<Longrightarrow>
    seq_events K M es (shared_of S) = Some (shared_of S') \<and>
    (\<forall>i. phases i es (phase_of (sy_pc S i)) = Some (phase_of (sy_pc S' i)))"
proof (induction es arbitrary: S)
  case (Cons e es)
  then obtain S1 where e: "perform K M e S = Some S1" and es: "perform_all K M es S1 = Some S'"
    by (auto split: option.splits)
  have st: "steady_event K M q n e S" "steady_run K M q n es S1" using Cons.prems(3) e by simp_all
  have "lin_inv q n S1" by (rule lin_inv_step [OF assms Cons.prems(1) st(1) e])
  from Cons.IH [OF this es st(2)] show ?case
    using perform_seq [OF Cons.prems(1) assms e st(1)] by simp
qed simp

lemma sequential_history:
  "seq_events K M es X = Some X' \<Longrightarrow> Fault i f \<notin> set es"
  by (induction es arbitrary: X) (auto split: option.splits)

text \<open>C8: The scull device is linearizable as long as the module parameters stay. Take any run of any
  number of threads, with their calls, interruptions, seeks and returns in any order, and user
  memory changing at any moment. Then no call faults, and the results of all calls, the device,
  the kernel objects and user memory are those of the whole \<open>scull_read\<close>, \<open>scull_write\<close>, write-only
  \<open>scull_open\<close> and \<open>scull_llseek\<close>, executed one after the other on a device nobody else uses, each at
  its effect; and every thread has its effect once per call that was not interrupted, between
  the call and the return, and returns the result of the effect.\<close>

theorem scull_linearizable:
  assumes "kapi_ok K" "scull_ok (sy_heap S0) (sy_dev S0) nds" "sd_sem (sy_dev S0) = 1"
    and "g_quantum (sy_globals S0) = sd_quantum (sy_dev S0)" "g_qset (sy_globals S0) = sd_qset (sy_dev S0)"
    and "\<And>i. sy_pc S0 i = Idle"
    and "perform_all K M es S0 = Some S" "steady_run K M (sd_quantum (sy_dev S0)) (sd_qset (sy_dev S0)) es S0"
  shows "seq_events K M es (shared_of S0) = Some (shared_of S) \<and> (\<forall>i f. Fault i f \<notin> set es) \<and>
    (\<forall>i. phases i es Outside = Some (phase_of (sy_pc S i)))"
proof -
  have "lin_inv (sd_quantum (sy_dev S0)) (sd_qset (sy_dev S0)) S0"
    using assms(2-6) by (auto simp: lin_inv_def sem_inv_def dev_inv_def)
  note run = perform_all_seq [OF assms(1) this assms(7,8)]
  then show ?thesis using sequential_history [of K M es "shared_of S0"] assms(6) by auto
qed

text \<open>A write and a read overlap: the reader calls first, and reads what the writer has written.\<close>

definition demo_events :: "event list" where
  "demo_events = [Invoke 1 (RdJob 500 3 0), Invoke 0 (WrJob 100 3 0), Acquire 0, Effect 0 (WrJob 100 3 0) 3,
     Seek 2 0 0 2 3, Return 0 3, Acquire 1, Effect 1 (RdJob 500 3 0) 3, Return 1 3]"

lemma demo_run:
  "case perform_all demo_api linux_ioc demo_events demo_sys of None \<Rightarrow> False | Some S \<Rightarrow> True"
  "steady_run demo_api linux_ioc 4 2 demo_events demo_sys"
  by code_simp+

lemma scull_linearizable_witness:
  "\<exists>S. perform_all demo_api linux_ioc demo_events demo_sys = Some S \<and>
    seq_events demo_api linux_ioc demo_events (shared_of demo_sys) = Some (shared_of S) \<and>
    phases 1 demo_events Outside = Some Outside"
proof -
  obtain S where S: "perform_all demo_api linux_ioc demo_events demo_sys = Some S" using demo_run(1) by (auto split: option.splits)
  have ok: "scull_ok (sy_heap demo_sys) (sy_dev demo_sys) []"
    using demo_ok(1) [of 0] by (simp add: demo_sys_def demo_io_def)
  have st: "steady_run demo_api linux_ioc (sd_quantum (sy_dev demo_sys)) (sd_qset (sy_dev demo_sys)) demo_events demo_sys"
    using demo_run(2) by (simp add: demo_sys_def demo_dev_def)
  have "seq_events demo_api linux_ioc demo_events (shared_of demo_sys) = Some (shared_of S) \<and>
      (\<forall>i f. Fault i f \<notin> set demo_events) \<and> (\<forall>i. phases i demo_events Outside = Some (phase_of (sy_pc S i)))"
    by (rule scull_linearizable [OF sample_kapi_ok ok _ _ _ _ S st]) (simp_all add: demo_sys_def demo_dev_def)
  moreover have "phases 1 demo_events Outside = Some Outside" by (simp add: demo_events_def)
  ultimately show ?thesis using S by blast
qed

end
