(* ===== verification/ScullSafe.thy ===== *)
theory ScullSafe
  imports ScullAdmin
begin

text \<open>
  What reading and writing guarantee at every file position, also where the item number does
  not fit an \<open>int\<close> and positions alias: they return, keep the device well formed and account
  for every object. \<open>own_step\<close> is the law of the accounting: between two states of the store
  only the objects of the device change hands.
\<close>

section \<open>Accounting for objects\<close>

definition own_step :: "scull_heap \<Rightarrow> ptr set \<Rightarrow> scull_heap \<Rightarrow> ptr set \<Rightarrow> bool" where
  "own_step h A h' A' \<longleftrightarrow> (\<forall>x. x \<notin> A \<longrightarrow> x \<notin> A' \<longrightarrow> h' x = h x) \<and>
     (\<forall>x \<in> A' - A. h x = None) \<and> (\<forall>x \<in> A - A'. h' x = None)"

lemma own_step_refl [simp]: "own_step h A h A"
  by (simp add: own_step_def)

lemma own_step_trans [trans]:
  assumes "own_step h A h1 A1" "own_step h1 A1 h2 A2"
  shows "own_step h A h2 A2"
proof -
  have "h2 x = h x" if "x \<notin> A" "x \<notin> A2" for x
    using assms that by (cases "x \<in> A1") (auto simp: own_step_def)
  moreover have "h x = None" if "x \<in> A2 - A" for x
    using assms that by (cases "x \<in> A1") (auto simp: own_step_def)
  moreover have "h2 x = None" if "x \<in> A - A2" for x
    using assms that by (cases "x \<in> A1") (auto simp: own_step_def)
  ultimately show ?thesis by (simp add: own_step_def)
qed

text \<open>An object of somebody else stays, and does not become the device's.\<close>

lemma own_step_others:
  "own_step h A h' A' \<Longrightarrow> x \<notin> A \<Longrightarrow> h x \<noteq> None \<Longrightarrow> h' x = h x \<and> x \<notin> A'"
  by (auto simp: own_step_def)

lemma own_step_freed: "own_step h A (freed h A) {}"
  by (simp add: own_step_def freed_def)

text \<open>Nothing leaks: once the device gives up its objects, the store is the same as if it
  had done so before.\<close>

lemma own_step_no_leak: "own_step h A h' A' \<Longrightarrow> freed h' A' = freed h A"
  by (rule ext) (auto simp: own_step_def freed_def)

section \<open>The steps of a write\<close>

lemma follow_post_own:
  assumes "follow_post h q n p nds k r h' new"
  shows "own_step h (set (owned nds)) h' (set (owned (nds @ blanks new)))"
  using assms by (auto simp: own_step_def follow_post_def)

lemma array_own:
  assumes "nodes h q n p (xs @ nd # ys)" "fst nd = a"
    and "snd nd = Some (d, ps) \<and> h' = h \<or>
       snd nd = None \<and> ps = replicate (nat n) NULL \<and> h d = None \<and>
         (\<forall>x. x \<noteq> fst nd \<longrightarrow> x \<noteq> d \<longrightarrow> h' x = h x) \<and>
         (\<forall>x y. h x = Some y \<longrightarrow> (\<forall>it. y \<noteq> QsetObj it) \<longrightarrow> h' x = Some y)"
  shows "own_step h (set (owned (xs @ nd # ys))) h' (set (owned (xs @ (a, Some (d, ps)) # ys)))"
  using assms by (cases nd) (auto simp: own_step_def live_entries_def)

lemma quantum_own:
  assumes "int (length ps) = n" "0 \<le> s" "s < n" "b \<noteq> NULL"
    and "b = ps ! nat s \<and> h' = h \<or>
       ps ! nat s = NULL \<and> h b = None \<and> bs = map (kmalloc_byte K b) [0..<nat q] \<and>
         (\<forall>x. x \<noteq> d \<longrightarrow> x \<noteq> b \<longrightarrow> h' x = h x) \<and>
         (\<forall>x cs. h x = Some (Quantum cs) \<longrightarrow> h' x = Some (Quantum cs))"
  shows "own_step h (set (owned (xs @ (a, Some (d, ps)) # ys))) h'
    (set (owned (xs @ (a, Some (d, ps[nat s := b])) # ys)))"
proof -
  have len: "nat s < length ps" using assms(1-3) by linarith
  show ?thesis
    using assms(5)
  proof (elim disjE)
    assume "b = ps ! nat s \<and> h' = h"
    then show ?thesis by simp
  next
    assume e: "ps ! nat s = NULL \<and> h b = None \<and> bs = map (kmalloc_byte K b) [0..<nat q] \<and>
         (\<forall>x. x \<noteq> d \<longrightarrow> x \<noteq> b \<longrightarrow> h' x = h x) \<and>
         (\<forall>x cs. h x = Some (Quantum cs) \<longrightarrow> h' x = Some (Quantum cs))"
    have "p \<in> set (ps[nat s := b])" if "p \<in> set ps" "p \<noteq> NULL" for p
    proof -
      from that(1) obtain i where "i < length ps" "ps ! i = p" by (auto simp: in_set_conv_nth)
      then show ?thesis using e that(2) by (metis length_list_update nth_list_update_neq nth_mem)
    qed
    moreover have "p \<in> set ps \<or> p = b" if "p \<in> set (ps[nat s := b])" for p
      using set_update_subset_insert [of ps "nat s" b] that by auto
    moreover have "b \<in> set (ps[nat s := b])" using len by (rule set_update_memI)
    ultimately have "set (live_entries (ps[nat s := b])) = insert b (set (live_entries ps))"
      using assms(4) by auto
    then show ?thesis
      using e by (auto simp: own_step_def simp del: set_live_entries)
  qed
qed

lemma store_own: "x \<in> A \<Longrightarrow> own_step h A (h(x \<mapsto> y)) A"
  by (auto simp: own_step_def)

section \<open>Any position\<close>

lemma scull_locate_any:
  assumes g: "geom_ok q n" and p: "0 \<le> pos" "pos < 2 ^ 63"
  obtains item where "scull_locate q n pos = Inr (item, pos div q mod n, pos mod q)"
proof -
  note gb = geom_bounds [OF g]
  have m: "pos mod (q * n) = q * (pos div q mod n) + pos mod q"
    using gb by (simp add: zmod_zmult2_eq)
  have r: "0 \<le> pos mod (q * n)" "pos mod (q * n) < q * n"
    using gb by simp_all
  have "s32 (q * n) = q * n" "s32 (pos mod (q * n)) = pos mod (q * n)"
    using gb by (simp add: s32_nonneg) (rule s32_nonneg [OF r(1) less_trans [OF r(2) gb(4)]])
  moreover have "pos mod (q * n) div q = pos div q mod n" "pos mod (q * n) mod q = pos mod q"
    using gb by (simp_all add: m)
  ultimately show ?thesis
    using that gb p r by (simp add: scull_locate_def c_div_nonneg c_mod_nonneg)
qed

definition call_safe :: "scull_io \<Rightarrow> node list \<Rightarrow> scull_io \<Rightarrow> node list \<Rightarrow> bool" where
  "call_safe s nds s' nds' \<longleftrightarrow> scull_ok (io_heap s') (io_dev s') nds' \<and>
     own_step (io_heap s) (set (owned nds)) (io_heap s') (set (owned nds')) \<and>
     (\<exists>a z. io_dev s' = (io_dev s)\<lparr>sd_data := a, sd_size := z\<rparr>) \<and> 0 \<le> io_pos s' \<and> io_pos s' < 2 ^ 63"

text \<open>What a read leaves as it was.\<close>

definition same_bytes :: "scull_io \<Rightarrow> scull_io \<Rightarrow> bool" where
  "same_bytes s s' \<longleftrightarrow> sd_size (io_dev s') = sd_size (io_dev s) \<and>
     (\<forall>p. scull_peek (io_heap s') (io_dev s') p = scull_peek (io_heap s) (io_dev s) p)"

lemma call_safeI:
  assumes "scull_ok h dev nds" "own_step h (set (owned nds)) h' (set (owned nds'))"
    and "nodes h' (sd_quantum dev) (sd_qset dev) a nds'" "0 \<le> z" "z < 2 ^ 63" "0 \<le> p" "p < 2 ^ 63"
    and "io_heap s = h" "io_dev s = dev" "io_heap s' = h'" "io_dev s' = dev\<lparr>sd_data := a, sd_size := z\<rparr>" "io_pos s' = p"
  shows "call_safe s nds s' nds'"
  using assms by (auto simp: call_safe_def scull_ok_def scull_rep_def)

lemma scull_write_locked_safe:
  assumes K: "kmalloc_ok K" "copy_from_ok K"
    and ok: "scull_ok (io_heap s) (io_dev s) nds"
    and q: "q = sd_quantum (io_dev s)" and n: "n = sd_qset (io_dev s)"
    and pos: "0 \<le> io_pos s" and cnt: "0 \<le> cnt" "io_pos s + cnt < 2 ^ 63"
  shows "\<exists>ret s' nds'. scull_write_locked K q n buf cnt s = Inr (ret, s') \<and> call_safe s nds s' nds'"
proof -
  let ?dev = "io_dev s" and ?pos = "io_pos s"
  let ?s_pos = "?pos div q mod n" and ?q_pos = "?pos mod q"
  have g: "geom_ok q n" using ok q n by (simp add: scull_ok_def)
  note gb = geom_bounds [OF g]
  have r: "0 \<le> ?s_pos" "?s_pos < n" "0 \<le> ?q_pos" "?q_pos < q" "?pos < 2 ^ 63"
    using gb cnt by simp_all
  have sz: "0 \<le> sd_size ?dev" "sd_size ?dev < 2 ^ 63" using ok by (simp_all add: scull_ok_def)
  obtain item where loc: "scull_locate q n ?pos = Inr (item, ?s_pos, ?q_pos)"
    by (rule scull_locate_any [OF g pos r(5)])
  obtain dp h1 a new where fol: "scull_follow K (io_heap s) ?dev item = Inr (dp, h1, ?dev\<lparr>sd_data := a\<rparr>)"
    and post: "follow_post (io_heap s) q n a nds (unat (word_of_int item :: 32 word)) dp h1 new"
    by (rule scull_follow_any [OF K(1), of "io_heap s" ?dev nds item]) (use ok in \<open>simp_all add: scull_ok_def q n\<close>)
  define dev where "dev = ?dev\<lparr>sd_data := a\<rparr>"
  note fown = follow_post_own [OF post]
  have safe: "call_safe s nds (s\<lparr>io_heap := h, io_dev := dev\<lparr>sd_size := z\<rparr>, io_pos := p\<rparr>) L"
    if "nodes h q n a L" "own_step h1 (set (owned (nds @ blanks new))) h (set (owned L))"
      "0 \<le> z" "z < 2 ^ 63" "0 \<le> p" "p < 2 ^ 63" for h L z p
    by (rule call_safeI [OF ok own_step_trans [OF fown that(2)]]) (use that in \<open>simp_all add: dev_def q n\<close>)
  have dsz: "dev\<lparr>sd_size := sd_size ?dev\<rparr> = dev" by (simp add: dev_def)
  have safe0: "call_safe s nds (s\<lparr>io_heap := h, io_dev := dev\<rparr>) L"
    if "nodes h q n a L" "own_step h1 (set (owned (nds @ blanks new))) h (set (owned L))" for h L
    using safe [OF that sz pos r(5)] by (simp add: dsz)
  note start = scull_write_locked_def Let_def loc fol dev_def [symmetric] io_order
  have nod1: "nodes h1 q n a (nds @ blanks new)"
    using follow_post_ok(1) [OF ok] post by (simp add: scull_ok_def scull_rep_def q n)
  show ?thesis
  proof (cases "dp = NULL")
    case True
    then show ?thesis using safe0 [OF nod1] by (auto simp: start)
  next
    case dpn: False
    obtain xs nd ys where sp: "nds @ blanks new = xs @ nd # ys" "fst nd = dp" and nod: "nodes h1 q n a (xs @ nd # ys)"
      using follow_post_item [OF post dpn] by metis
    show ?thesis
    proof (cases rule: write_array_post [OF K(1) nod less_imp_le [OF gb(2)] gb(6)])
      case 1
      then show ?thesis using safe0 [OF nod1] dpn sp(2) by (auto simp: start)
    next
      case (2 d ps h2)
      note Array = this
      have nod2: "nodes h2 q n a (xs @ (dp, Some (d, ps)) # ys)" using Array(3) sp(2) by simp
      have own2: "own_step h1 (set (owned (nds @ blanks new))) h2 (set (owned (xs @ (dp, Some (d, ps)) # ys)))"
        using array_own [OF nod sp(2) Array(4)] sp(1) by simp
      have arr: "write_array K n h1 dp = Inr (d, h2)" using Array(1) sp(2) by simp
      obtain nx where "node_ok h2 q n nx (dp, Some (d, ps))" by (rule nodes_split [OF nod2]) simp
      then have len: "int (length ps) = n" by simp
      show ?thesis
      proof (cases rule: write_quantum_post [OF K(1) nod2 r(1,2) less_imp_le [OF gb(1)] gb(5)])
        case 1
        then show ?thesis using safe0 [OF nod2 own2] dpn arr Array(2) by (auto simp: start)
      next
        case (2 b bs h3)
        note Quantum = this
        define L where "L = xs @ (dp, Some (d, ps[nat ?s_pos := b])) # ys"
        have own3: "own_step h1 (set (owned (nds @ blanks new))) h3 (set (owned L))"
          unfolding L_def
          by (rule own_step_trans [OF own2 quantum_own [OF len r(1,2) Quantum(2,6)]])
        define c where "c = min cnt (q - ?q_pos)"
        have cl: "clamp_to_quantum q ?q_pos cnt = c"
          using r gb by (simp add: clamp_to_quantum_min c_def)
        have cb: "0 \<le> c" "?q_pos + c \<le> q" "?pos + c < 2 ^ 63" using cnt r by (auto simp: c_def)
        obtain k nb where cp: "copy_from_user K (io_user s) buf (nat c) = (k, nb)" and nbl: "length nb = nat c"
          using copy_from_userE [OF K(2)] by metis
        define bs' where "bs' = buf_write bs (nat ?q_pos) nb"
        have lb: "length bs' = length bs" using cb r Quantum(5) nbl by (simp add: bs'_def)
        have qu: "quantum_from_user K bs ?q_pos (io_user s) buf c = Inr (k, bs')"
          using cb r Quantum(5) cp by (simp add: quantum_from_user_def bs'_def)
        have lq: "load_quantum h3 b = Inr bs" using Quantum by (simp add: load_quantum_def kmem)
        define h4 where "h4 = h3(b \<mapsto> Quantum bs')"
        have st: "kstore h3 b (scull_obj.Quantum bs') = Inr h4" using Quantum by (simp add: kmem h4_def)
        have plen: "nat ?s_pos < length ps" using len r by linarith
        have nod4: "nodes h4 q n a L"
          using quantum_store(1) [OF Quantum(3) _ _ Quantum(2,4) lb gb(2), of "nat ?s_pos"] plen
          by (simp add: h4_def L_def)
        have "b \<in> set (owned L)"
          using set_update_memI [OF plen, of b] Quantum(2) by (simp add: L_def)
        then have own4: "own_step h1 (set (owned (nds @ blanks new))) h4 (set (owned L))"
          unfolding h4_def by (rule own_step_trans [OF own3 store_own])
        define z where "z = max (sd_size ?dev) (?pos + c)"
        have zb: "0 \<le> z" "z < 2 ^ 63" "0 \<le> ?pos + c" "?pos + c < 2 ^ 63" using sz pos cb by (simp_all add: z_def)
        have s64: "s64 (?pos + c) = ?pos + c" "u64 (?pos + c) = ?pos + c" using zb by (simp_all add: s64_nonneg u64_id)
        have run: "scull_write_locked K q n buf cnt s =
            (if k \<noteq> 0 then Inr (- EFAULT, s\<lparr>io_heap := h4, io_dev := dev\<rparr>)
             else Inr (s64 c, s\<lparr>io_heap := h4, io_dev := dev\<lparr>sd_size := z\<rparr>, io_pos := ?pos + c\<rparr>))"
          using dpn arr Array(2) Quantum(1,2)
          by (simp add: start cl lq qu st s64 z_def max_def) (simp add: dev_def)
        show ?thesis
          using run safe0 [OF nod4 own4] safe [OF nod4 own4 zb] by auto
      qed
    qed
  qed
qed

lemma scull_read_locked_safe:
  assumes K: "kmalloc_ok K" "copy_to_ok K"
    and ok: "scull_ok (io_heap s) (io_dev s) nds"
    and q: "q = sd_quantum (io_dev s)" and n: "n = sd_qset (io_dev s)"
    and pos: "0 \<le> io_pos s" "io_pos s < 2 ^ 63" and cnt: "0 \<le> cnt" "cnt < 2 ^ 63"
  shows "\<exists>ret s' nds'. scull_read_locked K q n buf cnt s = Inr (ret, s') \<and>
    call_safe s nds s' nds' \<and> same_bytes s s'"
proof -
  let ?dev = "io_dev s" and ?pos = "io_pos s"
  let ?s_pos = "?pos div q mod n" and ?q_pos = "?pos mod q"
  have g: "geom_ok q n" using ok q n by (simp add: scull_ok_def)
  note gb = geom_bounds [OF g]
  have r: "0 \<le> ?s_pos" "?s_pos < n" "0 \<le> ?q_pos" "?q_pos < q" using gb by simp_all
  have sz: "0 \<le> sd_size ?dev" "sd_size ?dev < 2 ^ 63" using ok by (simp_all add: scull_ok_def)
  have u: "u64 ?pos = ?pos" using pos by (simp add: u64_id)
  show ?thesis
  proof (cases "sd_size ?dev \<le> ?pos")
    case True
    have "call_safe s nds s nds"
      by (rule call_safeI [OF ok own_step_refl, where a = "sd_data ?dev" and z = "sd_size ?dev"])
        (use ok pos in \<open>simp_all add: scull_ok_def scull_rep_def\<close>)
    then show ?thesis using True u by (auto simp: scull_read_locked_def same_bytes_def)
  next
    case False
    define c0 where "c0 = min cnt (sd_size ?dev - ?pos)"
    have c0: "clamp_to_size ?dev ?pos cnt = c0"
      using False sz pos cnt by (simp add: c0_def clamp_to_size_min)
    obtain item where loc: "scull_locate q n ?pos = Inr (item, ?s_pos, ?q_pos)"
      by (rule scull_locate_any [OF g pos])
    obtain dp h1 a new where fol: "scull_follow K (io_heap s) ?dev item = Inr (dp, h1, ?dev\<lparr>sd_data := a\<rparr>)"
      and post: "follow_post (io_heap s) q n a nds (unat (word_of_int item :: 32 word)) dp h1 new"
      by (rule scull_follow_any [OF K(1), of "io_heap s" ?dev nds item]) (use ok in \<open>simp_all add: scull_ok_def q n\<close>)
    define s1 where "s1 = s\<lparr>io_heap := h1, io_dev := ?dev\<lparr>sd_data := a\<rparr>\<rparr>"
    have nod1: "nodes h1 q n a (nds @ blanks new)"
      using follow_post_ok(1) [OF ok] post by (simp add: scull_ok_def scull_rep_def q n)
    have safe: "call_safe s nds (s1\<lparr>io_user := um, io_pos := p\<rparr>) (nds @ blanks new)"
      if "0 \<le> p" "p < 2 ^ 63" for um p
      by (rule call_safeI [OF ok follow_post_own [OF post], where a = a and z = "sd_size ?dev"])
        (use nod1 sz that in \<open>simp_all add: s1_def q n\<close>)
    have safe1: "call_safe s nds s1 (nds @ blanks new)"
      using safe [OF pos, of "io_user s1"] by (simp add: s1_def)
    have safe2: "call_safe s nds (s1\<lparr>io_user := um\<rparr>) (nds @ blanks new)" for um
      using safe [OF pos, of um] by (simp add: s1_def)
    have same: "same_bytes s (s1\<lparr>io_user := um, io_pos := p\<rparr>)" "same_bytes s (s1\<lparr>io_user := um\<rparr>)" "same_bytes s s1" for um p
      using follow_post_ok(2) [OF ok] post by (simp_all add: same_bytes_def s1_def q n)
    note start = scull_read_locked_def Let_def u False loc fol c0 s1_def [symmetric]
    show ?thesis
    proof (cases "dp = NULL")
      case True
      then show ?thesis using safe1 same by (auto simp: start)
    next
      case dpn: False
      obtain xs nd ys where sp: "fst nd = dp" and nod: "nodes h1 q n a (xs @ nd # ys)"
        using follow_post_item [OF post dpn] by metis
      obtain nx where nok: "node_ok h1 q n nx nd" by (rule nodes_split [OF nod])
      define it where "it = \<lparr>qs_data = (case snd nd of None \<Rightarrow> NULL | Some (d, _) \<Rightarrow> d), qs_next = nx\<rparr>"
      have ld: "load_qset h1 dp = Inr it"
        using node_ok_item [OF nok] node_ok_addr [OF nok] sp by (simp add: load_qset_def kmem it_def)
      show ?thesis
      proof (cases "snd nd")
        case None
        then have "qs_data it = NULL" by (simp add: it_def)
        then show ?thesis using safe1 same dpn ld by (auto simp: start)
      next
        case (Some dps)
        obtain d ps where dps: "dps = (d, ps)" by (cases dps)
        have nd: "nd = (dp, Some (d, ps))" using Some dps sp by (cases nd) simp
        have arr: "qs_data it = d" "d \<noteq> NULL" "load_arr h1 d = Inr ps" "int (length ps) = n"
          using nok nd Some dps by (simp_all add: it_def load_arr_def kmem)
        define e where "e = ps ! nat ?s_pos"
        have get: "arr_get ps ?s_pos = Inr e" and ent: "entry_ok h1 q e"
          using nok nd arr r by (simp_all add: kmem e_def)
        show ?thesis
        proof (cases "e = NULL")
          case True
          then show ?thesis using safe1 same dpn ld arr get by (auto simp: start)
        next
          case en: False
          then obtain bs where bs: "h1 e = Some (Quantum bs)" "int (length bs) = q"
            using ent by (auto simp: entry_ok_def)
          have lq: "load_quantum h1 e = Inr bs" using bs en by (simp add: load_quantum_def kmem)
          define c1 where "c1 = min c0 (q - ?q_pos)"
          have cl: "clamp_to_quantum q ?q_pos c0 = c1"
            using r gb by (simp add: clamp_to_quantum_min c1_def)
          have cb: "0 \<le> c1" "?q_pos + c1 \<le> q" "0 \<le> ?pos + c1" "?pos + c1 < 2 ^ 63"
            using cnt r pos False sz by (auto simp: c1_def c0_def)
          define w where "w = take (nat c1) (drop (nat ?q_pos) bs)"
          obtain k where cp: "copy_to_user K (io_user s) buf w = (k, um_write (io_user s) buf (take (length w - k) w))"
            using copy_to_userE [OF K(2)] by metis
          have qu: "quantum_to_user K bs ?q_pos (io_user s) buf c1 = Inr (k, um_write (io_user s) buf (take (length w - k) w))"
            using cb r bs cp by (simp add: quantum_to_user_def w_def)
          have s64: "s64 (?pos + c1) = ?pos + c1" using cb by (simp add: s64_nonneg)
          define um where "um = um_write (io_user s) buf (take (length w - k) w)"
          have run: "scull_read_locked K q n buf cnt s =
              (if k \<noteq> 0 then Inr (- EFAULT, s1\<lparr>io_user := um\<rparr>)
               else Inr (s64 c1, s1\<lparr>io_user := um, io_pos := ?pos + c1\<rparr>))"
            using dpn ld arr get en lq qu s64 by (simp add: start cl um_def)
          show ?thesis
            unfolding run using safe2 [of um] same safe [OF cb(3,4), of um] by (cases "k = 0") auto
        qed
      qed
    qed
  qed
qed

section \<open>Whole calls\<close>

lemma call_safe_sem:
  assumes "call_safe (s\<lparr>io_dev := (io_dev s)\<lparr>sd_sem := c\<rparr>\<rparr>) nds s' nds'"
  shows "call_safe s nds (s'\<lparr>io_dev := (io_dev s')\<lparr>sd_sem := sd_sem (io_dev s)\<rparr>\<rparr>) nds'"
  using assms by (cases "io_dev s") (auto simp: call_safe_def)

lemma scull_write_safe:
  assumes K: "kmalloc_ok K" "copy_from_ok K"
    and ok: "scull_ok (io_heap s) (io_dev s) nds" and sem: "sd_sem (io_dev s) = Suc c"
    and pos: "0 \<le> io_pos s" and cnt: "0 \<le> cnt" "io_pos s + cnt < 2 ^ 63"
  shows "\<exists>ret s' nds'. scull_write K intr buf cnt s = Inr (ret, s') \<and> call_safe s nds s' nds'"
proof (cases intr)
  case True
  have "call_safe s nds s nds"
    by (rule call_safeI [OF ok own_step_refl, where a = "sd_data (io_dev s)" and z = "sd_size (io_dev s)"])
      (use ok pos cnt in \<open>simp_all add: scull_ok_def scull_rep_def\<close>)
  then show ?thesis using True wr.interrupted [of K "sd_quantum (io_dev s)" "sd_qset (io_dev s)" buf cnt s]
    by (auto simp: scull_write_bracket)
next
  case False
  let ?q = "sd_quantum (io_dev s)" and ?n = "sd_qset (io_dev s)"
  let ?t = "s\<lparr>io_dev := (io_dev s)\<lparr>sd_sem := c\<rparr>\<rparr>"
  obtain ret s' nds' where "scull_write_locked K ?q ?n buf cnt ?t = Inr (ret, s')" "call_safe ?t nds s' nds'"
    using scull_write_locked_safe [OF K, of ?t nds ?q ?n cnt buf] ok pos cnt by auto
  then show ?thesis
    using wr.free_enters [OF sem, of K ?q ?n buf cnt] call_safe_sem [of c s nds s' nds'] sem False
    by (auto simp: scull_write_bracket)
qed

lemma scull_read_safe:
  assumes K: "kmalloc_ok K" "copy_to_ok K"
    and ok: "scull_ok (io_heap s) (io_dev s) nds" and sem: "sd_sem (io_dev s) = Suc c"
    and pos: "0 \<le> io_pos s" "io_pos s < 2 ^ 63" and cnt: "0 \<le> cnt" "cnt < 2 ^ 63"
  shows "\<exists>ret s' nds'. scull_read K intr buf cnt s = Inr (ret, s') \<and> call_safe s nds s' nds' \<and>
    same_bytes s s'"
proof (cases intr)
  case True
  have "call_safe s nds s nds"
    by (rule call_safeI [OF ok own_step_refl, where a = "sd_data (io_dev s)" and z = "sd_size (io_dev s)"])
      (use ok pos cnt in \<open>simp_all add: scull_ok_def scull_rep_def\<close>)
  then show ?thesis using True rd.interrupted [of K "sd_quantum (io_dev s)" "sd_qset (io_dev s)" buf cnt s]
    by (auto simp: scull_read_bracket same_bytes_def)
next
  case False
  let ?q = "sd_quantum (io_dev s)" and ?n = "sd_qset (io_dev s)"
  let ?t = "s\<lparr>io_dev := (io_dev s)\<lparr>sd_sem := c\<rparr>\<rparr>"
  obtain ret s' nds' where "scull_read_locked K ?q ?n buf cnt ?t = Inr (ret, s')" "call_safe ?t nds s' nds'" "same_bytes ?t s'"
    using scull_read_locked_safe [OF K, of ?t nds ?q ?n cnt buf] ok pos cnt by auto
  then show ?thesis
    using rd.free_enters [OF sem, of K ?q ?n buf cnt] call_safe_sem [of c s nds s' nds'] sem False
    by (auto simp: scull_read_bracket same_bytes_def)
qed

end
