(* ===== verification/ScullSession.thy ===== *)
theory ScullSession
  imports ScullSafe
begin

text \<open>
  The scull devices as the kernel drives them: several devices in one store, the file
  operations table, open files with their positions, and sequences of calls (sessions) of any
  length. The kernel's own part is only what it is documented to do before it calls a driver
  (\<open>passed_on\<close>); the theory shows that every session keeps all devices well formed and apart,
  accounts for every object, and that a device is not affected by calls on the others.
\<close>

section \<open>The operations table\<close>

record scull_file_operations =
  fo_llseek :: "scull_dev \<Rightarrow> int \<Rightarrow> int \<Rightarrow> int \<Rightarrow> int \<times> int"
  fo_read :: "bool \<Rightarrow> uaddr \<Rightarrow> int \<Rightarrow> scull_io \<Rightarrow> (int \<times> scull_io) res"
  fo_write :: "bool \<Rightarrow> uaddr \<Rightarrow> int \<Rightarrow> scull_io \<Rightarrow> (int \<times> scull_io) res"
  fo_unlocked_ioctl :: "int \<Rightarrow> int \<Rightarrow> scull_globals \<Rightarrow> umem \<Rightarrow> ioctl_res"
  fo_open :: "scull_globals \<Rightarrow> bool \<Rightarrow> 32 word \<Rightarrow> scull_heap \<Rightarrow> scull_dev \<Rightarrow> (int \<times> scull_heap \<times> scull_dev) res"
  fo_release :: "scull_dev \<Rightarrow> int \<times> scull_dev"

definition scull_fops :: "kapi \<Rightarrow> ioc \<Rightarrow> scull_file_operations" where
  "scull_fops K M = \<lparr>fo_llseek = scull_llseek, fo_read = scull_read K, fo_write = scull_write K,
     fo_unlocked_ioctl = scull_ioctl K M, fo_open = scull_open, fo_release = scull_release\<rparr>"

section \<open>Calls\<close>

text \<open>
  \<open>scull_open\<close> stores the device in \<open>private_data\<close>: here its index in \<open>scull_devices\<close>. A new
  file starts at position 0.
\<close>

record open_file =
  private_data :: nat
  of_pos :: int

record vfs =
  vf_globals :: scull_globals
  vf_heap :: scull_heap
  vf_devs :: "scull_dev list"
  vf_user :: umem
  vf_files :: "nat \<Rightarrow> open_file option"

datatype fcall = OpenCall nat nat "32 word" bool | ReleaseCall nat | LlseekCall nat int int
  | ReadCall nat uaddr int bool | WriteCall nat uaddr int bool | IoctlCall nat int int

definition file_io :: "vfs \<Rightarrow> open_file \<Rightarrow> scull_io" where
  "file_io V f = \<lparr>io_heap = vf_heap V, io_dev = vf_devs V ! private_data f, io_user = vf_user V, io_pos = of_pos f\<rparr>"

text \<open>What a read or write leaves in the devices, the user's memory and the file.\<close>

definition after_io :: "vfs \<Rightarrow> nat \<Rightarrow> open_file \<Rightarrow> scull_io \<Rightarrow> vfs" where
  "after_io V fd f s = V\<lparr>vf_heap := io_heap s, vf_devs := (vf_devs V)[private_data f := io_dev s],
     vf_user := io_user s, vf_files := (vf_files V)(fd \<mapsto> f\<lparr>of_pos := io_pos s\<rparr>)\<rparr>"

definition with_file :: "vfs \<Rightarrow> nat \<Rightarrow> (open_file \<Rightarrow> (int \<times> vfs) res) \<Rightarrow> (int \<times> vfs) res" where
  "with_file V fd k = (case vf_files V fd of None \<Rightarrow> Inl NullDeref | Some f \<Rightarrow> k f)"

fun file_call :: "kapi \<Rightarrow> ioc \<Rightarrow> fcall \<Rightarrow> vfs \<Rightarrow> (int \<times> vfs) res" where
  "file_call K M (OpenCall fd i flags intr) V =
     kbind (fo_open (scull_fops K M) (vf_globals V) intr flags (vf_heap V) (vf_devs V ! i)) (\<lambda>(r, h, dev).
     let V1 = V\<lparr>vf_heap := h, vf_devs := (vf_devs V)[i := dev]\<rparr> in
     Inr (r, if r = 0 then V1\<lparr>vf_files := (vf_files V)(fd \<mapsto> \<lparr>private_data = i, of_pos = 0\<rparr>)\<rparr> else V1))"
| "file_call K M (ReleaseCall fd) V =
     with_file V fd (\<lambda>f. let (r, dev) = fo_release (scull_fops K M) (vf_devs V ! private_data f) in
       Inr (r, V\<lparr>vf_devs := (vf_devs V)[private_data f := dev], vf_files := (vf_files V)(fd := None)\<rparr>))"
| "file_call K M (LlseekCall fd off whence) V =
     with_file V fd (\<lambda>f. let (r, pos) = fo_llseek (scull_fops K M) (vf_devs V ! private_data f) (of_pos f) off whence in
       Inr (r, V\<lparr>vf_files := (vf_files V)(fd \<mapsto> f\<lparr>of_pos := pos\<rparr>)\<rparr>))"
| "file_call K M (ReadCall fd buf count intr) V =
     with_file V fd (\<lambda>f. kbind (fo_read (scull_fops K M) intr buf count (file_io V f)) (\<lambda>(r, s).
       Inr (r, after_io V fd f s)))"
| "file_call K M (WriteCall fd buf count intr) V =
     with_file V fd (\<lambda>f. kbind (fo_write (scull_fops K M) intr buf count (file_io V f)) (\<lambda>(r, s).
       Inr (r, after_io V fd f s)))"
| "file_call K M (IoctlCall fd cmd arg) V =
     with_file V fd (\<lambda>f. let (r, g, um) = fo_unlocked_ioctl (scull_fops K M) cmd arg (vf_globals V) (vf_user V) in
       Inr (r, V\<lparr>vf_globals := g, vf_user := um\<rparr>))"

fun session :: "kapi \<Rightarrow> ioc \<Rightarrow> fcall list \<Rightarrow> vfs \<Rightarrow> (int list \<times> vfs) res" where
  "session K M [] V = Inr ([], V)"
| "session K M (c # cs) V =
     kbind (file_call K M c V) (\<lambda>(r, V1). kbind (session K M cs V1) (\<lambda>(rs, V2). Inr (r # rs, V2)))"

text \<open>
  The calls the kernel passes on to the driver: an open of an existing device under a number
  not in use, else calls on open files; an offset is a \<open>loff_t\<close>, and a read or write whose
  range would leave \<open>loff_t\<close> has been refused already.
\<close>

definition file_in_range :: "vfs \<Rightarrow> nat \<Rightarrow> int \<Rightarrow> bool" where
  "file_in_range V fd count = (case vf_files V fd of None \<Rightarrow> False
     | Some f \<Rightarrow> 0 \<le> count \<and> of_pos f + count < 2 ^ 63)"

fun passed_on :: "vfs \<Rightarrow> fcall \<Rightarrow> bool" where
  "passed_on V (OpenCall fd i flags intr) \<longleftrightarrow> vf_files V fd = None \<and> i < length (vf_devs V)"
| "passed_on V (ReleaseCall fd) \<longleftrightarrow> vf_files V fd \<noteq> None"
| "passed_on V (LlseekCall fd off whence) \<longleftrightarrow> vf_files V fd \<noteq> None \<and> - (2 ^ 63) \<le> off \<and> off < 2 ^ 63"
| "passed_on V (ReadCall fd buf count intr) \<longleftrightarrow> file_in_range V fd count"
| "passed_on V (WriteCall fd buf count intr) \<longleftrightarrow> file_in_range V fd count"
| "passed_on V (IoctlCall fd cmd arg) \<longleftrightarrow> vf_files V fd \<noteq> None"

text \<open>The geometry in the module parameters, which the next truncating open will use.\<close>

definition sane :: "vfs \<Rightarrow> bool" where
  "sane V \<longleftrightarrow> geom_ok (g_quantum (vf_globals V)) (g_qset (vf_globals V))"

text \<open>A session of calls that are passed on and leave the parameters sane; that its calls
  return is not part of it.\<close>

fun session_ok :: "kapi \<Rightarrow> ioc \<Rightarrow> fcall list \<Rightarrow> vfs \<Rightarrow> bool" where
  "session_ok K M [] V \<longleftrightarrow> True"
| "session_ok K M (c # cs) V \<longleftrightarrow> passed_on V c \<and>
     (case file_call K M c V of Inl e \<Rightarrow> True | Inr (r, V1) \<Rightarrow> sane V1 \<and> session_ok K M cs V1)"

section \<open>The invariant\<close>

definition all_owned :: "node list list \<Rightarrow> ptr set" where
  "all_owned ndss = set (concat (map owned ndss))"

definition devs_ok :: "scull_heap \<Rightarrow> scull_dev list \<Rightarrow> node list list \<Rightarrow> bool" where
  "devs_ok h devs ndss \<longleftrightarrow> length ndss = length devs \<and>
     (\<forall>i < length devs. scull_ok h (devs ! i) (ndss ! i) \<and> sd_sem (devs ! i) = 1) \<and>
     (\<forall>i < length devs. \<forall>j < length devs. i \<noteq> j \<longrightarrow> set (owned (ndss ! i)) \<inter> set (owned (ndss ! j)) = {})"

definition vfs_ok :: "vfs \<Rightarrow> node list list \<Rightarrow> bool" where
  "vfs_ok V ndss \<longleftrightarrow> sane V \<and> devs_ok (vf_heap V) (vf_devs V) ndss \<and>
     (\<forall>fd f. vf_files V fd = Some f \<longrightarrow> private_data f < length (vf_devs V) \<and> 0 \<le> of_pos f \<and> of_pos f < 2 ^ 63)"

lemma all_owned_nth: "all_owned ndss = (\<Union>i<length ndss. set (owned (ndss ! i)))"
proof -
  have "set ndss = (!) ndss ` {..<length ndss}" by (auto simp: set_conv_nth)
  then show ?thesis by (simp add: all_owned_def)
qed

lemma scull_ok_frame:
  assumes "scull_ok h dev nds" "\<And>x. x \<in> set (owned nds) \<Longrightarrow> h' x = h x"
  shows "scull_ok h' dev nds"
  using assms nodes_frame [of h "sd_quantum dev" "sd_qset dev" "sd_data dev" nds h']
  by (simp add: scull_ok_def scull_rep_def)

lemma slot_bytes_frame:
  assumes "node_ok h q n nx nd" "int s < n" "\<And>x. x \<in> set (owned_node nd) \<Longrightarrow> h' x = h x"
  shows "slot_bytes h' nd s = slot_bytes h nd s"
proof (cases nd rule: owned_node.cases)
  case (2 a d ps)
  then have "ps ! s \<in> set ps" using assms(1,2) by auto
  then show ?thesis using 2 assms(3) [of "ps ! s"] by (simp add: slot_bytes_def deref_def)
qed (simp add: slot_bytes_def)

lemma scull_peek_frame:
  assumes ok: "scull_ok h dev nds" and eq: "\<And>x. x \<in> set (owned nds) \<Longrightarrow> h' x = h x"
  shows "scull_peek h' dev p = scull_peek h dev p"
proof -
  let ?n = "sd_qset dev" and ?b = "p div sd_quantum dev"
  have n: "0 < ?n" using ok by (simp add: scull_ok_def geom_ok_def)
  have "block_at h' nds ?n ?b = block_at h nds ?n ?b"
  proof (cases "nat (?b div ?n) < length nds")
    case True
    obtain nx where "node_ok h (sd_quantum dev) ?n nx (nds ! nat (?b div ?n))"
      using nodes_nth [OF scull_ok_nodes [OF ok] True] .
    moreover have "int (nat (?b mod ?n)) < ?n" using pos_mod_bound [OF n, of ?b] n by linarith
    moreover have "h' x = h x" if "x \<in> set (owned_node (nds ! nat (?b div ?n)))" for x
      using that nth_mem [OF True] by (intro eq) (auto simp: owned_def)
    ultimately have "slot_bytes h' (nds ! nat (?b div ?n)) (nat (?b mod ?n)) = slot_bytes h (nds ! nat (?b div ?n)) (nat (?b mod ?n))"
      by (rule slot_bytes_frame)
    then show ?thesis using True by (simp add: block_at_def)
  qed (simp add: block_at_def)
  moreover have "scull_ok h' dev nds" by (rule scull_ok_frame [OF ok]) (rule eq)
  ultimately show ?thesis by (simp add: scull_ok_peek [OF ok] scull_ok_peek)
qed

lemma scull_ok_live: "scull_ok h dev nds \<Longrightarrow> x \<in> set (owned nds) \<Longrightarrow> h x \<noteq> None"
  using nodes_owned_live [OF scull_ok_nodes] by blast

section \<open>One call\<close>

lemma own_step_union:
  assumes "own_step h A h' A'" "A \<inter> B = {}" "\<And>x. x \<in> B \<Longrightarrow> h x \<noteq> None"
  shows "own_step h (A \<union> B) h' (A' \<union> B)"
  using assms by (auto simp: own_step_def)

text \<open>What a call on device \<open>i\<close> does to the whole: the device takes its step, the others do not.\<close>

definition dev_step :: "scull_heap \<Rightarrow> scull_dev list \<Rightarrow> node list list \<Rightarrow> scull_heap \<Rightarrow> scull_dev list \<Rightarrow> node list list \<Rightarrow> bool" where
  "dev_step h devs ndss h' devs' ndss' \<longleftrightarrow> devs_ok h' devs' ndss' \<and> length devs' = length devs \<and>
     own_step h (all_owned ndss) h' (all_owned ndss')"

definition dev_same :: "nat \<Rightarrow> vfs \<Rightarrow> vfs \<Rightarrow> bool" where
  "dev_same j V V' \<longleftrightarrow> vf_devs V' ! j = vf_devs V ! j \<and>
     (\<forall>p. scull_peek (vf_heap V') (vf_devs V' ! j) p = scull_peek (vf_heap V) (vf_devs V ! j) p)"

lemma devs_ok_disjoint:
  "devs_ok h devs ndss \<Longrightarrow> i < length devs \<Longrightarrow> j < length devs \<Longrightarrow> i \<noteq> j \<Longrightarrow>
   x \<in> set (owned (ndss ! j)) \<Longrightarrow> x \<notin> set (owned (ndss ! i)) \<and> h x \<noteq> None"
  using scull_ok_live [of h "devs ! j" "ndss ! j" x] by (auto simp: devs_ok_def)

lemma dev_step_one:
  assumes ok: "devs_ok h devs ndss" and i: "i < length devs"
    and new: "scull_ok h' dev nds'" "sd_sem dev = 1"
    and own: "own_step h (set (owned (ndss ! i))) h' (set (owned nds'))"
  shows "dev_step h devs ndss h' (devs[i := dev]) (ndss[i := nds'])"
    and "j < length devs \<Longrightarrow> j \<noteq> i \<Longrightarrow> scull_peek h' (devs ! j) p = scull_peek h (devs ! j) p"
proof -
  have len: "length ndss = length devs" using ok by (simp add: devs_ok_def)
  have keep: "h' x = h x" "x \<notin> set (owned nds')"
    if "j < length devs" "j \<noteq> i" "x \<in> set (owned (ndss ! j))" for j x
    using own_step_others [OF own] devs_ok_disjoint [OF ok i that(1) _ that(3)] that(2) by auto
  have okj: "scull_ok h (devs ! j) (ndss ! j)" "sd_sem (devs ! j) = 1" if "j < length devs" for j
    using ok that by (simp_all add: devs_ok_def)
  have okj': "scull_ok h' (devs ! j) (ndss ! j)" if "j < length devs" "j \<noteq> i" for j
    using scull_ok_frame [OF okj(1) [OF that(1)] keep(1) [OF that]] by simp
  show "scull_peek h' (devs ! j) p = scull_peek h (devs ! j) p" if "j < length devs" "j \<noteq> i"
    using scull_peek_frame [OF okj(1) [OF that(1)] keep(1) [OF that]] by simp
  have dok: "devs_ok h' (devs[i := dev]) (ndss[i := nds'])"
    unfolding devs_ok_def
  proof (intro conjI allI impI)
    fix j k assume jk: "j < length (devs[i := dev])" "k < length (devs[i := dev])" "j \<noteq> k"
    have "set (owned (ndss ! j)) \<inter> set (owned (ndss ! k)) = {}"
      using ok jk by (simp add: devs_ok_def)
    then show "set (owned (ndss[i := nds'] ! j)) \<inter> set (owned (ndss[i := nds'] ! k)) = {}"
      using jk len keep(2) by (cases "j = i"; cases "k = i") auto
  qed (use i len okj okj' new in \<open>auto simp: nth_list_update\<close>)
  define B where "B = (\<Union>j \<in> {..<length devs} - {i}. set (owned (ndss ! j)))"
  have split: "all_owned ndss = set (owned (ndss ! i)) \<union> B"
    using i len by (auto simp: all_owned_nth B_def)
  have split': "all_owned (ndss[i := nds']) = set (owned nds') \<union> B"
    using i len by (auto simp: all_owned_nth B_def nth_list_update split: if_splits)
  have "own_step h (all_owned ndss) h' (all_owned (ndss[i := nds']))"
    unfolding split split'
    by (rule own_step_union [OF own]) (use devs_ok_disjoint [OF ok i] in \<open>auto simp: B_def\<close>)
  with dok show "dev_step h devs ndss h' (devs[i := dev]) (ndss[i := nds'])"
    by (simp add: dev_step_def)
qed

text \<open>The device a call may change; \<open>ioctl\<close> and \<open>llseek\<close> change none.\<close>

fun call_dev :: "vfs \<Rightarrow> fcall \<Rightarrow> nat option" where
  "call_dev V (OpenCall fd i flags intr) = Some i"
| "call_dev V (ReadCall fd buf count intr) = map_option private_data (vf_files V fd)"
| "call_dev V (WriteCall fd buf count intr) = map_option private_data (vf_files V fd)"
| "call_dev V _ = None"

definition call_result :: "vfs \<Rightarrow> node list list \<Rightarrow> nat option \<Rightarrow> vfs \<Rightarrow> node list list \<Rightarrow> bool" where
  "call_result V ndss target V' ndss' \<longleftrightarrow> (sane V' \<longrightarrow> vfs_ok V' ndss') \<and> length (vf_devs V') = length (vf_devs V) \<and>
     own_step (vf_heap V) (all_owned ndss) (vf_heap V') (all_owned ndss') \<and>
     (\<forall>j < length (vf_devs V). Some j \<noteq> target \<longrightarrow> dev_same j V V')"

text \<open>No device changes.\<close>

lemma call_result_same:
  assumes "vfs_ok V ndss" "vf_heap V' = vf_heap V" "vf_devs V' = vf_devs V"
    and "\<And>fd f. vf_files V' fd = Some f \<Longrightarrow> private_data f < length (vf_devs V) \<and> 0 \<le> of_pos f \<and> of_pos f < 2 ^ 63"
  shows "call_result V ndss t V' ndss"
  using assms by (simp add: call_result_def vfs_ok_def dev_same_def)

text \<open>One device changes.\<close>

lemma call_result_dev:
  assumes ok: "vfs_ok V ndss" and i: "i < length (vf_devs V)"
    and new: "scull_ok (vf_heap V') dev nds'" "sd_sem dev = 1" "vf_devs V' = (vf_devs V)[i := dev]"
    and own: "own_step (vf_heap V) (set (owned (ndss ! i))) (vf_heap V') (set (owned nds'))"
    and files: "\<And>fd f. vf_files V' fd = Some f \<Longrightarrow> private_data f < length (vf_devs V) \<and> 0 \<le> of_pos f \<and> of_pos f < 2 ^ 63"
  shows "call_result V ndss (Some i) V' (ndss[i := nds'])"
proof -
  have dok: "devs_ok (vf_heap V) (vf_devs V) ndss" using ok by (simp add: vfs_ok_def)
  note step = dev_step_one [OF dok i new(1,2) own]
  show ?thesis
    unfolding call_result_def vfs_ok_def dev_same_def new(3)
    using step files by (auto simp: dev_step_def)
qed

lemma call_result_io:
  assumes ok: "vfs_ok V ndss" and f: "vf_files V fd = Some f"
    and safe: "call_safe (file_io V f) (ndss ! private_data f) s nds'"
  shows "call_result V ndss (Some (private_data f)) (after_io V fd f s) (ndss[private_data f := nds'])"
proof (rule call_result_dev [OF ok])
  show i: "private_data f < length (vf_devs V)" using ok f by (auto simp: vfs_ok_def)
  have "sd_sem (vf_devs V ! private_data f) = 1" using ok i by (simp add: vfs_ok_def devs_ok_def)
  then show "sd_sem (io_dev s) = 1" using safe by (auto simp: call_safe_def file_io_def)
  fix fd' f' assume "vf_files (after_io V fd f s) fd' = Some f'"
  then show "private_data f' < length (vf_devs V) \<and> 0 \<le> of_pos f' \<and> of_pos f' < 2 ^ 63"
    using ok i safe by (auto simp: after_io_def vfs_ok_def call_safe_def split: if_splits)
qed (use safe in \<open>simp_all add: after_io_def call_safe_def file_io_def\<close>)

lemma file_io_ok:
  assumes "vfs_ok V ndss" "vf_files V fd = Some f"
  shows "scull_ok (io_heap (file_io V f)) (io_dev (file_io V f)) (ndss ! private_data f)"
    "sd_sem (io_dev (file_io V f)) = Suc 0" "0 \<le> io_pos (file_io V f)" "io_pos (file_io V f) < 2 ^ 63"
proof -
  have i: "private_data f < length (vf_devs V)" "0 \<le> of_pos f" "of_pos f < 2 ^ 63"
    using assms by (auto simp: vfs_ok_def)
  then show "scull_ok (io_heap (file_io V f)) (io_dev (file_io V f)) (ndss ! private_data f)"
    "sd_sem (io_dev (file_io V f)) = Suc 0" "0 \<le> io_pos (file_io V f)" "io_pos (file_io V f) < 2 ^ 63"
    using assms(1) by (simp_all add: vfs_ok_def devs_ok_def file_io_def)
qed

lemma llseek_range:
  assumes "0 \<le> f_pos" "f_pos < 2 ^ 63" "- (2 ^ 63) \<le> off" "off < 2 ^ 63"
  shows "0 \<le> snd (scull_llseek dev f_pos off whence)" "snd (scull_llseek dev f_pos off whence) < 2 ^ 63"
proof -
  have "s64 x < 2 ^ 63" for x
    using pos_mod_bound [of "2 ^ 64" "x + 2 ^ 63"] by (simp add: s64_def)
  then show "0 \<le> snd (scull_llseek dev f_pos off whence)" "snd (scull_llseek dev f_pos off whence) < 2 ^ 63"
    using assms by (auto simp: scull_llseek_def Let_def split: if_splits)
qed

lemma open_result:
  assumes ok: "vfs_ok V ndss" and i: "i < length (vf_devs V)"
  shows "\<exists>r V' ndss'. file_call K M (OpenCall fd i flags intr) V = Inr (r, V') \<and> call_result V ndss (Some i) V' ndss'"
proof -
  let ?dev = "vf_devs V ! i" and ?new = "(vf_files V)(fd \<mapsto> \<lparr>private_data = i, of_pos = 0\<rparr>)"
  have d: "scull_ok (vf_heap V) ?dev (ndss ! i)" "sd_sem ?dev = 1"
    using ok i by (simp_all add: vfs_ok_def devs_ok_def)
  have files: "private_data f < length (vf_devs V) \<and> 0 \<le> of_pos f \<and> of_pos f < 2 ^ 63"
    if "?new fd' = Some f \<or> vf_files V fd' = Some f" for fd' f
    using ok i that by (auto simp: vfs_ok_def split: if_splits)
  have rep: "scull_rep (vf_heap V) (?dev\<lparr>sd_sem := 0\<rparr>) (ndss ! i)" using d by (simp add: scull_ok_def scull_rep_def)
  define dev' where "dev' = ?dev\<lparr>sd_size := 0, sd_quantum := g_quantum (vf_globals V), sd_qset := g_qset (vf_globals V), sd_data := NULL\<rparr>"
  have "scull_open (vf_globals V) intr flags (vf_heap V) ?dev =
      (if and flags O_ACCMODE = O_WRONLY then
         if intr then Inr (- ERESTARTSYS, vf_heap V, ?dev)
         else Inr (0, freed (vf_heap V) (set (owned (ndss ! i))), dev')
       else Inr (0, vf_heap V, ?dev))"
    using scull_trim_frees [OF rep, of "vf_globals V"] d(2)
    by (cases ?dev) (simp add: scull_open_def down_interruptible_def up_def dev'_def)
  then have cases: "\<exists>r V'. file_call K M (OpenCall fd i flags intr) V = Inr (r, V') \<and>
      (vf_files V' = ?new \<or> vf_files V' = vf_files V) \<and> vf_globals V' = vf_globals V \<and>
      (vf_heap V' = vf_heap V \<and> vf_devs V' = vf_devs V \<or>
       vf_heap V' = freed (vf_heap V) (set (owned (ndss ! i))) \<and> vf_devs V' = (vf_devs V)[i := dev'])"
    by (auto simp: scull_fops_def Let_def)
  then obtain r V' where call: "file_call K M (OpenCall fd i flags intr) V = Inr (r, V')"
    and fl: "vf_files V' = ?new \<or> vf_files V' = vf_files V" and g: "vf_globals V' = vf_globals V"
    and st: "vf_heap V' = vf_heap V \<and> vf_devs V' = vf_devs V \<or>
       vf_heap V' = freed (vf_heap V) (set (owned (ndss ! i))) \<and> vf_devs V' = (vf_devs V)[i := dev']"
    by blast
  have fl': "private_data f < length (vf_devs V) \<and> 0 \<le> of_pos f \<and> of_pos f < 2 ^ 63"
    if "vf_files V' fd' = Some f" for fd' f
    using that fl files [of fd' f] by metis
  from st show ?thesis
  proof (elim disjE conjE)
    assume "vf_heap V' = vf_heap V" "vf_devs V' = vf_devs V"
    then have "call_result V ndss (Some i) V' ndss"
      by (rule call_result_same [OF ok]) (rule fl')
    then show ?thesis using call by blast
  next
    assume st: "vf_heap V' = freed (vf_heap V) (set (owned (ndss ! i)))" "vf_devs V' = (vf_devs V)[i := dev']"
    have "scull_ok (vf_heap V') dev' []" "sd_sem dev' = 1"
      using ok d(2) by (simp_all add: scull_ok_def scull_rep_def nodes_def vfs_ok_def sane_def dev'_def)
    then have "call_result V ndss (Some i) V' (ndss[i := []])"
      by (rule call_result_dev [OF ok i _ _ st(2)]) (use fl' own_step_freed st(1) in simp_all)
    then show ?thesis using call by blast
  qed
qed

lemma file_call_result:
  assumes K: "kapi_ok K" and ok: "vfs_ok V ndss" and p: "passed_on V c"
  shows "\<exists>r V' ndss'. file_call K M c V = Inr (r, V') \<and> call_result V ndss (call_dev V c) V' ndss'"
proof -
  have fl: "private_data f < length (vf_devs V) \<and> 0 \<le> of_pos f \<and> of_pos f < 2 ^ 63"
    if "vf_files V fd = Some f" for fd f
    using ok that by (auto simp: vfs_ok_def)
  show ?thesis
  proof (cases c)
    case (OpenCall fd i flags intr)
    then show ?thesis using open_result [OF ok, of i K M fd flags intr] p by simp
  next
    case (ReleaseCall fd)
    then obtain f where f: "vf_files V fd = Some f" using p by auto
    define V' where "V' = V\<lparr>vf_devs := (vf_devs V)[private_data f := vf_devs V ! private_data f], vf_files := (vf_files V)(fd := None)\<rparr>"
    have "call_result V ndss None V' ndss"
      by (rule call_result_same [OF ok]) (use fl in \<open>auto simp: V'_def split: if_splits\<close>)
    then show ?thesis
      using ReleaseCall f by (auto simp: with_file_def scull_fops_def scull_release_def V'_def)
  next
    case (LlseekCall fd off whence)
    then obtain f where f: "vf_files V fd = Some f" and off: "- (2 ^ 63) \<le> off" "off < 2 ^ 63" using p by auto
    obtain r pos where ls: "scull_llseek (vf_devs V ! private_data f) (of_pos f) off whence = (r, pos)" by fastforce
    then have pos: "0 \<le> pos" "pos < 2 ^ 63"
      using llseek_range [of "of_pos f" off "vf_devs V ! private_data f" whence] fl [OF f] off by auto
    define V' where "V' = V\<lparr>vf_files := (vf_files V)(fd \<mapsto> f\<lparr>of_pos := pos\<rparr>)\<rparr>"
    have "call_result V ndss None V' ndss"
      by (rule call_result_same [OF ok]) (use fl f pos in \<open>auto simp: V'_def split: if_splits\<close>)
    then show ?thesis
      using LlseekCall f ls by (auto simp: with_file_def scull_fops_def V'_def)
  next
    case (ReadCall fd buf count intr)
    then obtain f where f: "vf_files V fd = Some f" and c: "0 \<le> count" "of_pos f + count < 2 ^ 63"
      using p by (auto simp: file_in_range_def split: option.splits)
    note io = file_io_ok [OF ok f]
    obtain r s nds' where "scull_read K intr buf count (file_io V f) = Inr (r, s)"
      "call_safe (file_io V f) (ndss ! private_data f) s nds'"
      using scull_read_safe [OF _ _ io c(1), where K = K and buf = buf and intr = intr] K c fl [OF f] by (auto simp: kapi_ok_def)
    then show ?thesis
      using ReadCall f call_result_io [OF ok f] by (auto simp: with_file_def scull_fops_def)
  next
    case (WriteCall fd buf count intr)
    then obtain f where f: "vf_files V fd = Some f" and c: "0 \<le> count" "of_pos f + count < 2 ^ 63"
      using p by (auto simp: file_in_range_def split: option.splits)
    note io = file_io_ok [OF ok f]
    obtain r s nds' where "scull_write K intr buf count (file_io V f) = Inr (r, s)"
      "call_safe (file_io V f) (ndss ! private_data f) s nds'"
      using scull_write_safe [OF _ _ io(1,2,3) c(1), where K = K and buf = buf and intr = intr] K c by (auto simp: kapi_ok_def file_io_def)
    then show ?thesis
      using WriteCall f call_result_io [OF ok f] by (auto simp: with_file_def scull_fops_def)
  next
    case (IoctlCall fd cmd arg)
    then obtain f where f: "vf_files V fd = Some f" using p by auto
    obtain r g um where io: "scull_ioctl K M cmd arg (vf_globals V) (vf_user V) = (r, g, um)" by (cases "scull_ioctl K M cmd arg (vf_globals V) (vf_user V)")
    have "call_result V ndss None (V\<lparr>vf_globals := g, vf_user := um\<rparr>) ndss"
      by (rule call_result_same [OF ok]) (use fl in auto)
    then show ?thesis
      using IoctlCall f io by (auto simp: with_file_def scull_fops_def)
  qed
qed

section \<open>Sessions\<close>

text \<open>No call of the session goes to device \<open>j\<close>.\<close>

fun session_avoids :: "kapi \<Rightarrow> ioc \<Rightarrow> nat \<Rightarrow> fcall list \<Rightarrow> vfs \<Rightarrow> bool" where
  "session_avoids K M j [] V \<longleftrightarrow> True"
| "session_avoids K M j (c # cs) V \<longleftrightarrow> call_dev V c \<noteq> Some j \<and>
     (case file_call K M c V of Inl e \<Rightarrow> True | Inr (r, V1) \<Rightarrow> session_avoids K M j cs V1)"

lemma session_runs:
  assumes K: "kapi_ok K"
  shows "vfs_ok V ndss \<Longrightarrow> session_ok K M cs V \<Longrightarrow>
    \<exists>rs V' ndss'. session K M cs V = Inr (rs, V') \<and> length rs = length cs \<and> vfs_ok V' ndss' \<and>
      length (vf_devs V') = length (vf_devs V) \<and>
      own_step (vf_heap V) (all_owned ndss) (vf_heap V') (all_owned ndss') \<and>
      (\<forall>j < length (vf_devs V). session_avoids K M j cs V \<longrightarrow> dev_same j V V')"
proof (induction cs arbitrary: V ndss)
  case Nil
  then show ?case by (auto simp: dev_same_def)
next
  case (Cons c cs)
  obtain r V1 ndss1 where call: "file_call K M c V = Inr (r, V1)"
    and res: "call_result V ndss (call_dev V c) V1 ndss1"
    using file_call_result [OF K Cons.prems(1)] Cons.prems(2) by fastforce
  then have "vfs_ok V1 ndss1" "session_ok K M cs V1"
    using Cons.prems(2) by (simp_all add: call_result_def)
  from Cons.IH [OF this] obtain rs V2 ndss2 where rest: "session K M cs V1 = Inr (rs, V2)" "length rs = length cs"
      "vfs_ok V2 ndss2" "length (vf_devs V2) = length (vf_devs V1)"
    and own: "own_step (vf_heap V1) (all_owned ndss1) (vf_heap V2) (all_owned ndss2)"
    and same: "\<forall>j < length (vf_devs V1). session_avoids K M j cs V1 \<longrightarrow> dev_same j V1 V2"
    by blast
  have "own_step (vf_heap V) (all_owned ndss) (vf_heap V2) (all_owned ndss2)"
    using own_step_trans [OF _ own] res by (simp add: call_result_def)
  moreover have "dev_same j V V2" if "j < length (vf_devs V)" "session_avoids K M j (c # cs) V" for j
  proof -
    have "dev_same j V V1" "dev_same j V1 V2"
      using res same that call by (auto simp: call_result_def)
    then show ?thesis unfolding dev_same_def by metis
  qed
  ultimately show ?case
    using call rest res by (auto simp: call_result_def)
qed

text \<open>The device numbers are not touched by any call.\<close>

definition same_numbers :: "scull_globals \<Rightarrow> scull_globals \<Rightarrow> bool" where
  "same_numbers g g' \<longleftrightarrow> scull_major g' = scull_major g \<and> scull_minor g' = scull_minor g \<and>
     scull_nr_devs g' = scull_nr_devs g"

lemma ioctl_numbers: "scull_ioctl K M cmd arg g um = (r, g', um') \<Longrightarrow> same_numbers g g'"
  by (auto simp: scull_ioctl_def ioctl_switch_def same_numbers_def Let_def split: if_splits prod.splits)

lemma file_call_numbers:
  "file_call K M c V = Inr (r, V') \<Longrightarrow> same_numbers (vf_globals V) (vf_globals V')"
  by (cases c) (auto simp: same_numbers_def [of g g for g] with_file_def scull_fops_def after_io_def kbind_Inr_iff Let_def
      split: option.splits prod.splits if_splits dest: ioctl_numbers)

lemma session_numbers:
  "session K M cs V = Inr (rs, V') \<Longrightarrow> same_numbers (vf_globals V) (vf_globals V')"
proof (induction cs arbitrary: V rs)
  case (Cons c cs)
  then obtain r V1 rs1 where "file_call K M c V = Inr (r, V1)" "session K M cs V1 = Inr (rs1, V')"
    by (auto simp: kbind_Inr_iff)
  then show ?case using Cons.IH file_call_numbers [of K M c V r V1] by (fastforce simp: same_numbers_def)
qed (simp add: same_numbers_def)

text \<open>C4: Every session runs: on any number of well-formed scull devices, whatever sequence of opens,
  closes, seeks, reads, writes and ioctls the kernel passes on, at whatever positions, as long
  as no ioctl leaves an insane geometry in the parameters, every call returns (no fault, no
  endless sleep); all devices are well formed, disjoint and unlocked again, no object outside
  the devices has changed, and none has leaked: freeing the devices' objects at the end gives
  the same store as freeing them at the start.\<close>

theorem scull_session_safe:
  assumes "kapi_ok K" "vfs_ok V ndss" "session_ok K M cs V"
  shows "\<exists>rs V' ndss'. session K M cs V = Inr (rs, V') \<and> length rs = length cs \<and> vfs_ok V' ndss' \<and>
    (\<forall>x. x \<notin> all_owned ndss \<longrightarrow> vf_heap V x \<noteq> None \<longrightarrow> vf_heap V' x = vf_heap V x) \<and>
    freed (vf_heap V') (all_owned ndss') = freed (vf_heap V) (all_owned ndss)"
proof -
  obtain rs V' ndss' where "session K M cs V = Inr (rs, V')" "length rs = length cs" "vfs_ok V' ndss'"
    and own: "own_step (vf_heap V) (all_owned ndss) (vf_heap V') (all_owned ndss')"
    using session_runs [OF assms] by blast
  then show ?thesis using own_step_no_leak [OF own] own_step_others [OF own] by blast
qed

text \<open>Two devices on a concrete kernel, and a session on them.\<close>

abbreviation (input) demo_globals :: scull_globals where
  "demo_globals \<equiv> \<lparr>scull_major = 250, scull_minor = 0, scull_nr_devs = 2, g_quantum = 4, g_qset = 2\<rparr>"

definition demo_vfs :: vfs where
  "demo_vfs = \<lparr>vf_globals = demo_globals, vf_heap = Map.empty, vf_devs = [demo_dev, demo_dev],
     vf_user = (\<lambda>a. word_of_int a), vf_files = Map.empty\<rparr>"

definition demo_calls :: "fcall list" where
  "demo_calls = [OpenCall 3 0 2 False, WriteCall 3 100 6 False, LlseekCall 3 0 0, ReadCall 3 500 4 False,
     OpenCall 4 0 1 False, ReleaseCall 3]"

lemma demo_vfs_ok: "vfs_ok demo_vfs [[], []]"
  by (simp add: vfs_ok_def demo_vfs_def sane_def geom_ok_def devs_ok_def demo_dev_def scull_ok_def scull_rep_def
      nodes_def less_Suc_eq numeral_2_eq_2)

lemma demo_session:
  "session_ok demo_api linux_ioc demo_calls demo_vfs" "session_avoids demo_api linux_ioc 1 demo_calls demo_vfs"
  "case session demo_api linux_ioc demo_calls demo_vfs of Inl e \<Rightarrow> False | Inr (rs, V) \<Rightarrow> rs = [0, 4, 0, 4, 0, 0]"
  by code_simp+

lemma scull_session_safe_witness:
  "\<exists>rs V' ndss'. session demo_api linux_ioc demo_calls demo_vfs = Inr (rs, V') \<and> rs = [0, 4, 0, 4, 0, 0] \<and>
    vfs_ok V' ndss' \<and> freed (vf_heap V') (all_owned ndss') = Map.empty"
proof -
  obtain rs V' ndss' where r: "session demo_api linux_ioc demo_calls demo_vfs = Inr (rs, V')" "vfs_ok V' ndss'"
    "freed (vf_heap V') (all_owned ndss') = freed (vf_heap demo_vfs) (all_owned [[], []])"
    using scull_session_safe [OF sample_kapi_ok demo_vfs_ok demo_session(1)] by blast
  then show ?thesis using demo_session(3) by (auto simp: all_owned_def demo_vfs_def)
qed

text \<open>C10: Devices are isolated from each other: after any session that makes no call on a device, its
  structure, its geometry and size, and every byte it holds are what they were, whatever was
  done to the other devices and to the module parameters.\<close>

theorem scull_devices_isolated:
  assumes "kapi_ok K" "vfs_ok V ndss" "session_ok K M cs V"
    and "j < length (vf_devs V)" "session_avoids K M j cs V"
  shows "\<exists>rs V'. session K M cs V = Inr (rs, V') \<and> vf_devs V' ! j = vf_devs V ! j \<and>
    (\<forall>p. scull_peek (vf_heap V') (vf_devs V' ! j) p = scull_peek (vf_heap V) (vf_devs V ! j) p)"
  using session_runs [OF assms(1-3)] assms(4,5) unfolding dev_same_def by blast

lemma scull_devices_isolated_witness:
  "\<exists>rs V'. session demo_api linux_ioc demo_calls demo_vfs = Inr (rs, V') \<and> vf_devs V' ! 1 = demo_dev \<and>
    (\<forall>p. scull_peek (vf_heap V') (vf_devs V' ! 1) p = scull_peek Map.empty demo_dev p)"
proof -
  have "1 < length (vf_devs demo_vfs)" by (simp add: demo_vfs_def)
  from scull_devices_isolated [OF sample_kapi_ok demo_vfs_ok demo_session(1) this demo_session(2)]
  show ?thesis by (simp add: demo_vfs_def)
qed

end
