(* ===== verification/ScullContract.thy ===== *)
theory ScullContract
  imports ScullSession
begin

text \<open>
  What the caller of a scull device can rely on, call by call: how many bytes a read or a write
  may return, how far it moves the file, what an error leaves as it was, what opening, closing,
  seeking and an \<open>ioctl\<close> may change. It holds in every session, also at positions whose list
  item does not fit an \<open>int\<close>, where the specification by files (\<open>ScullSpec\<close>) does not apply.
  The proofs follow the branches of the code: \<open>yields\<close> says what holds of every result an
  operation can deliver.
\<close>

section \<open>Results of an operation\<close>




section \<open>Reading and writing\<close>

text \<open>
  A read delivers between none and all of the bytes asked for, none from beyond the end, and
  moves the file by what it delivers; an error moves nothing.
\<close>

definition read_contract :: "int \<Rightarrow> scull_io \<Rightarrow> int \<Rightarrow> scull_io \<Rightarrow> bool" where
  "read_contract count s r s' \<longleftrightarrow> sd_size (io_dev s') = sd_size (io_dev s) \<and>
     sd_quantum (io_dev s') = sd_quantum (io_dev s) \<and> sd_qset (io_dev s') = sd_qset (io_dev s) \<and>
     (r \<in> {- EFAULT, - ERESTARTSYS} \<and> io_pos s' = io_pos s \<or>
      0 \<le> r \<and> r \<le> count \<and> io_pos s' = io_pos s + r \<and> (r = 0 \<or> io_pos s' \<le> sd_size (io_dev s)))"

text \<open>
  A write stores at least one of the bytes it is given and at most what fits the quantum, moves
  the file by what it stores and makes the device reach at least that far; an error changes
  neither the position nor the size.
\<close>

definition write_contract :: "int \<Rightarrow> scull_io \<Rightarrow> int \<Rightarrow> scull_io \<Rightarrow> bool" where
  "write_contract count s r s' \<longleftrightarrow> io_user s' = io_user s \<and>
     sd_quantum (io_dev s') = sd_quantum (io_dev s) \<and> sd_qset (io_dev s') = sd_qset (io_dev s) \<and>
     (r \<in> {- ENOMEM, - EFAULT, - ERESTARTSYS} \<and> io_pos s' = io_pos s \<and> sd_size (io_dev s') = sd_size (io_dev s) \<or>
      0 \<le> r \<and> r = min count (sd_quantum (io_dev s) - io_pos s mod sd_quantum (io_dev s)) \<and>
      io_pos s' = io_pos s + r \<and> sd_size (io_dev s') = max (sd_size (io_dev s)) (io_pos s + r))"

text \<open>A device and a file position before a call, under the semaphore or not.\<close>

definition io_ready :: "int \<Rightarrow> int \<Rightarrow> int \<Rightarrow> scull_io \<Rightarrow> bool" where
  "io_ready q n count s \<longleftrightarrow> geom_ok q n \<and> sd_quantum (io_dev s) = q \<and> sd_qset (io_dev s) = n \<and>
     0 \<le> sd_size (io_dev s) \<and> sd_size (io_dev s) < 2 ^ 63 \<and> 0 \<le> io_pos s \<and> 0 \<le> count \<and> io_pos s + count < 2 ^ 63"








lemma io_ready_sem [simp]: "io_ready q n count (s\<lparr>io_dev := (io_dev s)\<lparr>sd_sem := c\<rparr>\<rparr>) = io_ready q n count s"
  by (simp add: io_ready_def)

lemma contract_sem [simp]:
  "read_contract count (s\<lparr>io_dev := (io_dev s)\<lparr>sd_sem := c\<rparr>\<rparr>) r s' = read_contract count s r s'"
  "read_contract count s r (s'\<lparr>io_dev := up (io_dev s')\<rparr>) = read_contract count s r s'"
  "write_contract count (s\<lparr>io_dev := (io_dev s)\<lparr>sd_sem := c\<rparr>\<rparr>) r s' = write_contract count s r s'"
  "write_contract count s r (s'\<lparr>io_dev := up (io_dev s')\<rparr>) = write_contract count s r s'"
  by (simp_all add: read_contract_def write_contract_def up_def)



section \<open>Calls and sessions\<close>











end
