(* ===== verification/ScullStore.thy ===== *)
theory ScullStore
  imports ScullSession
begin

text \<open>
  scull as storage: a byte once stored stays there through any session, on this and on other
  devices, until a write covers its position or a write-only open empties the device; and what
  a later reader gets at a position is the byte stored there.
\<close>

definition dev_peek :: "vfs \<Rightarrow> nat \<Rightarrow> int \<Rightarrow> byte option" where
  "dev_peek V i p = scull_peek (vf_heap V) (vf_devs V ! i) p"

definition dev_size :: "vfs \<Rightarrow> nat \<Rightarrow> int" where
  "dev_size V i = sd_size (vf_devs V ! i)"

definition dev_pos_ok :: "vfs \<Rightarrow> nat \<Rightarrow> int \<Rightarrow> bool" where
  "dev_pos_ok V i pos = pos_ok (sd_quantum (vf_devs V ! i)) (sd_qset (vf_devs V ! i)) pos"

text \<open>The calls that leave position \<open>p\<close> of device \<open>i\<close> alone.\<close>

fun call_spares :: "vfs \<Rightarrow> nat \<Rightarrow> int \<Rightarrow> fcall \<Rightarrow> bool" where
  "call_spares V i p (OpenCall fd j flags intr) \<longleftrightarrow> \<not> (j = i \<and> and flags O_ACCMODE = O_WRONLY \<and> \<not> intr)"
| "call_spares V i p (WriteCall fd buf count intr) \<longleftrightarrow> (case vf_files V fd of None \<Rightarrow> True
     | Some f \<Rightarrow> private_data f \<noteq> i \<or> dev_pos_ok V i (of_pos f) \<and> p \<notin> {of_pos f..<of_pos f + count})"
| "call_spares V i p _ \<longleftrightarrow> True"

fun session_spares :: "kapi \<Rightarrow> ioc \<Rightarrow> nat \<Rightarrow> int \<Rightarrow> fcall list \<Rightarrow> vfs \<Rightarrow> bool" where
  "session_spares K M i p [] V \<longleftrightarrow> True"
| "session_spares K M i p (c # cs) V \<longleftrightarrow> call_spares V i p c \<and>
     (case file_call K M c V of Inl e \<Rightarrow> True | Inr (r, V1) \<Rightarrow> session_spares K M i p cs V1)"

definition keeps_byte :: "nat \<Rightarrow> int \<Rightarrow> vfs \<Rightarrow> vfs \<Rightarrow> bool" where
  "keeps_byte i p V V' \<longleftrightarrow> (dev_peek V i p \<noteq> None \<longrightarrow> dev_peek V' i p = dev_peek V i p) \<and> dev_size V i \<le> dev_size V' i"

lemma keeps_byte_refl [simp]: "keeps_byte i p V V"
  by (simp add: keeps_byte_def)

lemma keeps_byte_trans [trans]: "keeps_byte i p V V1 \<Longrightarrow> keeps_byte i p V1 V2 \<Longrightarrow> keeps_byte i p V V2"
  by (auto simp: keeps_byte_def)

lemma keeps_byte_same: "dev_same i V V' \<Longrightarrow> keeps_byte i p V V'"
  by (auto simp: keeps_byte_def dev_same_def dev_peek_def dev_size_def)

lemma keeps_byte_io:
  assumes "vf_files V fd = Some f" "private_data f = i" "i < length (vf_devs V)"
    and "scull_peek (vf_heap V) (vf_devs V ! i) p \<noteq> None \<longrightarrow>
      scull_peek (io_heap s) (io_dev s) p = scull_peek (vf_heap V) (vf_devs V ! i) p"
    and "sd_size (vf_devs V ! i) \<le> sd_size (io_dev s)"
  shows "keeps_byte i p V (after_io V fd f s)"
  using assms by (simp add: keeps_byte_def dev_peek_def dev_size_def after_io_def)

lemma call_keeps_byte:
  assumes K: "kapi_ok K" and ok: "vfs_ok V ndss" and ps: "passed_on V c" and i: "i < length (vf_devs V)"
    and p: "0 \<le> p" and sp: "call_spares V i p c" and call: "file_call K M c V = Inr (r, V')"
  shows "keeps_byte i p V V'"
proof (cases "call_dev V c = Some i")
  case False
  obtain ndss' where "call_result V ndss (call_dev V c) V' ndss'"
    using file_call_result [OF K ok ps, of M] call by auto
  then have "dev_same i V V'" using False i by (auto simp: call_result_def)
  then show ?thesis by (rule keeps_byte_same)
next
  case True
  show ?thesis
  proof (cases c)
    case (OpenCall fd j flags intr)
    then have j: "j = i" "\<not> (and flags O_ACCMODE = O_WRONLY \<and> \<not> intr)" using True sp by auto
    then show ?thesis
      using call i OpenCall
      by (auto simp: scull_fops_def scull_open_def down_interruptible_def Let_def keeps_byte_def dev_peek_def dev_size_def
          split: if_splits)
  next
    case (ReadCall fd buf count intr)
    then obtain f where f: "vf_files V fd = Some f" "private_data f = i" and c: "0 \<le> count" "of_pos f + count < 2 ^ 63"
      using True ps by (auto simp: file_in_range_def split: option.splits)
    note io = file_io_ok [OF ok f(1)]
    have "count < 2 ^ 63" using c io(3) by (simp add: file_io_def)
    then obtain s where rd: "scull_read K intr buf count (file_io V f) = Inr (r, s)" "same_bytes (file_io V f) s"
      using scull_read_safe [OF _ _ io c(1), where K = K and buf = buf and intr = intr] K call ReadCall f
      by (auto simp: kapi_ok_def with_file_def scull_fops_def)
    have "V' = after_io V fd f s" using call ReadCall f rd(1) by (simp add: with_file_def scull_fops_def)
    then show ?thesis
      using keeps_byte_io [OF f i, of p s] rd(2) f(2) by (simp add: same_bytes_def file_io_def)
  next
    case (WriteCall fd buf count intr)
    then obtain f where f: "vf_files V fd = Some f" "private_data f = i" and c: "0 \<le> count" "of_pos f + count < 2 ^ 63"
      using True ps by (auto simp: file_in_range_def split: option.splits)
    then have pos: "dev_pos_ok V i (of_pos f)" "p \<notin> {of_pos f..<of_pos f + count}" using sp WriteCall by auto
    note io = file_io_ok [OF ok f(1)]
    obtain s where wr: "scull_write K intr buf count (file_io V f) = Inr (r, s)" and V': "V' = after_io V fd f s"
      using call WriteCall f by (auto simp: with_file_def scull_fops_def kbind_Inr_iff)
    show ?thesis
    proof (cases intr)
      case intr: True
      then have "s = file_io V f"
        using wr by (simp add: scull_write_def down_interruptible_def)
      then show ?thesis
        using keeps_byte_io [OF f i, of p s] f(2) V' by (simp add: file_io_def)
    next
      case intr: False
      have "write_outcome K buf count (file_io V f) r s"
        using scull_write_runs [OF _ _ io(1,2) _ c(1), of K buf] K c pos wr intr f(2)
        by (auto simp: kapi_ok_def file_io_def dev_pos_ok_def)
      then show ?thesis
        using keeps_byte_io [OF f i, of p s] f(2) V' pos(2) p
        by (auto simp: write_outcome_def Let_def file_io_def)
    qed
  qed (use True in auto)
qed

lemma session_keeps_byte:
  assumes K: "kapi_ok K" and p: "0 \<le> p"
  shows "vfs_ok V ndss \<Longrightarrow> session_ok K M cs V \<Longrightarrow> i < length (vf_devs V) \<Longrightarrow> session_spares K M i p cs V \<Longrightarrow>
    \<exists>rs V' ndss'. session K M cs V = Inr (rs, V') \<and> vfs_ok V' ndss' \<and> keeps_byte i p V V'"
proof (induction cs arbitrary: V ndss)
  case (Cons c cs)
  obtain r V1 ndss1 where call: "file_call K M c V = Inr (r, V1)"
    and res: "call_result V ndss (call_dev V c) V1 ndss1"
    using file_call_result [OF K Cons.prems(1)] Cons.prems(2) by fastforce
  have "keeps_byte i p V V1"
    by (rule call_keeps_byte [OF K Cons.prems(1) _ Cons.prems(3) p _ call]) (use Cons.prems in simp_all)
  moreover obtain rs V2 ndss2 where "session K M cs V1 = Inr (rs, V2)" "vfs_ok V2 ndss2" "keeps_byte i p V1 V2"
    using Cons.IH [of V1 ndss1] Cons.prems call res by (auto simp: call_result_def)
  ultimately show ?case using call keeps_byte_trans by fastforce
qed auto

text \<open>C9: What is stored stays stored: let a device hold a byte, by whichever file it was written. Any
  session that runs on the devices, by any number of files, opens, closes, seeks, reads, ioctls
  and writes included, leaves the byte where it is and never makes the file shorter, as long
  as no write to this device covers the position and no write-only open empties it; and every
  read that starts there after the session delivers that byte first.\<close>

theorem scull_data_persists:
  assumes "kapi_ok K" "vfs_ok V ndss" "session_ok K M cs V" "i < length (vf_devs V)"
    and "0 \<le> p" "dev_peek V i p = Some b" "p < dev_size V i" "session_spares K M i p cs V"
  shows "\<exists>rs V'. session K M cs V = Inr (rs, V') \<and> dev_peek V' i p = Some b \<and> dev_size V i \<le> dev_size V' i \<and>
    (\<forall>fd f buf count. vf_files V' fd = Some f \<and> private_data f = i \<and> of_pos f = p \<and> dev_pos_ok V' i p \<and>
       0 < count \<and> p + count < 2 ^ 63 \<and> user_ok K buf (nat (min count (min (dev_size V' i - p)
         (sd_quantum (vf_devs V' ! i) - p mod sd_quantum (vf_devs V' ! i))))) \<longrightarrow>
       (\<exists>r V2. file_call K M (ReadCall fd buf count False) V' = Inr (r, V2) \<and> 0 < r \<and> vf_user V2 buf = b))"
proof -
  obtain rs V' ndss' where run: "session K M cs V = Inr (rs, V')" and ok: "vfs_ok V' ndss'"
    and kp: "keeps_byte i p V V'"
    using session_keeps_byte [OF assms(1,5,2,3,4,8)] by blast
  have pk: "dev_peek V' i p = Some b" and sz: "dev_size V i \<le> dev_size V' i"
    using kp assms(6) by (auto simp: keeps_byte_def)
  have "\<exists>r V2. file_call K M (ReadCall fd buf count False) V' = Inr (r, V2) \<and> 0 < r \<and> vf_user V2 buf = b"
    if f: "vf_files V' fd = Some f" "private_data f = i" "of_pos f = p" and pos: "dev_pos_ok V' i p"
      and c: "0 < count" "p + count < 2 ^ 63" and u: "user_ok K buf (nat (min count (min (dev_size V' i - p)
         (sd_quantum (vf_devs V' ! i) - p mod sd_quantum (vf_devs V' ! i)))))" for fd f buf count
  proof -
    let ?s = "file_io V' f"
    note io = file_io_ok [OF ok f(1)]
    have q: "0 < sd_quantum (vf_devs V' ! i)" using io(1) f(2) by (simp add: scull_ok_def geom_ok_def file_io_def)
    define n where "n = min count (min (dev_size V' i - p) (sd_quantum (vf_devs V' ! i) - p mod sd_quantum (vf_devs V' ! i)))"
    have n: "0 < n" using c(1) sz assms(7) pos_mod_bound [OF q, of p] by (simp add: n_def)
    have bytes: "dev_bytes ?s count = map (\<lambda>j. the (dev_peek V' i (p + int j))) [0..<nat n]"
      using pk sz assms(7) f
      by (simp add: dev_bytes_def scull_read_bytes_def dev_peek_def dev_size_def file_io_def n_def)
    then have len: "length (dev_bytes ?s count) = nat n" by simp
    obtain r s where rd: "scull_read K False buf count ?s = Inr (r, s)"
      and ro: "read_outcome K buf (dev_bytes ?s count) ?s r s"
      using scull_read_runs [OF _ _ io(1,2), of K count buf] assms(1) f pos c assms(5)
      by (auto simp: kapi_ok_def file_io_def dev_pos_ok_def)
    have e: "io_user ?s = vf_user V'" by (simp add: file_io_def)
    have r: "r = n" "io_user s = um_write (vf_user V') buf (dev_bytes ?s count)"
      using ro u n e by (auto simp: read_outcome_def len n_def [symmetric])
    have "io_user s buf = b"
      using n pk by (simp add: r(2) bytes um_write_def)
    then show ?thesis
      using rd f n r(1) by (simp add: with_file_def scull_fops_def after_io_def)
  qed
  then show ?thesis using run pk sz by blast
qed

text \<open>Four bytes written to device 0; then device 1 is emptied, the next two bytes are written, and a
  reader goes to position 2.\<close>

definition stored_vfs :: vfs where
  "stored_vfs = (case session demo_api linux_ioc [OpenCall 3 0 2 False, WriteCall 3 100 4 False] demo_vfs of
     Inl e \<Rightarrow> demo_vfs | Inr (rs, V) \<Rightarrow> V)"

definition busy_calls :: "fcall list" where
  "busy_calls = [OpenCall 4 1 1 False, OpenCall 5 0 0 False, WriteCall 3 200 2 False, LlseekCall 5 2 0]"

lemma stored_vfs_ok: "\<exists>ndss. vfs_ok stored_vfs ndss"
proof -
  have "session_ok demo_api linux_ioc [OpenCall 3 0 2 False, WriteCall 3 100 4 False] demo_vfs" by code_simp
  from session_runs [OF sample_kapi_ok demo_vfs_ok this] show ?thesis
    by (auto simp: stored_vfs_def)
qed

lemma stored_facts:
  "session_ok demo_api linux_ioc busy_calls stored_vfs" "session_spares demo_api linux_ioc 0 2 busy_calls stored_vfs"
  "dev_peek stored_vfs 0 2 = Some 102" "2 < dev_size stored_vfs 0" "0 < length (vf_devs stored_vfs)"
  by code_simp+

lemma scull_data_persists_witness:
  "\<exists>rs V'. session demo_api linux_ioc busy_calls stored_vfs = Inr (rs, V') \<and> dev_peek V' 0 2 = Some 102 \<and>
    (\<exists>r V2. file_call demo_api linux_ioc (ReadCall 5 500 1 False) V' = Inr (r, V2) \<and> 0 < r \<and> vf_user V2 500 = 102)"
proof -
  obtain ndss where ok: "vfs_ok stored_vfs ndss" using stored_vfs_ok by blast
  obtain rs V' where run: "session demo_api linux_ioc busy_calls stored_vfs = Inr (rs, V')" "dev_peek V' 0 2 = Some 102"
    and rd: "\<And>fd f buf count. vf_files V' fd = Some f \<and> private_data f = 0 \<and> of_pos f = 2 \<and> dev_pos_ok V' 0 2 \<and>
       0 < count \<and> 2 + count < 2 ^ 63 \<and> user_ok demo_api buf (nat (min count (min (dev_size V' 0 - 2)
         (sd_quantum (vf_devs V' ! 0) - 2 mod sd_quantum (vf_devs V' ! 0))))) \<Longrightarrow>
       (\<exists>r V2. file_call demo_api linux_ioc (ReadCall fd buf count False) V' = Inr (r, V2) \<and> 0 < r \<and> vf_user V2 buf = 102)"
    using scull_data_persists [OF sample_kapi_ok ok stored_facts(1,5) _ stored_facts(3,4,2)] by auto
  have "case session demo_api linux_ioc busy_calls stored_vfs of Inl e \<Rightarrow> False
    | Inr (rs, V') \<Rightarrow> (case vf_files V' 5 of None \<Rightarrow> False | Some f \<Rightarrow> private_data f = 0 \<and> of_pos f = 2) \<and> dev_pos_ok V' 0 2 \<and>
        user_ok demo_api 500 (nat (min 1 (min (dev_size V' 0 - 2)
         (sd_quantum (vf_devs V' ! 0) - 2 mod sd_quantum (vf_devs V' ! 0)))))"
    by code_simp
  then obtain f where "vf_files V' 5 = Some f" "private_data f = 0" "of_pos f = 2" "dev_pos_ok V' 0 2"
    "user_ok demo_api 500 (nat (min 1 (min (dev_size V' 0 - 2)
         (sd_quantum (vf_devs V' ! 0) - 2 mod sd_quantum (vf_devs V' ! 0)))))"
    using run(1) by (auto split: option.splits)
  then show ?thesis using run rd [of 5 f 1 500] by auto
qed

end
