(* ===== verification/ScullSpec.thy ===== *)
theory ScullSpec
  imports ScullStore
begin

text \<open>
  The contract of the scull devices, without memory objects: a device is a sparse file, a size
  and a byte or a hole at every position, and a call is a transition of the files, one rule for
  each way it may end. Every session of the driver is a run of this specification.
\<close>

section \<open>Sparse files\<close>

record sparse =
  sp_size :: int
  sp_quantum :: int
  sp_qset :: int
  sp_bytes :: "int \<Rightarrow> byte option"

record files =
  fs_params :: scull_globals
  fs_devs :: "sparse list"
  fs_user :: umem
  fs_files :: "nat \<Rightarrow> open_file option"

definition empty_file :: "scull_globals \<Rightarrow> sparse" where
  "empty_file g = \<lparr>sp_size = 0, sp_quantum = g_quantum g, sp_qset = g_qset g, sp_bytes = (\<lambda>p. None)\<rparr>"

text \<open>The bytes a read delivers, and how many bytes a write can store.\<close>

definition readable :: "sparse \<Rightarrow> int \<Rightarrow> int \<Rightarrow> byte list" where
  "readable d pos cnt = scull_read_bytes (sp_bytes d) (sp_size d) (sp_quantum d) pos cnt"

definition writable :: "sparse \<Rightarrow> int \<Rightarrow> int \<Rightarrow> int" where
  "writable d pos cnt = min cnt (sp_quantum d - pos mod sp_quantum d)"

text \<open>Outside the range a write only fills holes, and only in the quantum it writes to: what it
  fills them with is not specified.\<close>

definition undisturbed :: "int \<Rightarrow> int \<Rightarrow> sparse \<Rightarrow> sparse \<Rightarrow> bool" where
  "undisturbed pos n d d' \<longleftrightarrow> sp_quantum d' = sp_quantum d \<and> sp_qset d' = sp_qset d \<and>
     (\<forall>p. p \<notin> {pos..<pos + n} \<longrightarrow> sp_bytes d p \<noteq> None \<longrightarrow> sp_bytes d' p = sp_bytes d p)"

definition stored :: "int \<Rightarrow> byte list \<Rightarrow> sparse \<Rightarrow> sparse \<Rightarrow> bool" where
  "stored pos bs d d' \<longleftrightarrow> undisturbed pos (int (length bs)) d d' \<and>
     sp_size d' = max (sp_size d) (pos + int (length bs)) \<and>
     (\<forall>i < length bs. sp_bytes d' (pos + int i) = Some (bs ! i)) \<and>
     (\<forall>p. sp_bytes d p = None \<longrightarrow> sp_bytes d' p \<noteq> None \<longrightarrow> p div sp_quantum d = pos div sp_quantum d)"

definition lseek_target :: "int \<Rightarrow> int \<Rightarrow> int \<Rightarrow> int \<Rightarrow> int option" where
  "lseek_target fsize pos off whence =
     (let t = (if whence = 1 then pos else if whence = 2 then fsize else 0) + off in
      if whence \<in> {0, 1, 2} \<and> 0 \<le> t \<and> t < 2 ^ 63 then Some t else None)"

definition at_pos :: "files \<Rightarrow> nat \<Rightarrow> open_file \<Rightarrow> int \<Rightarrow> files" where
  "at_pos F fd f pos = F\<lparr>fs_files := (fs_files F)(fd \<mapsto> f\<lparr>of_pos := pos\<rparr>)\<rparr>"

section \<open>The transitions\<close>

inductive spec_step :: "kapi \<Rightarrow> ioc \<Rightarrow> files \<Rightarrow> fcall \<Rightarrow> int \<Rightarrow> files \<Rightarrow> bool" for K M where
  spec_open:
    "and flags O_ACCMODE \<noteq> O_WRONLY \<Longrightarrow>
     spec_step K M F (OpenCall fd i flags intr) 0 (F\<lparr>fs_files := (fs_files F)(fd \<mapsto> \<lparr>private_data = i, of_pos = 0\<rparr>)\<rparr>)"
| spec_open_empties:
    "and flags O_ACCMODE = O_WRONLY \<Longrightarrow>
     spec_step K M F (OpenCall fd i flags False) 0
       (F\<lparr>fs_devs := (fs_devs F)[i := empty_file (fs_params F)],
          fs_files := (fs_files F)(fd \<mapsto> \<lparr>private_data = i, of_pos = 0\<rparr>)\<rparr>)"
| spec_open_interrupted:
    "and flags O_ACCMODE = O_WRONLY \<Longrightarrow> spec_step K M F (OpenCall fd i flags True) (- ERESTARTSYS) F"
| spec_release:
    "spec_step K M F (ReleaseCall fd) 0 (F\<lparr>fs_files := (fs_files F)(fd := None)\<rparr>)"
| spec_llseek:
    "fs_files F fd = Some f \<Longrightarrow>
     lseek_target (sp_size (fs_devs F ! private_data f)) (of_pos f) off whence = Some pos \<Longrightarrow>
     spec_step K M F (LlseekCall fd off whence) pos (at_pos F fd f pos)"
| spec_llseek_invalid:
    "fs_files F fd = Some f \<Longrightarrow>
     lseek_target (sp_size (fs_devs F ! private_data f)) (of_pos f) off whence = None \<Longrightarrow>
     spec_step K M F (LlseekCall fd off whence) (- EINVAL) F"
| spec_read:
    "fs_files F fd = Some f \<Longrightarrow> bs = readable (fs_devs F ! private_data f) (of_pos f) count \<Longrightarrow>
     spec_step K M F (ReadCall fd buf count False) (int (length bs))
       (at_pos (F\<lparr>fs_user := um_write (fs_user F) buf bs\<rparr>) fd f (of_pos f + int (length bs)))"
| spec_read_fault:
    "fs_files F fd = Some f \<Longrightarrow> \<not> user_ok K buf (length (readable (fs_devs F ! private_data f) (of_pos f) count)) \<Longrightarrow>
     spec_step K M F (ReadCall fd buf count False) (- EFAULT) (F\<lparr>fs_user := um\<rparr>)"
| spec_read_interrupted:
    "spec_step K M F (ReadCall fd buf count True) (- ERESTARTSYS) F"
| spec_write:
    "fs_files F fd = Some f \<Longrightarrow> i = private_data f \<Longrightarrow> n = writable (fs_devs F ! i) (of_pos f) count \<Longrightarrow>
     stored (of_pos f) (um_read (fs_user F) buf (nat n)) (fs_devs F ! i) d \<Longrightarrow>
     spec_step K M F (WriteCall fd buf count False) n (at_pos (F\<lparr>fs_devs := (fs_devs F)[i := d]\<rparr>) fd f (of_pos f + n))"
| spec_write_fault:
    "fs_files F fd = Some f \<Longrightarrow> i = private_data f \<Longrightarrow> n = writable (fs_devs F ! i) (of_pos f) count \<Longrightarrow>
     \<not> user_ok K buf (nat n) \<Longrightarrow> undisturbed (of_pos f) n (fs_devs F ! i) d \<Longrightarrow>
     sp_size d = sp_size (fs_devs F ! i) \<Longrightarrow>
     spec_step K M F (WriteCall fd buf count False) (- EFAULT) (F\<lparr>fs_devs := (fs_devs F)[i := d]\<rparr>)"
| spec_write_nomem:
    "spec_step K M F (WriteCall fd buf count False) (- ENOMEM) F"
| spec_write_interrupted:
    "spec_step K M F (WriteCall fd buf count True) (- ERESTARTSYS) F"
| spec_ioctl:
    "(r, g, um) = (if cmd_uses_ptr c \<and> \<not> access_ok K arg 4 then (- EFAULT, fs_params F, fs_user F)
       else if cmd_privileged c \<and> \<not> capable_sys_admin K then (- EPERM, fs_params F, fs_user F)
       else ioctl_exec K c arg (fs_params F) (fs_user F)) \<Longrightarrow>
     spec_step K M F (IoctlCall fd (cmd_code M c) arg) r (F\<lparr>fs_params := g, fs_user := um\<rparr>)"
| spec_ioctl_unknown:
    "cmd \<notin> range (cmd_code M) \<Longrightarrow> r = - ENOTTY \<or> r = - EFAULT \<Longrightarrow>
     spec_step K M F (IoctlCall fd cmd arg) r F"

inductive spec_run :: "kapi \<Rightarrow> ioc \<Rightarrow> files \<Rightarrow> fcall list \<Rightarrow> int list \<Rightarrow> files \<Rightarrow> bool" for K M where
  spec_done: "spec_run K M F [] [] F"
| spec_call: "spec_step K M F c r F1 \<Longrightarrow> spec_run K M F1 cs rs F2 \<Longrightarrow> spec_run K M F (c # cs) (r # rs) F2"

section \<open>The files a driver state stands for\<close>

definition file_of :: "scull_heap \<Rightarrow> scull_dev \<Rightarrow> sparse" where
  "file_of h d = \<lparr>sp_size = sd_size d, sp_quantum = sd_quantum d, sp_qset = sd_qset d,
     sp_bytes = (\<lambda>p. if 0 \<le> p then scull_peek h d p else None)\<rparr>"

definition files_of :: "vfs \<Rightarrow> files" where
  "files_of V = \<lparr>fs_params = vf_globals V, fs_devs = map (file_of (vf_heap V)) (vf_devs V),
     fs_user = vf_user V, fs_files = vf_files V\<rparr>"

text \<open>The calls that stay within the reach of a device: its list items are numbered by an \<open>int\<close>.\<close>

definition in_reach :: "vfs \<Rightarrow> nat \<Rightarrow> bool" where
  "in_reach V fd = (case vf_files V fd of None \<Rightarrow> True | Some f \<Rightarrow> dev_pos_ok V (private_data f) (of_pos f))"

fun call_in_reach :: "vfs \<Rightarrow> fcall \<Rightarrow> bool" where
  "call_in_reach V (ReadCall fd buf count intr) = in_reach V fd"
| "call_in_reach V (WriteCall fd buf count intr) = in_reach V fd"
| "call_in_reach V _ = True"

fun session_in_reach :: "kapi \<Rightarrow> ioc \<Rightarrow> fcall list \<Rightarrow> vfs \<Rightarrow> bool" where
  "session_in_reach K M [] V \<longleftrightarrow> True"
| "session_in_reach K M (c # cs) V \<longleftrightarrow> call_in_reach V c \<and>
     (case file_call K M c V of Inl e \<Rightarrow> True | Inr (r, V1) \<Rightarrow> session_in_reach K M cs V1)"

lemma file_of_sel [simp]:
  "sp_size (file_of h d) = sd_size d" "sp_quantum (file_of h d) = sd_quantum d" "sp_qset (file_of h d) = sd_qset d"
  "sp_bytes (file_of h d) p = (if 0 \<le> p then scull_peek h d p else None)"
  by (simp_all add: file_of_def)

lemma files_of_sel [simp]:
  "fs_params (files_of V) = vf_globals V" "fs_user (files_of V) = vf_user V" "fs_files (files_of V) = vf_files V"
  "length (fs_devs (files_of V)) = length (vf_devs V)"
  "i < length (vf_devs V) \<Longrightarrow> fs_devs (files_of V) ! i = file_of (vf_heap V) (vf_devs V ! i)"
  by (simp_all add: files_of_def)

lemma file_of_same: "dev_same j V V' \<Longrightarrow> file_of (vf_heap V') (vf_devs V' ! j) = file_of (vf_heap V) (vf_devs V ! j)"
  by (auto simp: dev_same_def file_of_def fun_eq_iff)

lemma file_of_empty: "sd_data d = NULL \<Longrightarrow> sd_size d = 0 \<Longrightarrow> sd_quantum d = g_quantum g \<Longrightarrow> sd_qset d = g_qset g \<Longrightarrow>
    file_of h d = empty_file g"
proof -
  have "nth_item h NULL k = NULL" for k by (cases k) simp_all
  then have "scull_peek h d p = None" if "sd_data d = NULL" for p
    using that by (simp add: scull_peek_def item_block_def Let_def)
  then show "sd_data d = NULL \<Longrightarrow> sd_size d = 0 \<Longrightarrow> sd_quantum d = g_quantum g \<Longrightarrow> sd_qset d = g_qset g \<Longrightarrow> ?thesis"
    by (simp add: file_of_def empty_file_def fun_eq_iff)
qed

text \<open>After a call on device \<open>i\<close> the other files are what they were.\<close>

lemma files_of_update:
  assumes "call_result V ndss (Some i) V' ndss'" "i < length (vf_devs V)"
  shows "fs_devs (files_of V') = (fs_devs (files_of V))[i := file_of (vf_heap V') (vf_devs V' ! i)]"
proof (rule nth_equalityI)
  show "length (fs_devs (files_of V')) = length ((fs_devs (files_of V))[i := file_of (vf_heap V') (vf_devs V' ! i)])"
    using assms(1) by (simp add: call_result_def)
  fix j assume "j < length (fs_devs (files_of V'))"
  then have "j < length (vf_devs V)" "j < length (vf_devs V')" using assms(1) by (simp_all add: call_result_def)
  then show "fs_devs (files_of V') ! j = (fs_devs (files_of V))[i := file_of (vf_heap V') (vf_devs V' ! i)] ! j"
    using assms file_of_same [of j V V'] by (cases "j = i") (auto simp: call_result_def)
qed

section \<open>Every call is a transition\<close>

lemma open_spec:
  assumes ok: "vfs_ok V ndss" and p: "passed_on V (OpenCall fd i flags intr)"
    and call: "file_call K M (OpenCall fd i flags intr) V = Inr (r, V')"
    and upd: "fs_devs (files_of V') = (fs_devs (files_of V))[i := file_of (vf_heap V') (vf_devs V' ! i)]"
  shows "spec_step K M (files_of V) (OpenCall fd i flags intr) r (files_of V')"
proof -
  let ?d = "vf_devs V ! i"
  have i: "i < length (vf_devs V)" using p by simp
  have rep: "scull_rep (vf_heap V) ?d (ndss ! i)" and sem: "sd_sem ?d = 1"
    using ok i by (simp_all add: vfs_ok_def devs_ok_def scull_ok_def)
  note op = scull_open_correct [OF rep, of "vf_globals V" intr flags]
  consider (plain) "and flags 3 \<noteq> 1" | (intr) "and flags 3 = 1" intr | (trunc) "and flags 3 = 1" "\<not> intr" by blast
  then show ?thesis
  proof cases
    case plain
    then have "r = 0" "files_of V' = (files_of V)\<lparr>fs_files := (fs_files (files_of V))(fd \<mapsto> \<lparr>private_data = i, of_pos = 0\<rparr>)\<rparr>"
      using call op by (auto simp: scull_fops_def Let_def files_of_def)
    then show ?thesis using spec_open [of flags K M "files_of V" fd i intr] plain by simp
  next
    case intr
    then have "r = - ERESTARTSYS" "files_of V' = files_of V"
      using call op by (auto simp: scull_fops_def Let_def files_of_def)
    then show ?thesis using spec_open_interrupted [of flags K M "files_of V" fd i] intr by simp
  next
    case trunc
    let ?d' = "?d\<lparr>sd_size := 0, sd_quantum := g_quantum (vf_globals V), sd_qset := g_qset (vf_globals V), sd_data := NULL\<rparr>"
    have V': "r = 0" "V' = V\<lparr>vf_heap := freed (vf_heap V) (set (owned (ndss ! i))), vf_devs := (vf_devs V)[i := ?d'],
        vf_files := (vf_files V)(fd \<mapsto> \<lparr>private_data = i, of_pos = 0\<rparr>)\<rparr>"
      using call op trunc sem by (auto simp: scull_fops_def Let_def)
    have "fs_devs (files_of V') = (fs_devs (files_of V))[i := empty_file (vf_globals V)]"
      unfolding upd using i by (simp add: V'(2) file_of_empty)
    then have "files_of V' = (files_of V)\<lparr>fs_devs := (fs_devs (files_of V))[i := empty_file (fs_params (files_of V))],
        fs_files := (fs_files (files_of V))(fd \<mapsto> \<lparr>private_data = i, of_pos = 0\<rparr>)\<rparr>"
      by (simp add: V'(2) files_of_def)
    then show ?thesis using spec_open_empties [of flags K M "files_of V" fd i] trunc V'(1) by simp
  qed
qed

lemma llseek_spec:
  assumes ok: "vfs_ok V ndss" and p: "passed_on V (LlseekCall fd off whence)"
    and call: "file_call K M (LlseekCall fd off whence) V = Inr (r, V')"
  shows "spec_step K M (files_of V) (LlseekCall fd off whence) r (files_of V')"
proof -
  obtain f where f: "vf_files V fd = Some f" and off: "- (2 ^ 63) \<le> off" "off < 2 ^ 63" using p by auto
  let ?d = "vf_devs V ! private_data f" and ?F = "files_of V"
  have i: "private_data f < length (vf_devs V)" "0 \<le> of_pos f" "of_pos f < 2 ^ 63"
    using ok f by (auto simp: vfs_ok_def)
  have sz: "0 \<le> sd_size ?d" "sd_size ?d < 2 ^ 63" using ok i(1) by (auto simp: vfs_ok_def devs_ok_def scull_ok_def)
  have seek: "scull_llseek ?d (of_pos f) off whence =
      (case lseek_target (sd_size ?d) (of_pos f) off whence of None \<Rightarrow> (- EINVAL, of_pos f) | Some t \<Rightarrow> (t, t))"
    using scull_llseek_correct [OF i(2,3) sz off] by (auto simp: lseek_target_def Let_def)
  show ?thesis
  proof (cases "lseek_target (sd_size ?d) (of_pos f) off whence")
    case None
    then have "r = - EINVAL" "files_of V' = ?F"
      using call f seek by (auto simp: with_file_def scull_fops_def files_of_def)
    then show ?thesis using spec_llseek_invalid [of ?F fd f off whence K M] None f i(1) by simp
  next
    case (Some t)
    then have "r = t" "files_of V' = at_pos ?F fd f t"
      using call f seek by (auto simp: with_file_def scull_fops_def files_of_def at_pos_def)
    then show ?thesis using spec_llseek [of ?F fd f off whence t K M] Some f i(1) by simp
  qed
qed

lemma ioctl_spec:
  assumes M: "ioc_ok M" and p: "passed_on V (IoctlCall fd cmd arg)"
    and call: "file_call K M (IoctlCall fd cmd arg) V = Inr (r, V')"
  shows "spec_step K M (files_of V) (IoctlCall fd cmd arg) r (files_of V')"
proof -
  obtain f where f: "vf_files V fd = Some f" using p by auto
  obtain g um where io: "scull_ioctl K M cmd arg (vf_globals V) (vf_user V) = (r, g, um)"
    and V': "V' = V\<lparr>vf_globals := g, vf_user := um\<rparr>"
    using call f by (auto simp: with_file_def scull_fops_def split: prod.splits)
  have F: "files_of V' = (files_of V)\<lparr>fs_params := g, fs_user := um\<rparr>" by (simp add: V' files_of_def)
  show ?thesis
  proof (cases "cmd \<in> range (cmd_code M)")
    case True
    then obtain c where c: "cmd = cmd_code M c" by blast
    show ?thesis
      using ioctl_commands [OF M, of K c arg "vf_globals V" "vf_user V"] io
      unfolding c F by (intro spec_ioctl) simp
  next
    case False
    have "(r = - ENOTTY \<or> r = - EFAULT) \<and> g = vf_globals V \<and> um = vf_user V"
      using io ioctl_unknown [OF False] by (auto simp: scull_ioctl_def split: if_splits)
    moreover from this have "files_of V' = files_of V" using F by (simp add: files_of_def)
    ultimately show ?thesis using spec_ioctl_unknown [OF False, of r K "files_of V" fd arg] by simp
  qed
qed

lemma file_io_sel [simp]:
  "io_heap (file_io V f) = vf_heap V" "io_dev (file_io V f) = vf_devs V ! private_data f"
  "io_user (file_io V f) = vf_user V" "io_pos (file_io V f) = of_pos f"
  by (simp_all add: file_io_def)

text \<open>The files after a read or write on file \<open>f\<close>.\<close>

lemma files_of_after_io:
  assumes "fs_devs (files_of (after_io V fd f s)) = (fs_devs (files_of V))[i := d]"
  shows "files_of (after_io V fd f s) = at_pos ((files_of V)\<lparr>fs_devs := (fs_devs (files_of V))[i := d], fs_user := io_user s\<rparr>) fd f (io_pos s)"
  using assms by (simp add: files_of_def at_pos_def after_io_def)

lemma at_pos_same: "fs_files F fd = Some f \<Longrightarrow> at_pos F fd f (of_pos f) = F"
  by (simp add: at_pos_def fun_upd_idem)

lemma readable_file: "readable (file_of (vf_heap V) (vf_devs V ! private_data f)) (of_pos f) count = dev_bytes (file_io V f) count"
  if "0 \<le> of_pos f"
  using that by (simp add: readable_def dev_bytes_def scull_read_bytes_def)

lemma read_spec:
  assumes K: "kapi_ok K" and ok: "vfs_ok V ndss" and p: "passed_on V (ReadCall fd buf count intr)"
    and rch: "call_in_reach V (ReadCall fd buf count intr)"
    and call: "file_call K M (ReadCall fd buf count intr) V = Inr (r, V')"
    and upd: "\<And>f. vf_files V fd = Some f \<Longrightarrow> fs_devs (files_of V') =
      (fs_devs (files_of V))[private_data f := file_of (vf_heap V') (vf_devs V' ! private_data f)]"
  shows "spec_step K M (files_of V) (ReadCall fd buf count intr) r (files_of V')"
proof -
  obtain f where f: "vf_files V fd = Some f" and c: "0 \<le> count" "of_pos f + count < 2 ^ 63"
    using p by (auto simp: file_in_range_def split: option.splits)
  let ?s = "file_io V f" and ?F = "files_of V"
  have i: "private_data f < length (vf_devs V)" "0 \<le> of_pos f" using ok f by (auto simp: vfs_ok_def)
  note io = file_io_ok [OF ok f]
  obtain s where rd: "scull_read K intr buf count ?s = Inr (r, s)" and V': "V' = after_io V fd f s"
    using call f by (auto simp: with_file_def scull_fops_def kbind_Inr_iff)
  show ?thesis
  proof (cases intr)
    case True
    then have "r = - ERESTARTSYS" "s = ?s" using rd by (simp_all add: scull_read_bracket rd.interrupted)
    moreover have "after_io V fd f ?s = V" using f by (simp add: after_io_def fun_upd_idem)
    ultimately show ?thesis using True V' by (simp add: spec_read_interrupted)
  next
    case False
    have cnt: "count < 2 ^ 63" using c i(2) by simp
    have out: "read_keeps ?s (ndss ! private_data f) s" "read_outcome K buf (dev_bytes ?s count) ?s r s"
      using scull_read_runs [OF _ _ io(1,2) _ c(1) cnt, of K buf] K rch f rd False
      by (auto simp: kapi_ok_def in_reach_def dev_pos_ok_def)
    have same: "file_of (io_heap s) (io_dev s) = file_of (vf_heap V) (vf_devs V ! private_data f)"
      using out(1) by (auto simp: read_keeps_def file_of_def fun_eq_iff)
    have "fs_devs (files_of V') = fs_devs ?F"
      using upd [OF f] same i(1) list_update_id [of "fs_devs ?F" "private_data f"] by (simp add: V' after_io_def)
    then have F: "files_of V' = at_pos (?F\<lparr>fs_user := io_user s\<rparr>) fd f (io_pos s)"
      by (simp add: V' files_of_def at_pos_def after_io_def)
    from out(2) show ?thesis
      unfolding read_outcome_def
    proof (elim disjE conjE)
      assume "r = int (length (dev_bytes ?s count))" "io_pos s = io_pos ?s + r" "io_user s = um_write (io_user ?s) buf (dev_bytes ?s count)"
      then show ?thesis
        using spec_read [of ?F fd f "dev_bytes ?s count" count K M buf] F f i False by (simp add: readable_file)
    next
      assume "r = - EFAULT" "io_pos s = io_pos ?s" "\<not> user_ok K buf (length (dev_bytes ?s count))"
      then show ?thesis
        using spec_read_fault [of ?F fd f K buf count M "io_user s"] F f i False by (simp add: readable_file at_pos_same)
    qed
  qed
qed

text \<open>A write, by the three outcomes of \<open>write_outcome\<close>.\<close>

lemma write_spec:
  assumes K: "kapi_ok K" and ok: "vfs_ok V ndss" and p: "passed_on V (WriteCall fd buf count intr)"
    and rch: "call_in_reach V (WriteCall fd buf count intr)"
    and call: "file_call K M (WriteCall fd buf count intr) V = Inr (r, V')"
    and upd: "\<And>f. vf_files V fd = Some f \<Longrightarrow> fs_devs (files_of V') =
      (fs_devs (files_of V))[private_data f := file_of (vf_heap V') (vf_devs V' ! private_data f)]"
  shows "spec_step K M (files_of V) (WriteCall fd buf count intr) r (files_of V')"
proof -
  obtain f where f: "vf_files V fd = Some f" and c: "0 \<le> count" "of_pos f + count < 2 ^ 63"
    using p by (auto simp: file_in_range_def split: option.splits)
  define i where "i = private_data f"
  let ?s = "file_io V f" and ?F = "files_of V" and ?d = "file_of (vf_heap V) (vf_devs V ! i)"
  have i: "i < length (vf_devs V)" "0 \<le> of_pos f" using ok f by (auto simp: vfs_ok_def i_def)
  note io = file_io_ok [OF ok f]
  obtain s where wr: "scull_write K intr buf count ?s = Inr (r, s)" and V': "V' = after_io V fd f s"
    using call f by (auto simp: with_file_def scull_fops_def kbind_Inr_iff)
  show ?thesis
  proof (cases intr)
    case True
    then have "r = - ERESTARTSYS" "s = ?s" using wr by (simp_all add: scull_write_bracket wr.interrupted)
    moreover have "after_io V fd f ?s = V" using f by (simp add: after_io_def fun_upd_idem)
    ultimately show ?thesis using True V' by (simp add: spec_write_interrupted)
  next
    case False
    obtain nds' where fr: "write_frame ?s (ndss ! i) s nds'" and out: "write_outcome K buf count ?s r s"
      using scull_write_runs [OF _ _ io(1,2) _ c(1), of K buf] K c(2) rch f wr False
      by (auto simp: kapi_ok_def in_reach_def dev_pos_ok_def i_def)
    define d where "d = file_of (io_heap s) (io_dev s)"
    define n where "n = writable ?d (of_pos f) count"
    have geo: "sp_quantum d = sp_quantum ?d" "sp_qset d = sp_qset ?d" and um: "io_user s = vf_user V"
      using fr by (auto simp: write_frame_def d_def i_def)
    have q: "0 < sp_quantum ?d" using io(1) by (simp add: scull_ok_def geom_ok_def i_def)
    have n: "0 \<le> n" using c(1) pos_mod_bound [OF q, of "of_pos f"] by (simp add: n_def writable_def)
    have "fs_devs (files_of V') = (fs_devs ?F)[i := d]"
      using upd [OF f] i(1) by (simp add: V' after_io_def d_def i_def)
    then have F: "files_of V' = at_pos (?F\<lparr>fs_devs := (fs_devs ?F)[i := d]\<rparr>) fd f (io_pos s)"
      using um by (simp add: V' files_of_def at_pos_def after_io_def)
    have w: "n = min count (sd_quantum (io_dev ?s) - io_pos ?s mod sd_quantum (io_dev ?s))"
      by (simp add: n_def writable_def i_def)
    have D: "fs_devs ?F ! i = ?d" using i(1) by simp
    from out show ?thesis
      unfolding write_outcome_def Let_def w [symmetric]
    proof (elim disjE conjE)
      assume "r = - ENOMEM" "io_pos s = io_pos ?s" "sd_size (io_dev s) = sd_size (io_dev ?s)"
        and "\<forall>p\<ge>0. scull_peek (io_heap s) (io_dev s) p = scull_peek (io_heap ?s) (io_dev ?s) p"
      moreover from this have "d = ?d" using geo by (simp add: d_def file_of_def i_def fun_eq_iff)
      ultimately show ?thesis
        using F f D False spec_write_nomem [of K M ?F fd buf count] list_update_id [of "fs_devs ?F" i]
        by (simp add: at_pos_same)
    next
      assume a: "r = - EFAULT" "\<not> user_ok K buf (nat n)" "io_pos s = io_pos ?s" "sd_size (io_dev s) = sd_size (io_dev ?s)"
        and b: "\<forall>p\<ge>0. p \<notin> {io_pos ?s..<io_pos ?s + n} \<longrightarrow> scull_peek (io_heap ?s) (io_dev ?s) p \<noteq> None \<longrightarrow>
          scull_peek (io_heap s) (io_dev s) p = scull_peek (io_heap ?s) (io_dev ?s) p"
      have "undisturbed (of_pos f) n ?d d" using b geo by (auto simp: undisturbed_def d_def i_def)
      then show ?thesis
        using spec_write_fault [of ?F fd f i n count K buf d M] F f D False a by (simp add: at_pos_same n_def d_def i_def)
    next
      assume a: "r = n" "io_pos s = io_pos ?s + n" "sd_size (io_dev s) = max (sd_size (io_dev ?s)) (io_pos ?s + n)"
        and new: "\<forall>p \<in> {io_pos ?s..<io_pos ?s + n}. scull_peek (io_heap s) (io_dev s) p = Some (io_user ?s (buf + (p - io_pos ?s)))"
        and b: "\<forall>p\<ge>0. p \<notin> {io_pos ?s..<io_pos ?s + n} \<longrightarrow> scull_peek (io_heap ?s) (io_dev ?s) p \<noteq> None \<longrightarrow>
          scull_peek (io_heap s) (io_dev s) p = scull_peek (io_heap ?s) (io_dev ?s) p"
        and fresh: "\<forall>p\<ge>0. scull_peek (io_heap ?s) (io_dev ?s) p = None \<longrightarrow> scull_peek (io_heap s) (io_dev s) p \<noteq> None \<longrightarrow>
          p div sd_quantum (io_dev ?s) = io_pos ?s div sd_quantum (io_dev ?s)"
      have "undisturbed (of_pos f) n ?d d" using b geo by (auto simp: undisturbed_def d_def i_def)
      then have "stored (of_pos f) (um_read (vf_user V) buf (nat n)) ?d d"
        using a(3) new fresh i(2) n by (auto simp: stored_def d_def i_def um_read_def)
      then show ?thesis
        using spec_write [of ?F fd f i n count buf d K M] F f D False a by (simp add: n_def i_def)
    qed
  qed
qed

lemma file_call_spec:
  assumes K: "kapi_ok K" and M: "ioc_ok M" and ok: "vfs_ok V ndss" and p: "passed_on V c" and rch: "call_in_reach V c"
    and call: "file_call K M c V = Inr (r, V')" and res: "call_result V ndss (call_dev V c) V' ndss'"
  shows "spec_step K M (files_of V) c r (files_of V')"
proof -
  have upd: "fs_devs (files_of V') = (fs_devs (files_of V))[i := file_of (vf_heap V') (vf_devs V' ! i)]"
    if "call_dev V c = Some i" "i < length (vf_devs V)" for i
    using files_of_update [of V ndss i V' ndss'] res that by simp
  have dev: "private_data f < length (vf_devs V)" if "vf_files V fd = Some f" for fd f
    using ok that by (auto simp: vfs_ok_def)
  show ?thesis
  proof (cases c)
    case (OpenCall fd i flags intr)
    then show ?thesis using open_spec [OF ok] p call upd [of i] by simp
  next
    case (ReleaseCall fd)
    then obtain f where "vf_files V fd = Some f" using p by auto
    then have "r = 0" "files_of V' = (files_of V)\<lparr>fs_files := (fs_files (files_of V))(fd := None)\<rparr>"
      using call ReleaseCall by (auto simp: with_file_def scull_fops_def scull_release_def files_of_def)
    then show ?thesis using spec_release [of K M "files_of V" fd] ReleaseCall by simp
  next
    case (LlseekCall fd off whence)
    then show ?thesis using llseek_spec [OF ok] p call by simp
  next
    case (ReadCall fd buf count intr)
    then show ?thesis using read_spec [OF K ok] p rch call upd dev by simp
  next
    case (WriteCall fd buf count intr)
    then show ?thesis using write_spec [OF K ok] p rch call upd dev by simp
  next
    case (IoctlCall fd cmd arg)
    then show ?thesis using ioctl_spec [OF M] p call by simp
  qed
qed

text \<open>C7: The scull devices are sparse files. Whatever session of opens, closes, seeks, reads, writes and
  ioctls runs on the driver within the reach of its devices, it returns, and the results it
  gives and the state it leaves are those of a run of the specification \<open>spec_run\<close>: one
  transition for each call, over files that are a size, a geometry and a byte or a hole at
  every position, with no lists and no pointers. The specification leaves open when memory runs
  out (for a single write, the lemmas of \<open>ScullMemory\<close> say when), what a faulting copy transfers, and what fills the rest
  of a quantum a write is the first to touch.\<close>

theorem scull_refines_files:
  assumes "kapi_ok K" "ioc_ok M"
  shows "vfs_ok V ndss \<Longrightarrow> session_ok K M cs V \<Longrightarrow> session_in_reach K M cs V \<Longrightarrow>
    \<exists>rs V'. session K M cs V = Inr (rs, V') \<and> spec_run K M (files_of V) cs rs (files_of V')"
proof (induction cs arbitrary: V ndss)
  case Nil
  then show ?case by (auto intro: spec_done)
next
  case (Cons c cs)
  obtain r V1 ndss1 where call: "file_call K M c V = Inr (r, V1)"
    and res: "call_result V ndss (call_dev V c) V1 ndss1"
    using file_call_result [OF assms(1) Cons.prems(1)] Cons.prems(2) by fastforce
  have "spec_step K M (files_of V) c r (files_of V1)"
    by (rule file_call_spec [OF assms Cons.prems(1) _ _ call res]) (use Cons.prems in simp_all)
  moreover obtain rs V2 where "session K M cs V1 = Inr (rs, V2)" "spec_run K M (files_of V1) cs rs (files_of V2)"
    using Cons.IH [of V1 ndss1] Cons.prems call res by (auto simp: call_result_def)
  ultimately show ?case using call by (auto intro: spec_call)
qed

lemma scull_refines_files_witness:
  "\<exists>rs V'. session demo_api linux_ioc demo_calls demo_vfs = Inr (rs, V') \<and> rs = [0, 4, 0, 4, 0, 0] \<and>
    spec_run demo_api linux_ioc (files_of demo_vfs) demo_calls rs (files_of V')"
proof -
  have "session_in_reach demo_api linux_ioc demo_calls demo_vfs" by code_simp
  from scull_refines_files [OF sample_kapi_ok linux_ioc_ok demo_vfs_ok demo_session(1) this]
  show ?thesis using demo_session(3) by auto
qed

end
