(* ===== verification/Lifo.thy ===== *)
theory Lifo
  imports KernelApi
begin

text \<open>
  The LIFO character device (\<open>LIFO/main.c\<close>, \<open>LIFO/lifo.h\<close>): a singly linked list of one-byte
  nodes and a counter \<open>fset\<close>. Writing pushes the bytes of the user buffer one by one, reading
  pops them. There is no lock. The definitions follow the code statement by statement, so the
  paths on which the counter, the list head and the store fall apart are there too.
\<close>

section \<open>Data\<close>

record lifo_node =
  ln_next :: ptr
  ln_value :: byte

record lifo_dev =
  ld_data :: ptr
  ld_fset :: int

type_synonym lifo_heap = "lifo_node kheap"

record lifo_io =
  lo_heap :: lifo_heap
  lo_dev :: lifo_dev
  lo_user :: umem

abbreviation (input) sizeof_node :: int where "sizeof_node \<equiv> 16"

text \<open>A node as \<open>kmalloc\<close> returns it: eight bytes of pointer and the value byte.\<close>

definition raw_node :: "kapi \<Rightarrow> ptr \<Rightarrow> lifo_node" where
  "raw_node K p = \<lparr>ln_next = word_of_int (horner_sum uint 256 (map (kmalloc_byte K p) [0..<8])),
     ln_value = kmalloc_byte K p 8\<rparr>"

section \<open>Emptying, opening, closing\<close>

function lifo_trim_loop :: "lifo_heap \<Rightarrow> ptr \<Rightarrow> lifo_heap res" where
  "lifo_trim_loop h ptr =
     (if ptr = NULL then Inr h
      else kbind (kload h ptr) (\<lambda>nd.
        kbind (kfree h ptr) (\<lambda>h'. lifo_trim_loop h' (ln_next nd))))"
  by pat_completeness auto
termination
  by (relation "measure (\<lambda>(h, ptr). card (dom h))")
    (auto intro: kfree_card)

declare lifo_trim_loop.simps [simp del]

text \<open>The list head is not reset.\<close>

definition lifo_trim :: "lifo_heap \<Rightarrow> lifo_dev \<Rightarrow> (lifo_heap \<times> lifo_dev) res" where
  "lifo_trim h dev =
     kbind (lifo_trim_loop h (ld_data dev)) (\<lambda>h'. Inr (h', dev\<lparr>ld_fset := 0\<rparr>))"

definition lifo_open :: "32 word \<Rightarrow> lifo_heap \<Rightarrow> lifo_dev \<Rightarrow> (int \<times> lifo_heap \<times> lifo_dev) res" where
  "lifo_open f_flags h dev =
     (if and f_flags 3 = 1
      then kbind (lifo_trim h dev) (\<lambda>(h', dev'). Inr (0, h', dev'))
      else Inr (0, h, dev))"

definition lifo_release :: "lifo_dev \<Rightarrow> int \<times> lifo_dev" where
  "lifo_release dev = (0, dev)"

section \<open>Reading\<close>

text \<open>
  The loop variable is an \<open>int\<close>, compared with the \<open>size_t\<close> count; the flag of the result
  tells whether the loop ran to its end or left by \<open>goto out\<close>.
\<close>

function lifo_read_loop ::
    "kapi \<Rightarrow> uaddr \<Rightarrow> int \<Rightarrow> int \<Rightarrow> int \<Rightarrow> ptr \<Rightarrow> lifo_io \<Rightarrow> (bool \<times> int \<times> ptr \<times> lifo_io) res" where
  "lifo_read_loop K buf count i retval ptr s =
     (if \<not> u64 i < count then Inr (True, retval, ptr, s)
      else kbind (kload (lo_heap s) ptr) (\<lambda>nd.
        let (left, um) = copy_to_user K (lo_user s) (buf + i) [ln_value nd] in
        if left \<noteq> 0 then Inr (False, - EFAULT, ptr, s\<lparr>lo_user := um\<rparr>)
        else kbind (kfree (lo_heap s) ptr) (\<lambda>h'.
          lifo_read_loop K buf count (s32 (i + 1)) (s64 (retval + 1)) (ln_next nd)
            (s\<lparr>lo_heap := h', lo_user := um,
               lo_dev := (lo_dev s)\<lparr>ld_fset := s32 (ld_fset (lo_dev s) - 1)\<rparr>\<rparr>))))"
  by pat_completeness auto
termination
  by (relation "measure (\<lambda>(K, buf, count, i, retval, ptr, s). card (dom (lo_heap s)))")
    (auto intro: kfree_card dest: kload_InrD)

declare lifo_read_loop.simps [simp del]

definition lifo_read :: "kapi \<Rightarrow> uaddr \<Rightarrow> int \<Rightarrow> int \<Rightarrow> lifo_io \<Rightarrow> (int \<times> lifo_io) res" where
  "lifo_read K buf count f_pos s =
     (if f_pos \<noteq> 0 then Inr (- EINVAL, s)
      else
        let fset = u64 (ld_fset (lo_dev s)); count1 = (if fset < count then fset else count) in
        kbind (lifo_read_loop K buf count1 0 0 (ld_data (lo_dev s)) s) (\<lambda>(done, retval, ptr, s').
        Inr (retval, if done then s'\<lparr>lo_dev := (lo_dev s')\<lparr>ld_data := ptr\<rparr>\<rparr> else s')))"

section \<open>Writing\<close>

text \<open>
  The result of \<open>kmalloc\<close> is used unchecked. An allocator that returned an address in use
  would break its contract; the model calls that \<open>OutOfBounds\<close>, which is also why the loop
  ends: every turn takes an address that was free.
\<close>

function lifo_write_loop ::
    "kapi \<Rightarrow> uaddr \<Rightarrow> int \<Rightarrow> int \<Rightarrow> int \<Rightarrow> ptr \<Rightarrow> lifo_io \<Rightarrow> (bool \<times> int \<times> ptr \<times> lifo_io) res" where
  "lifo_write_loop K buf count i retval ptr s =
     (if \<not> u64 i < count then Inr (True, retval, ptr, s)
      else
        let new = kmalloc K (live (lo_heap s)) sizeof_node in
        if new = NULL then Inl NullDeref
        else if live (lo_heap s) new then Inl OutOfBounds
        else
          let left = fst (copy_from_user K (lo_user s) (buf + i) 1);
              bs = snd (copy_from_user K (lo_user s) (buf + i) 1);
              nd = (raw_node K new)\<lparr>ln_value := hd bs\<rparr> in
          if left \<noteq> 0 then Inr (False, - EFAULT, ptr, s\<lparr>lo_heap := (lo_heap s)(new \<mapsto> nd)\<rparr>)
          else lifo_write_loop K buf count (s32 (i + 1)) (s64 (retval + 1)) new
            (s\<lparr>lo_heap := (lo_heap s)(new \<mapsto> nd\<lparr>ln_next := ptr\<rparr>),
               lo_dev := (lo_dev s)\<lparr>ld_fset := s32 (ld_fset (lo_dev s) + 1)\<rparr>\<rparr>))"
  by pat_completeness auto
termination
  by (relation "measure (\<lambda>(K, buf, count, i, retval, ptr, s). card (- dom (lo_heap s)))")
    (auto intro: fresh_card simp: live_def)

declare lifo_write_loop.simps [simp del]

definition lifo_write :: "kapi \<Rightarrow> uaddr \<Rightarrow> int \<Rightarrow> lifo_io \<Rightarrow> (int \<times> lifo_io) res" where
  "lifo_write K buf count s =
     kbind (lifo_write_loop K buf count 0 0 (ld_data (lo_dev s)) s) (\<lambda>(done, retval, ptr, s').
     Inr (retval, if done then s'\<lparr>lo_dev := (lo_dev s')\<lparr>ld_data := ptr\<rparr>\<rparr> else s'))"

section \<open>Well-formed devices\<close>

fun chain :: "lifo_heap \<Rightarrow> ptr \<Rightarrow> (ptr \<times> byte) list \<Rightarrow> bool" where
  "chain h p [] \<longleftrightarrow> p = NULL"
| "chain h p ((a, v) # nds) \<longleftrightarrow>
     p = a \<and> a \<noteq> NULL \<and> (\<exists>nx. h a = Some \<lparr>ln_next = nx, ln_value = v\<rparr> \<and> chain h nx nds)"

definition addrs :: "(ptr \<times> byte) list \<Rightarrow> ptr set" where
  "addrs nds = fst ` set nds"

lemma addrs_simps [simp]: "addrs [] = {}" "addrs (x # nds) = insert (fst x) (addrs nds)"
  "addrs (nds @ nds') = addrs nds \<union> addrs nds'"
  by (simp_all add: addrs_def image_Un)

definition lifo_rep :: "lifo_heap \<Rightarrow> lifo_dev \<Rightarrow> (ptr \<times> byte) list \<Rightarrow> bool" where
  "lifo_rep h dev nds \<longleftrightarrow> chain h (ld_data dev) nds \<and> distinct (map fst nds) \<and>
     ld_fset dev = int (length nds) \<and> int (length nds) < 2 ^ 31"

lemma chain_live: "chain h p nds \<Longrightarrow> a \<in> addrs nds \<Longrightarrow> a \<noteq> NULL \<and> h a \<noteq> None"
  by (induction h p nds rule: chain.induct) auto

lemma chain_frame: "(\<And>a. a \<in> addrs nds \<Longrightarrow> h' a = h a) \<Longrightarrow> chain h' p nds = chain h p nds"
  by (induction h p nds rule: chain.induct) auto

lemma chain_step:
  assumes "chain h p ((a, v) # nds)" "distinct (map fst ((a, v) # nds))"
  obtains nx where "p = a" "a \<noteq> NULL" "kload h p = Inr \<lparr>ln_next = nx, ln_value = v\<rparr>"
    "kfree h p = Inr (freed h {a})" "chain (freed h {a}) nx nds"
proof -
  from assms(1) obtain nx where nx: "p = a" "a \<noteq> NULL" "h a = Some \<lparr>ln_next = nx, ln_value = v\<rparr>" "chain h nx nds"
    by auto
  have "chain (freed h {a}) nx nds"
    using nx(4) assms(2) by (subst chain_frame [where h = h]) (auto simp: freed_apply addrs_def)
  then show ?thesis
    using that [of nx] nx by (simp add: kmem upd_None_freed)
qed

lemma chain_head: "chain h p nds \<Longrightarrow> p = (case nds of [] \<Rightarrow> NULL | nd # _ \<Rightarrow> fst nd)"
  by (cases nds) auto

lemma lifo_trim_loop_frees:
  "chain h p nds \<Longrightarrow> distinct (map fst nds) \<Longrightarrow> lifo_trim_loop h p = Inr (freed h (addrs nds))"
proof (induction nds arbitrary: h p)
  case Nil
  then show ?case by (subst lifo_trim_loop.simps) simp
next
  case (Cons nd nds)
  obtain a v where nd: "nd = (a, v)" by (cases nd)
  obtain nx where st: "p = a" "a \<noteq> NULL" "kload h p = Inr \<lparr>ln_next = nx, ln_value = v\<rparr>"
      "kfree h p = Inr (freed h {a})" "chain (freed h {a}) nx nds"
    using chain_step Cons.prems unfolding nd by metis
  then show ?case
    using Cons.IH [OF st(5)] Cons.prems nd by (subst lifo_trim_loop.simps) simp
qed

end
