(* ===== verification/FooFile.thy ===== *)
theory FooFile
  imports Libfs
begin

text \<open>
  The \<open>foo\<close> file of \<open>Task08/Patch-22\<close>: one page of data behind a reader-writer semaphore. The
  handlers take the semaphore and never release it; the theory shows what that leaves of the
  file: the first access works, and every access it excludes sleeps for ever.
\<close>

section \<open>State and handlers\<close>

abbreviation (input) PAGE_SIZE :: int where "PAGE_SIZE \<equiv> 4096"

text \<open>\<open>foo_data\<close> is the page, or \<open>None\<close> when the unchecked \<open>kmalloc\<close> of the module's init failed.\<close>

record foo_state =
  foo_data :: "byte list option"
  foo_size :: int
  sem_readers :: nat
  sem_writer :: bool

definition foo_init :: "byte list option \<Rightarrow> foo_state" where
  "foo_init page = \<lparr>foo_data = page, foo_size = 0, sem_readers = 0, sem_writer = False\<rparr>"

definition down_read :: "foo_state \<Rightarrow> foo_state res" where
  "down_read st = (if sem_writer st then Inl Blocked else Inr (st\<lparr>sem_readers := Suc (sem_readers st)\<rparr>))"

definition down_write :: "foo_state \<Rightarrow> foo_state res" where
  "down_write st = (if sem_writer st \<or> sem_readers st \<noteq> 0 then Inl Blocked else Inr (st\<lparr>sem_writer := True\<rparr>))"

definition foo_bytes :: "foo_state \<Rightarrow> byte list" where
  "foo_bytes st = (case foo_data st of None \<Rightarrow> [] | Some bs \<Rightarrow> bs)"

text \<open>The helpers touch the page unless the position is out of range or the count is 0.\<close>

definition page_fault :: "foo_state \<Rightarrow> int \<Rightarrow> int \<Rightarrow> int \<Rightarrow> fault option" where
  "page_fault st avail pos count =
     (if 0 \<le> pos \<and> pos < avail \<and> count \<noteq> 0 then
        (if foo_data st = None then Some NullDeref
         else if int (length (foo_bytes st)) < pos + min count (avail - pos) then Some OutOfBounds else None)
      else None)"

definition task08_read_foo ::
    "'a libfs_scheme \<Rightarrow> umem \<Rightarrow> uaddr \<Rightarrow> int \<Rightarrow> int \<Rightarrow> foo_state \<Rightarrow> (int \<times> umem \<times> int \<times> foo_state) res" where
  "task08_read_foo L um buf count f_pos st =
     kbind (down_read st) (\<lambda>st1.
     let avail = u64 (foo_size st1) in
     case page_fault st1 avail f_pos count of
       Some e \<Rightarrow> Inl e
     | None \<Rightarrow> let (r, um', pos') = simple_read_from_buffer L um buf count f_pos (foo_bytes st1) avail in
         Inr (r, um', pos', st1))"

definition task08_write_foo ::
    "'a libfs_scheme \<Rightarrow> umem \<Rightarrow> uaddr \<Rightarrow> int \<Rightarrow> int \<Rightarrow> foo_state \<Rightarrow> (int \<times> int \<times> foo_state) res" where
  "task08_write_foo L um buf count f_pos st =
     kbind (down_write st) (\<lambda>st1.
     case page_fault st1 PAGE_SIZE f_pos count of
       Some e \<Rightarrow> Inl e
     | None \<Rightarrow> let (r, bs', pos') = simple_write_to_buffer L (foo_bytes st1) PAGE_SIZE f_pos um buf count in
         Inr (s32 r, pos', st1\<lparr>foo_data := map_option (\<lambda>_. bs') (foo_data st1), foo_size := s32 r\<rparr>))"

section \<open>Runs\<close>

record foo_file_operations =
  ffop_read :: "umem \<Rightarrow> uaddr \<Rightarrow> int \<Rightarrow> int \<Rightarrow> foo_state \<Rightarrow> (int \<times> umem \<times> int \<times> foo_state) res"
  ffop_write :: "umem \<Rightarrow> uaddr \<Rightarrow> int \<Rightarrow> int \<Rightarrow> foo_state \<Rightarrow> (int \<times> int \<times> foo_state) res"

definition task08_fops_foo :: "'a libfs_scheme \<Rightarrow> foo_file_operations" where
  "task08_fops_foo L = \<lparr>ffop_read = task08_read_foo L, ffop_write = task08_write_foo L\<rparr>"

lemma foo_table [simp]:
  "ffop_read (task08_fops_foo L) = task08_read_foo L" "ffop_write (task08_fops_foo L) = task08_write_foo L"
  by (simp_all add: task08_fops_foo_def)

text \<open>A run is a sequence of calls that return; a call that sleeps or crashes is not a step.\<close>

datatype foo_call = FooRead umem uaddr int int | FooWrite umem uaddr int int

inductive foo_step :: "'a libfs_scheme \<Rightarrow> foo_state \<Rightarrow> foo_call \<Rightarrow> foo_state \<Rightarrow> bool" for L where
  foo_rd: "ffop_read (task08_fops_foo L) um buf count pos st = Inr (r, um', pos', st') \<Longrightarrow>
    foo_step L st (FooRead um buf count pos) st'"
| foo_wr: "ffop_write (task08_fops_foo L) um buf count pos st = Inr (r, pos', st') \<Longrightarrow>
    foo_step L st (FooWrite um buf count pos) st'"

inductive_cases foo_readE: "foo_step L st (FooRead um buf count pos) st'"
inductive_cases foo_writeE: "foo_step L st (FooWrite um buf count pos) st'"

inductive foo_run :: "'a libfs_scheme \<Rightarrow> foo_state \<Rightarrow> foo_call list \<Rightarrow> foo_state \<Rightarrow> bool" for L where
  run_start: "foo_run L st [] st"
| run_step: "foo_run L st cs st1 \<Longrightarrow> foo_step L st1 c st2 \<Longrightarrow> foo_run L st (cs @ [c]) st2"

fun is_foo_write :: "foo_call \<Rightarrow> bool" where
  "is_foo_write (FooWrite _ _ _ _) = True"
| "is_foo_write _ = False"

lemma foo_read_sem:
  "task08_read_foo L um buf count pos st = Inr (r, um', pos', st') \<Longrightarrow>
   \<not> sem_writer st \<and> sem_readers st' = Suc (sem_readers st) \<and> \<not> sem_writer st'"
  by (auto simp: task08_read_foo_def down_read_def Let_def kbind_Inr_iff split: if_splits option.splits prod.splits)

lemma foo_write_sem:
  "task08_write_foo L um buf count pos st = Inr (r, pos', st') \<Longrightarrow>
   \<not> sem_writer st \<and> sem_readers st = 0 \<and> sem_writer st' \<and> sem_readers st' = 0"
  by (auto simp: task08_write_foo_def down_write_def Let_def kbind_Inr_iff split: if_splits option.splits prod.splits)

text \<open>The semaphore records the calls made: it only ever gets fuller.\<close>

lemma foo_run_sem:
  "foo_run L st cs st' \<Longrightarrow> sem_readers st = 0 \<Longrightarrow> \<not> sem_writer st \<Longrightarrow>
   sem_readers st' = length (filter (\<lambda>c. \<not> is_foo_write c) cs) \<and>
   (sem_writer st' \<longleftrightarrow> (\<exists>c \<in> set cs. is_foo_write c)) \<and>
   (sem_writer st' \<longrightarrow> length cs = 1)"
proof (induction rule: foo_run.induct)
  case (run_step st cs st1 c st2)
  then have IH: "sem_readers st1 = length (filter (\<lambda>c. \<not> is_foo_write c) cs)"
    "sem_writer st1 \<longleftrightarrow> (\<exists>c \<in> set cs. is_foo_write c)" by simp_all
  show ?case
  proof (cases c)
    case (FooRead um buf count pos)
    with run_step.hyps(2) have "\<not> sem_writer st1 \<and> sem_readers st2 = Suc (sem_readers st1) \<and> \<not> sem_writer st2"
      by (simp only:) (erule foo_readE, rule foo_read_sem, simp)
    then show ?thesis using IH FooRead by auto
  next
    case (FooWrite um buf count pos)
    with run_step.hyps(2) have w: "\<not> sem_writer st1 \<and> sem_readers st1 = 0 \<and> sem_writer st2 \<and> sem_readers st2 = 0"
      by (simp only:) (erule foo_writeE, rule foo_write_sem, simp)
    then have "filter (\<lambda>c. \<not> is_foo_write c) cs = []" "\<forall>c \<in> set cs. \<not> is_foo_write c" using IH by auto
    then have "cs = []" by (auto simp: filter_empty_conv)
    then show ?thesis using w FooWrite by simp
  qed
qed simp

section \<open>Properties\<close>

lemma foo_writes:
  assumes "libfs_ok L" "length page = 4096" "0 < count" "user_ok L buf (min (nat count) 4096)"
  shows "\<exists>st. task08_write_foo L um buf count 0 (foo_init (Some page)) =
      Inr (min count 4096, min count 4096, st) \<and> foo_size st = min count 4096 \<and>
    foo_data st = Some (um_read um buf (min (nat count) 4096) @ drop (min (nat count) 4096) page)"
proof -
  define n where "n = min (nat count) 4096"
  have n: "room 4096 0 count = n" "int n = min count 4096" "0 < n" "n \<le> 4096"
    using assms(3) by (simp_all add: n_def room_def)
  have c0: "0 \<le> count" "(4096 :: int) \<le> int (length page)" using assms(2,3) by simp_all
  obtain k new where k: "copied_ok L buf (room 4096 0 count) k" "length new = room 4096 0 count"
      "take k new = um_read um buf k"
      "simple_write_to_buffer L page 4096 0 um buf count = write_spec page 4096 0 um buf count k (buf_write page (nat 0) new)"
    by (rule write_helperE [OF assms(1) c0])
  have "k = n" "new = um_read um buf n"
    using k(1-3) assms(4) n by (auto simp: copied_ok_def n_def [symmetric])
  then have "simple_write_to_buffer L page 4096 0 um buf count =
      (int n, um_read um buf n @ drop n page, int n)"
    using k(4) n assms(3) by (simp add: write_spec_def buf_write_def)
  moreover have "s32 (int n) = int n" using n by (intro s32_nonneg) simp_all
  moreover have "page_fault st 4096 0 count = None" if "foo_data st = Some page" for st
    using that assms(2) by (simp add: page_fault_def foo_bytes_def)
  ultimately show ?thesis
    using n(2) by (simp add: task08_write_foo_def down_write_def foo_init_def foo_bytes_def n_def [symmetric])
qed

text \<open>C20: The semaphore is never released, so the file takes at most one write in its life: in
  every sequence of calls that return, from the loading of the module on, a write is the only
  call. Once any call has returned every write sleeps for ever, and once a write has returned
  every read does too.\<close>

theorem foo_one_write:
  assumes "foo_run L (foo_init page) cs st"
  shows "((\<exists>c \<in> set cs. is_foo_write c) \<longrightarrow> length cs = 1) \<and>
    (cs \<noteq> [] \<longrightarrow> (\<forall>um buf count pos. task08_write_foo L um buf count pos st = Inl Blocked)) \<and>
    ((\<exists>c \<in> set cs. is_foo_write c) \<longrightarrow>
      (\<forall>um buf count pos. task08_read_foo L um buf count pos st = Inl Blocked))"
proof -
  have init: "sem_readers (foo_init page) = 0" "\<not> sem_writer (foo_init page)" by (simp_all add: foo_init_def)
  note sem = foo_run_sem [OF assms init]
  have wr: "task08_write_foo L um buf count pos st = Inl Blocked" if "cs \<noteq> []" for um buf count pos
  proof -
    have "sem_writer st \<or> sem_readers st \<noteq> 0"
      using sem that by (cases "\<exists>c \<in> set cs. is_foo_write c") (auto simp: filter_empty_conv)
    then show ?thesis by (simp add: task08_write_foo_def down_write_def)
  qed
  have rd: "task08_read_foo L um buf count pos st = Inl Blocked" if "\<exists>c \<in> set cs. is_foo_write c" for um buf count pos
    using sem that by (simp add: task08_read_foo_def down_read_def)
  show ?thesis using sem wr rd by blast
qed

lemma foo_one_write_witness:
  "\<exists>st. foo_run (sample_libfs [] 1000) (foo_init (Some (replicate 4096 0))) [FooWrite (\<lambda>a. 7) 100 3 0] st \<and>
    (\<forall>um buf count pos. task08_read_foo (sample_libfs [] 1000) um buf count pos st = Inl Blocked)"
proof -
  obtain st where w: "task08_write_foo (sample_libfs [] 1000) (\<lambda>a. 7) 100 3 0 (foo_init (Some (replicate 4096 0))) = Inr (3, 3, st)"
    using foo_writes [OF sample_libfs_ok, of "replicate 4096 0" 3 "[]" 1000 100 "\<lambda>a. 7"]
    by (auto simp: sample_libfs_def sample_api_def kapi.defs)
  have run: "foo_run (sample_libfs [] 1000) (foo_init (Some (replicate 4096 0))) ([] @ [FooWrite (\<lambda>a. 7) 100 3 0]) st"
    by (rule run_step [OF run_start], rule foo_wr, unfold foo_table) (rule w)
  show ?thesis using foo_one_write [OF run] run by auto
qed

text \<open>The first write of a loaded module does its work: from an accessible buffer it stores the
  first \<open>min count 4096\<close> bytes at the start of the page, leaves the rest of the page, records
  their number as the size and returns it.\<close>

lemma foo_first_write:
  assumes "libfs_ok L" "length page = 4096" "0 < count" "user_ok L buf (min (nat count) 4096)"
  shows "\<exists>st. task08_write_foo L um buf count 0 (foo_init (Some page)) =
      Inr (min count 4096, min count 4096, st) \<and> foo_size st = min count 4096 \<and>
    foo_data st = Some (um_read um buf (min (nat count) 4096) @ drop (min (nat count) 4096) page)"
  by (rule foo_writes [OF assms])

lemma foo_first_write_witness:
  "\<exists>st. task08_write_foo (sample_libfs [] 1000) (\<lambda>a. 7) 100 3 0 (foo_init (Some (replicate 4096 0))) =
      Inr (min 3 4096, min 3 4096, st) \<and> foo_size st = min 3 4096 \<and>
    foo_data st = Some (um_read (\<lambda>a. 7) 100 (min (nat 3) 4096) @ drop (min (nat 3) 4096) (replicate 4096 0))"
  by (rule foo_first_write [OF sample_libfs_ok]) (simp_all add: sample_libfs_def sample_api_def kapi.defs)

end
