(* ===== verification/Modules.thy ===== *)
theory Modules
  imports ScullProps Lifo FooFile
begin

text \<open>
  Loading and unloading: the \<open>module_init\<close> and \<open>module_exit\<close> functions of the repository's
  modules. What the kernel answers to each registration is an argument; what a function does
  is the list of resources it takes and gives back, in order. The interface \<open>clean_module\<close>
  says that a failed load keeps nothing and an unload gives everything back; the modules that
  satisfy it are interpretations, for the others the leak or the bad release is a theorem.
\<close>

section \<open>Resources\<close>

text \<open>A region of device numbers is a major number, the first minor number and how many.\<close>

datatype resource = Region int int int | Cdev nat | DevMem | PageMem | MiscReg | UsbReg | NfHook
  | DebugDir | DebugFile string | ProcEntry string

text \<open>\<open>debugfs_remove_recursive\<close> and \<open>remove_proc_entry\<close> accept what does not exist.\<close>

datatype kevent = Acquire resource | Release resource | RemoveDebugDir | RemoveProc string

definition in_debugfs :: "resource \<Rightarrow> bool" where
  "in_debugfs r \<longleftrightarrow> r = DebugDir \<or> (\<exists>f. r = DebugFile f)"

fun hold :: "kevent \<Rightarrow> resource set \<Rightarrow> resource set" where
  "hold (Acquire r) R = insert r R"
| "hold (Release r) R = R - {r}"
| "hold RemoveDebugDir R = {r \<in> R. \<not> in_debugfs r}"
| "hold (RemoveProc f) R = R - {ProcEntry f}"

definition held_from :: "resource set \<Rightarrow> kevent list \<Rightarrow> resource set" where
  "held_from R tr = fold hold tr R"

lemma held_from_simps [simp]:
  "held_from R [] = R"
  "held_from R (e # tr) = held_from (hold e R) tr"
  "held_from R (tr @ tr') = held_from (held_from R tr) tr'"
  by (simp_all add: held_from_def)

text \<open>A trace is safe when nothing is given back that is not held.\<close>

fun safe_from :: "resource set \<Rightarrow> kevent list \<Rightarrow> bool" where
  "safe_from R [] \<longleftrightarrow> True"
| "safe_from R (Release r # tr) \<longleftrightarrow> r \<in> R \<and> safe_from (hold (Release r) R) tr"
| "safe_from R (e # tr) \<longleftrightarrow> safe_from (hold e R) tr"

lemma safe_from_append [simp]:
  "safe_from R (tr @ tr') \<longleftrightarrow> safe_from R tr \<and> safe_from (held_from R tr) tr'"
  by (induction R tr rule: safe_from.induct) auto

section \<open>The interface\<close>

text \<open>One attempt to load a module, followed by an unload when it succeeded.\<close>

definition load_cycle :: "('e \<Rightarrow> int \<times> kevent list) \<Rightarrow> ('e \<Rightarrow> kevent list) \<Rightarrow> 'e \<Rightarrow> kevent list" where
  "load_cycle load unload e = (case load e of (r, tr) \<Rightarrow> if r = 0 then tr @ unload e else tr)"

locale clean_module =
  fixes load :: "'e \<Rightarrow> int \<times> kevent list"
    and unload :: "'e \<Rightarrow> kevent list"
  assumes load_fails: "load e = (r, tr) \<Longrightarrow> r \<noteq> 0 \<Longrightarrow> held_from {} tr = {} \<and> safe_from {} tr"
    and load_unload: "load e = (0, tr) \<Longrightarrow> held_from {} (tr @ unload e) = {} \<and> safe_from {} (tr @ unload e)"
begin

lemma cycle_clean: "held_from {} (load_cycle load unload e) = {} \<and> safe_from {} (load_cycle load unload e)"
  using load_fails [of e] load_unload [of e] by (auto simp: load_cycle_def split: prod.split)

text \<open>Any number of such attempts.\<close>

lemma cycles_clean:
  "held_from {} (concat (map (load_cycle load unload) es)) = {} \<and>
   safe_from {} (concat (map (load_cycle load unload) es))"
  using cycle_clean by (induction es) simp_all

end

section \<open>The misc device\<close>

text \<open>\<open>misc_register\<close> returns 0 or an error.\<close>

definition misc_init_module :: "int \<Rightarrow> int \<times> kevent list" where
  "misc_init_module reg = (reg, if reg = 0 then [Acquire MiscReg] else [])"

definition misc_cleanup_module :: "int \<Rightarrow> kevent list" where
  "misc_cleanup_module reg = [Release MiscReg]"

interpretation misc_mod: clean_module misc_init_module misc_cleanup_module
  by unfold_locales (auto simp: misc_init_module_def misc_cleanup_module_def split: if_splits)

section \<open>The debugfs modules\<close>

text \<open>
  What \<open>debugfs_create_dir\<close> returned for the directory, and \<open>debugfs_create_file\<close> for each file,
  as pointers; \<open>root == -ENODEV\<close> compares with the error number as a pointer.
\<close>

record debugfs_env =
  env_root :: ptr
  env_id :: ptr
  env_jiffies :: ptr
  env_foo :: ptr
  env_page :: ptr

abbreviation (input) ENODEV_ptr :: ptr where "ENODEV_ptr \<equiv> word_of_int (- 19)"

definition created :: "ptr \<Rightarrow> resource \<Rightarrow> kevent list" where
  "created p r = (if p \<noteq> NULL \<and> p \<noteq> ENODEV_ptr then [Acquire r] else [])"

definition task08_cleanup_module_02 :: "debugfs_env \<Rightarrow> kevent list" where
  "task08_cleanup_module_02 E = [RemoveDebugDir]"

definition task08_init_module_02 :: "debugfs_env \<Rightarrow> int \<times> kevent list" where
  "task08_init_module_02 E =
     (let root = env_root E; tr1 = created root DebugDir in
      if root = NULL then (- 1, tr1)
      else if root = ENODEV_ptr then (- ENODEV, tr1)
      else
        let tr2 = tr1 @ created (env_id E) (DebugFile ''id'') in
        if env_id E = NULL then (- 1, tr2 @ task08_cleanup_module_02 E)
        else (0, tr2))"

definition task08_cleanup_module_12 :: "debugfs_env \<Rightarrow> kevent list" where
  "task08_cleanup_module_12 E = [RemoveDebugDir]"

definition task08_init_module_12 :: "debugfs_env \<Rightarrow> int \<times> kevent list" where
  "task08_init_module_12 E =
     (let root = env_root E; tr1 = created root DebugDir in
      if root = NULL then (- 1, tr1)
      else if root = ENODEV_ptr then (- ENODEV, tr1)
      else
        let tr2 = tr1 @ created (env_id E) (DebugFile ''id'') in
        if env_id E = NULL then (- 1, tr2 @ task08_cleanup_module_12 E)
        else
          let tr3 = tr2 @ created (env_jiffies E) (DebugFile ''jiffies'') in
          if env_jiffies E = NULL then (- 1, tr3 @ task08_cleanup_module_12 E)
          else (0, tr3))"

text \<open>\<open>kfree(NULL)\<close> does nothing.\<close>

definition task08_cleanup_module_22 :: "debugfs_env \<Rightarrow> kevent list" where
  "task08_cleanup_module_22 E = [RemoveDebugDir] @ (if env_page E \<noteq> NULL then [Release PageMem] else [])"

definition task08_init_module_22 :: "debugfs_env \<Rightarrow> int \<times> kevent list" where
  "task08_init_module_22 E =
     (let tr0 = (if env_page E \<noteq> NULL then [Acquire PageMem] else []);
          root = env_root E; tr1 = tr0 @ created root DebugDir in
      if root = NULL then (- 1, tr1)
      else if root = ENODEV_ptr then (- ENODEV, tr1)
      else
        let tr2 = tr1 @ created (env_id E) (DebugFile ''id'') in
        if env_id E = NULL then (- 1, tr2 @ task08_cleanup_module_22 E)
        else
          let tr3 = tr2 @ created (env_jiffies E) (DebugFile ''jiffies'') in
          if env_jiffies E = NULL then (- 1, tr3 @ task08_cleanup_module_22 E)
          else
            let tr4 = tr3 @ created (env_foo E) (DebugFile ''foo'') in
            if env_foo E = NULL then (- 1, tr4 @ task08_cleanup_module_22 E)
            else (0, tr4))"

lemmas debugfs_trace = created_def in_debugfs_def Let_def
  task08_init_module_02_def task08_cleanup_module_02_def
  task08_init_module_12_def task08_cleanup_module_12_def
  task08_init_module_22_def task08_cleanup_module_22_def

interpretation t02_mod: clean_module task08_init_module_02 task08_cleanup_module_02
  by unfold_locales (auto simp: debugfs_trace split: if_splits)

interpretation t12_mod: clean_module task08_init_module_12 task08_cleanup_module_12
  by unfold_locales (auto simp: debugfs_trace split: if_splits)

section \<open>The USB and netfilter modules\<close>

definition usb_hello_init :: "int \<Rightarrow> int \<times> kevent list" where
  "usb_hello_init reg =
     (let retval = reg; tr = (if reg = 0 then [Acquire UsbReg] else []) in
      if retval \<noteq> 0 then (retval, tr) else (0, tr))"

definition usb_hello_exit :: "int \<Rightarrow> kevent list" where
  "usb_hello_exit reg = [Release UsbReg]"

interpretation usb_mod: clean_module usb_hello_init usb_hello_exit
  by unfold_locales (auto simp: usb_hello_init_def usb_hello_exit_def Let_def split: if_splits)

text \<open>
  The driver binds boot-protocol keyboards: the interface class, subclass and protocol numbers
  of \<open>USB_INTERFACE_INFO\<close>. The callbacks only print. Whether an interface matches an entry is
  decided by the USB core, which then calls \<open>probe\<close>.
\<close>

record usb_interface =
  if_class :: int
  if_subclass :: int
  if_protocol :: int

record usb_driver =
  drv_name :: string
  drv_probe :: "usb_interface \<Rightarrow> usb_interface \<Rightarrow> int"
  drv_disconnect :: "usb_interface \<Rightarrow> kevent list"
  drv_id_table :: "usb_interface list"

definition hello_id_table :: "usb_interface list" where
  "hello_id_table = [\<lparr>if_class = 3, if_subclass = 1, if_protocol = 1\<rparr>]"

definition hello_probe :: "usb_interface \<Rightarrow> usb_interface \<Rightarrow> int" where
  "hello_probe interface entry = 0"

definition hello_disconnect :: "usb_interface \<Rightarrow> kevent list" where
  "hello_disconnect interface = []"

definition hello_driver :: usb_driver where
  "hello_driver = \<lparr>drv_name = ''hello_driver'', drv_probe = hello_probe, drv_disconnect = hello_disconnect,
     drv_id_table = hello_id_table\<rparr>"

text \<open>With \<open>matches\<close> the core's test, the driver takes every interface that matches its one entry
  and holds nothing for it.\<close>

lemma hello_driver_binds:
  "(\<exists>e \<in> set (drv_id_table hello_driver). matches i e \<and> drv_probe hello_driver i e = 0) \<longleftrightarrow>
     matches i \<lparr>if_class = 3, if_subclass = 1, if_protocol = 1\<rparr>"
  "drv_disconnect hello_driver i = []"
  by (simp_all add: hello_driver_def hello_id_table_def hello_probe_def hello_disconnect_def)

text \<open>The result of \<open>nf_register_hook\<close> is ignored.\<close>

definition NetF_init :: "int \<Rightarrow> int \<times> kevent list" where
  "NetF_init reg = (0, if reg = 0 then [Acquire NfHook] else [])"

definition NetF_exit :: "int \<Rightarrow> kevent list" where
  "NetF_exit reg = [Release NfHook]"

section \<open>Modules that take nothing\<close>

definition task01_hello_init :: "unit \<Rightarrow> int \<times> kevent list" where "task01_hello_init u = (0, [])"
definition task01_hello_exit :: "unit \<Rightarrow> kevent list" where "task01_hello_exit u = []"
definition task04_hello_init :: "unit \<Rightarrow> int \<times> kevent list" where "task04_hello_init u = (0, [])"
definition task04_hello_exit :: "unit \<Rightarrow> kevent list" where "task04_hello_exit u = []"
definition task05_1_hello_init :: "unit \<Rightarrow> int \<times> kevent list" where "task05_1_hello_init u = (0, [])"
definition task05_1_hello_exit :: "unit \<Rightarrow> kevent list" where "task05_1_hello_exit u = []"
text \<open>Task05's third solution only declares which devices it is for.\<close>

definition task05_3_hello_id_table :: "usb_interface list" where
  "task05_3_hello_id_table = [\<lparr>if_class = 3, if_subclass = 1, if_protocol = 1\<rparr>]"

definition task05_3_hello_init :: "unit \<Rightarrow> int \<times> kevent list" where "task05_3_hello_init u = (0, [])"
definition task05_3_hello_exit :: "unit \<Rightarrow> kevent list" where "task05_3_hello_exit u = []"

interpretation task01_mod: clean_module task01_hello_init task01_hello_exit
  by unfold_locales (simp_all add: task01_hello_init_def task01_hello_exit_def)

interpretation task04_mod: clean_module task04_hello_init task04_hello_exit
  by unfold_locales (simp_all add: task04_hello_init_def task04_hello_exit_def)

interpretation task05_1_mod: clean_module task05_1_hello_init task05_1_hello_exit
  by unfold_locales (simp_all add: task05_1_hello_init_def task05_1_hello_exit_def)

interpretation task05_3_mod: clean_module task05_3_hello_init task05_3_hello_exit
  by unfold_locales (simp_all add: task05_3_hello_init_def task05_3_hello_exit_def)

text \<open>
  \<open>hello/helloworld.c\<close>: the init function has no \<open>return\<close>; its value is whatever the return
  register holds, here an argument.
\<close>

definition hello_world_init :: "int \<Rightarrow> int \<times> kevent list" where "hello_world_init reg = (reg, [])"
definition hello_world_exit :: "int \<Rightarrow> kevent list" where "hello_world_exit reg = []"

interpretation hello_world_mod: clean_module hello_world_init hello_world_exit
  by unfold_locales (simp_all add: hello_world_init_def hello_world_exit_def)

section \<open>The memmod module\<close>

text \<open>
  \<open>memmod/memmod.c\<close>: \<open>user_data2\<close> is an \<open>int\<close> pointer initialised with the number 2; loading the
  module prints what it points to. The store maps addresses to \<open>int\<close> objects.
\<close>

definition user_data1 :: string where "user_data1 = ''Hello World''"
definition user_data2 :: ptr where "user_data2 = 2"

datatype memmod_msg = MLoading string int | MShowMem int | MExiting

definition memmod_starter :: "int kheap \<Rightarrow> (int \<times> memmod_msg list) res" where
  "memmod_starter h =
     kbind (kload h user_data2) (\<lambda>v. Inr (0, [MLoading user_data1 v, MShowMem 1]))"

definition memmod_ending :: "memmod_msg list" where
  "memmod_ending = [MExiting]"

text \<open>No kernel object lies at address 2, so loading faults instead of returning.\<close>

lemma memmod_faults: "memmod_starter h = (case h 2 of None \<Rightarrow> Inl UseAfterFree
    | Some v \<Rightarrow> Inr (0, [MLoading ''Hello World'' v, MShowMem 1]))"
  by (simp add: memmod_starter_def user_data1_def user_data2_def kload_def split: option.split)

section \<open>The netfilter hook\<close>

abbreviation (input) NF_ACCEPT :: int where "NF_ACCEPT \<equiv> 1"
abbreviation (input) PF_INET :: int where "PF_INET \<equiv> 2"

record netF =
  lucky_number :: int
  nf_hooknum :: int
  nf_pf :: int

definition parham :: netF where
  "parham = \<lparr>lucky_number = 3, nf_hooknum = 3, nf_pf = PF_INET\<rparr>"

record sk_buff =
  skb_len :: int
  skb_data_len :: int
  skb_mac_len :: int

datatype netf_log = LogDev "byte list" | LogLen int | LogDataLen int | LogMacLen int | LogLucky int

text \<open>\<open>out\<close> is the name array of the output device, or \<open>None\<close> for a \<open>NULL\<close> device.\<close>

definition netf_filter :: "netF \<Rightarrow> sk_buff \<Rightarrow> byte list option \<Rightarrow> (int \<times> netf_log list) res" where
  "netf_filter ops skb out =
     (case out of None \<Rightarrow> Inl NullDeref
      | Some name \<Rightarrow>
          kbind (c_strcmp name (bytes_of ''lo'' @ [0])) (\<lambda>c.
          Inr (NF_ACCEPT,
            if c = 0 then [LogDev (cstr name), LogLen (skb_len skb), LogDataLen (skb_data_len skb),
              LogMacLen (skb_mac_len skb), LogLucky (lucky_number ops)] else [])))"

section \<open>The coding-style module\<close>

text \<open>\<open>for (x = 0; x < *my_int; ++x) udelay(10);\<close> with the number of delays.\<close>

function work_loop :: "int \<Rightarrow> int \<Rightarrow> nat \<Rightarrow> int \<times> nat" where
  "work_loop limit x delays = (if x < limit then work_loop limit (x + 1) (Suc delays) else (x, delays))"
  by pat_completeness auto
termination
  by (relation "measure (\<lambda>(limit, x, delays). nat (limit - x))") auto

declare work_loop.simps [simp del]

definition do_work :: "int \<Rightarrow> int \<Rightarrow> int \<times> nat \<times> bool" where
  "do_work my_int retval =
     (let y = my_int; (x, delays) = work_loop my_int 0 0; slept = (y < 10); z = s32 (x * y) in
      (z, delays, slept))"

definition coding_style_my_init :: int where
  "coding_style_my_init = (let x = 10; (x', _, _) = do_work x x in x')"

definition coding_style_my_exit :: "kevent list" where
  "coding_style_my_exit = []"

lemma work_loop_runs: "x \<le> limit \<Longrightarrow> work_loop limit x d = (limit, d + nat (limit - x))"
proof (induction limit x d rule: work_loop.induct)
  case (1 limit x d)
  then show ?case
    by (cases "x < limit") (subst work_loop.simps, simp add: nat_diff_distrib')+
qed

lemma do_work_runs:
  "do_work y r = (if 0 \<le> y then (s32 (y * y), nat y, y < 10) else (0, 0, True))"
proof (cases "0 \<le> y")
  case True
  then show ?thesis using work_loop_runs [of 0 y 0] by (simp add: do_work_def)
next
  case False
  then have "work_loop y 0 0 = (0, 0)" by (subst work_loop.simps) simp
  then show ?thesis using False by (simp add: do_work_def s32_def)
qed

section \<open>Properties\<close>

text \<open>C34: The misc, the USB and the first two debugfs modules clean up after themselves: whatever
  the kernel answers to their registrations, after any number of attempts to load them, each
  followed by an unload when it succeeded, nothing is held, and nothing was given back that was
  not held.\<close>

theorem modules_leave_nothing:
  "held_from {} (concat (map (load_cycle misc_init_module misc_cleanup_module) regs)) = {} \<and>
   safe_from {} (concat (map (load_cycle misc_init_module misc_cleanup_module) regs)) \<and>
   held_from {} (concat (map (load_cycle usb_hello_init usb_hello_exit) regs)) = {} \<and>
   safe_from {} (concat (map (load_cycle usb_hello_init usb_hello_exit) regs)) \<and>
   held_from {} (concat (map (load_cycle task08_init_module_02 task08_cleanup_module_02) envs)) = {} \<and>
   safe_from {} (concat (map (load_cycle task08_init_module_02 task08_cleanup_module_02) envs)) \<and>
   held_from {} (concat (map (load_cycle task08_init_module_12 task08_cleanup_module_12) envs)) = {} \<and>
   safe_from {} (concat (map (load_cycle task08_init_module_12 task08_cleanup_module_12) envs))"
  by (simp only: misc_mod.cycles_clean usb_mod.cycles_clean t02_mod.cycles_clean t12_mod.cycles_clean)

text \<open>C35: The debugfs module of Patch-22 leaks its page: an attempt to load it that fails because
  the directory could not be made (\<open>NULL\<close>, or \<open>-ENODEV\<close> without debugfs) keeps the page it
  allocated first. On every other path, the failing ones and unloading included, nothing is
  left and nothing is given back twice.\<close>

theorem task08_22_leaks:
  "held_from {} (load_cycle task08_init_module_22 task08_cleanup_module_22 E) =
     (if env_page E \<noteq> NULL \<and> env_root E \<in> {NULL, word_of_int (- 19)} then {PageMem} else {}) \<and>
   safe_from {} (load_cycle task08_init_module_22 task08_cleanup_module_22 E)"
  by (auto simp: load_cycle_def debugfs_trace)

text \<open>The netfilter module reports success whatever \<open>nf_register_hook\<close> answers, so a load
  and unload is safe only when the registration worked; otherwise the exit function unregisters
  a hook that was never registered.\<close>

lemma NetF_ignores_failure:
  "fst (NetF_init reg) = 0 \<and> held_from {} (load_cycle NetF_init NetF_exit reg) = {} \<and>
   (safe_from {} (load_cycle NetF_init NetF_exit reg) \<longleftrightarrow> reg = 0)"
  by (auto simp: load_cycle_def NetF_init_def NetF_exit_def)

text \<open>The netfilter hook never drops a packet: for every output device with a terminated name
  it returns \<open>NF_ACCEPT\<close>, and it logs the packet exactly when the name is \<open>lo\<close>, the lucky number
  last.\<close>

lemma netf_filter_accepts:
  assumes "0 \<in> set name"
  shows "netf_filter parham skb (Some name) = Inr (NF_ACCEPT,
    if cstr name = bytes_of ''lo'' then [LogDev (bytes_of ''lo''), LogLen (skb_len skb),
      LogDataLen (skb_data_len skb), LogMacLen (skb_mac_len skb), LogLucky 3] else [])"
proof -
  have lo: "cstr (bytes_of ''lo'' @ [0]) = bytes_of ''lo''" by code_simp
  obtain r where "c_strcmp name (bytes_of ''lo'' @ [0]) = Inr r"
      "r = 0 \<longleftrightarrow> cstr name = cstr (bytes_of ''lo'' @ [0])"
    using c_strcmp_eq [OF assms, of "bytes_of ''lo'' @ [0]"] by auto
  then show ?thesis by (auto simp: netf_filter_def parham_def lo)
qed

lemma netf_filter_accepts_witness:
  "netf_filter parham \<lparr>skb_len = 84, skb_data_len = 0, skb_mac_len = 14\<rparr> (Some [108, 111, 0, 0]) = Inr (1,
    if cstr [108, 111, 0, 0] = bytes_of ''lo'' then [LogDev (bytes_of ''lo''), LogLen 84,
      LogDataLen 0, LogMacLen 14, LogLucky 3] else [])"
  using netf_filter_accepts [of "[108, 111, 0, 0]" "\<lparr>skb_len = 84, skb_data_len = 0, skb_mac_len = 14\<rparr>"] by simp

text \<open>\<open>do_work\<close> ends for every argument; it delays \<open>max 0 n\<close> times, returns the 32-bit square
  of a non-negative \<open>n\<close> and 0 for a negative one, and prints its message for \<open>n < 10\<close>. The init
  function of the module therefore returns 100, neither 0 nor an error number.\<close>

lemma do_work_correct:
  "do_work n r = (s32 (max 0 n * max 0 n), nat n, n < 10) \<and> coding_style_my_init = 100"
  by (auto simp: do_work_runs coding_style_my_init_def s32_def)

end
