(* ===== verification/LifoProps.thy ===== *)
theory LifoProps
  imports Lifo
begin

text \<open>
  What the LIFO device promises and where it breaks: on the fault-free paths a write pushes
  the bytes and a read pops them (a stack, proved through the interface \<open>byte_stack\<close>); the error
  paths leave a counter, a list head and a store that disagree, with the exact fault that
  follows.
\<close>

section \<open>The loops\<close>

definition list_ptr :: "(ptr \<times> byte) list \<Rightarrow> ptr" where
  "list_ptr nds = (case nds of [] \<Rightarrow> NULL | nd # _ \<Rightarrow> fst nd)"

lemma list_ptr_simps [simp]: "list_ptr [] = NULL" "list_ptr (nd # nds) = fst nd"
  by (simp_all add: list_ptr_def)

lemma chain_list_ptr: "chain h p nds \<Longrightarrow> p = list_ptr nds"
  by (cases nds) auto

lemma copy_byte_out:
  assumes "copy_to_ok K"
  shows "copy_to_user K um a [v] = (0, um_write um a [v]) \<or>
    (\<exists>k. k \<noteq> 0 \<and> copy_to_user K um a [v] = (k, um)) \<and> \<not> user_ok K a 1"
proof -
  obtain k where k: "copy_to_user K um a [v] = (k, um_write um a (take (length [v] - k) [v]))"
    "user_ok K a (length [v]) \<Longrightarrow> k = 0"
    using copy_to_userE [OF assms] by metis
  show ?thesis by (cases k) (use k in auto)
qed

lemma copy_byte_in:
  assumes "copy_from_ok K"
  shows "fst (copy_from_user K um a 1) = 0 \<and> hd (snd (copy_from_user K um a 1)) = um a \<or>
    fst (copy_from_user K um a 1) \<noteq> 0 \<and> \<not> user_ok K a 1"
proof -
  obtain k bs where k: "copy_from_user K um a 1 = (k, bs)" "length bs = 1"
    "take (1 - k) bs = um_read um a (1 - k)" "user_ok K a 1 \<Longrightarrow> k = 0"
    using copy_from_userE [OF assms] by metis
  show ?thesis
  proof (cases k)
    case 0
    then have "bs = um_read um a 1" using k by simp
    then show ?thesis using 0 k(1) by (simp add: um_read_def)
  qed (use k in auto)
qed

lemma lifo_read_loop_runs:
  assumes K: "copy_to_ok K"
  shows "chain (lo_heap s) p nds \<Longrightarrow> distinct (map fst nds) \<Longrightarrow> n \<le> length nds \<Longrightarrow>
    0 \<le> i \<Longrightarrow> i + int n < 2 ^ 31 \<Longrightarrow> int n \<le> ld_fset (lo_dev s) \<Longrightarrow> ld_fset (lo_dev s) < 2 ^ 31 \<Longrightarrow>
    \<exists>k\<le>n. lifo_read_loop K buf (i + int n) i i p s =
        Inr (k = n, if k = n then i + int n else - EFAULT, list_ptr (drop k nds),
          s\<lparr>lo_heap := freed (lo_heap s) (addrs (take k nds)),
            lo_user := um_write (lo_user s) (buf + i) (map snd (take k nds)),
            lo_dev := (lo_dev s)\<lparr>ld_fset := ld_fset (lo_dev s) - int k\<rparr>\<rparr>) \<and>
      (k < n \<longrightarrow> \<not> user_ok K (buf + i + int k) 1)"
proof (induction n arbitrary: i p nds s)
  case 0
  then show ?case
    by (subst lifo_read_loop.simps) (simp add: u64_id chain_list_ptr [symmetric])
next
  case (Suc n)
  then obtain a v rest where nds: "nds = (a, v) # rest" by (cases nds) auto
  obtain nx where st: "p = a" "a \<noteq> NULL" "kload (lo_heap s) p = Inr \<lparr>ln_next = nx, ln_value = v\<rparr>"
      "kfree (lo_heap s) p = Inr (freed (lo_heap s) {a})" "chain (freed (lo_heap s) {a}) nx rest"
    using chain_step Suc.prems(1,2) unfolding nds by metis
  have go: "u64 i < i + int (Suc n)" using Suc.prems by (simp add: u64_id)
  from copy_byte_out [OF K, of "lo_user s" "buf + i" v] show ?case
  proof (elim disjE conjE exE)
    fix k assume "k \<noteq> 0" "copy_to_user K (lo_user s) (buf + i) [v] = (k, lo_user s)" "\<not> user_ok K (buf + i) 1"
    then show ?thesis
      using go st nds by (intro exI [of _ 0]) (subst lifo_read_loop.simps, simp)
  next
    assume cp: "copy_to_user K (lo_user s) (buf + i) [v] = (0, um_write (lo_user s) (buf + i) [v])"
    define s1 where "s1 = s\<lparr>lo_heap := freed (lo_heap s) {a}, lo_user := um_write (lo_user s) (buf + i) [v],
      lo_dev := (lo_dev s)\<lparr>ld_fset := ld_fset (lo_dev s) - 1\<rparr>\<rparr>"
    have "\<exists>k\<le>n. lifo_read_loop K buf (i + 1 + int n) (i + 1) (i + 1) nx s1 =
        Inr (k = n, if k = n then i + 1 + int n else - EFAULT, list_ptr (drop k rest),
          s1\<lparr>lo_heap := freed (lo_heap s1) (addrs (take k rest)),
            lo_user := um_write (lo_user s1) (buf + (i + 1)) (map snd (take k rest)),
            lo_dev := (lo_dev s1)\<lparr>ld_fset := ld_fset (lo_dev s1) - int k\<rparr>\<rparr>) \<and>
      (k < n \<longrightarrow> \<not> user_ok K (buf + (i + 1) + int k) 1)"
      by (rule Suc.IH) (use Suc.prems st nds in \<open>simp_all add: s1_def\<close>)
    then obtain k where k: "k \<le> n" "lifo_read_loop K buf (i + 1 + int n) (i + 1) (i + 1) nx s1 =
        Inr (k = n, if k = n then i + 1 + int n else - EFAULT, list_ptr (drop k rest),
          s1\<lparr>lo_heap := freed (lo_heap s1) (addrs (take k rest)),
            lo_user := um_write (lo_user s1) (buf + (i + 1)) (map snd (take k rest)),
            lo_dev := (lo_dev s1)\<lparr>ld_fset := ld_fset (lo_dev s1) - int k\<rparr>\<rparr>)"
      "k < n \<Longrightarrow> \<not> user_ok K (buf + (i + 1) + int k) 1" by blast
    have um: "um_write (um_write um (buf + i) [v]) (1 + (buf + i)) ys = um_write um (buf + i) (v # ys)" for um ys
      using um_write_append [of um "buf + i" "[v]" ys] by (simp add: add.commute)
    have sz: "s32 (1 + i) = 1 + i" "s64 (1 + i) = 1 + i" "s32 (ld_fset (lo_dev s) - 1) = ld_fset (lo_dev s) - 1"
      using Suc.prems by (simp_all add: s32_nonneg s64_nonneg)
    have "lifo_read_loop K buf (i + int (Suc n)) i i p s = lifo_read_loop K buf (i + 1 + int n) (i + 1) (i + 1) nx s1"
      using go st cp by (subst lifo_read_loop.simps) (simp add: sz s1_def algebra_simps)
    then show ?thesis
      using k nds by (intro exI [of _ "Suc k"]) (auto simp: s1_def um algebra_simps)
  qed
qed

definition lifo_write_post ::
    "kapi \<Rightarrow> uaddr \<Rightarrow> int \<Rightarrow> nat \<Rightarrow> (ptr \<times> byte) list \<Rightarrow> lifo_io \<Rightarrow> nat \<Rightarrow> (ptr \<times> byte) list \<Rightarrow> lifo_heap \<Rightarrow> bool" where
  "lifo_write_post K buf i n nds s k new h' \<longleftrightarrow>
     k \<le> n \<and> chain h' (list_ptr (new @ nds)) (new @ nds) \<and> distinct (map fst (new @ nds)) \<and>
     map snd new = rev (um_read (lo_user s) (buf + i) k) \<and>
     (\<forall>x. lo_heap s x \<noteq> None \<longrightarrow> h' x = lo_heap s x) \<and>
     (\<forall>a \<in> addrs new. lo_heap s a = None) \<and>
     (k = n \<longrightarrow> (\<forall>x. x \<notin> addrs new \<longrightarrow> h' x = lo_heap s x)) \<and>
     (k < n \<longrightarrow> \<not> user_ok K (buf + i + int k) 1)"

lemma um_read_Cons: "um_read um a (Suc k) = um a # um_read um (a + 1) k"
  by (auto intro!: nth_equalityI simp: nth_Cons algebra_simps split: nat.split)

lemma lifo_write_loop_runs:
  assumes K: "kmalloc_ok K" "copy_from_ok K"
  shows "chain (lo_heap s) p nds \<Longrightarrow> distinct (map fst nds) \<Longrightarrow>
    0 \<le> i \<Longrightarrow> i + int n < 2 ^ 31 \<Longrightarrow> 0 \<le> ld_fset (lo_dev s) \<Longrightarrow> ld_fset (lo_dev s) + int n < 2 ^ 31 \<Longrightarrow>
    lifo_write_loop K buf (i + int n) i i p s = Inl NullDeref \<and> \<not> kmalloc_gives K sizeof_node (card (dom (lo_heap s)) + n) \<or>
    (\<exists>k new h'. lifo_write_post K buf i n nds s k new h' \<and>
      lifo_write_loop K buf (i + int n) i i p s =
        Inr (k = n, if k = n then i + int n else - EFAULT, list_ptr (new @ nds),
          s\<lparr>lo_heap := h', lo_dev := (lo_dev s)\<lparr>ld_fset := ld_fset (lo_dev s) + int k\<rparr>\<rparr>))"
proof (induction n arbitrary: i p nds s)
  case 0
  have "lifo_write_loop K buf (i + int 0) i i p s = Inr (True, i, p, s)"
    using 0 by (subst lifo_write_loop.simps) (simp add: u64_id)
  moreover have "lifo_write_post K buf i 0 nds s 0 [] (lo_heap s)"
    using 0 chain_list_ptr by (auto simp: lifo_write_post_def um_read_def)
  ultimately show ?case
    using chain_list_ptr [OF 0(1)]
    by (intro disjI2 exI [of _ 0] exI [of _ "[]"] exI [of _ "lo_heap s"]) simp
next
  case (Suc n)
  define b where "b = kmalloc K (live (lo_heap s)) sizeof_node"
  have go: "u64 i < i + int (Suc n)" using Suc.prems by (simp add: u64_id)
  show ?case
  proof (cases "b = NULL")
    case True
    then have "lifo_write_loop K buf (i + int (Suc n)) i i p s = Inl NullDeref"
      using go by (subst lifo_write_loop.simps) (simp add: b_def [symmetric] Let_def)
    moreover have "\<not> kmalloc_gives K sizeof_node (card (dom (lo_heap s)) + Suc n)"
      using True unfolding kmalloc_gives_def b_def
      by (intro notI) (drule spec [of _ "live (lo_heap s)"], simp add: live_def [abs_def] dom_def)
    ultimately show ?thesis by blast
  next
    case nb: False
    have fresh: "lo_heap s b = None"
      using kmalloc_fresh [OF K(1)] nb by (simp add: b_def)
    have nin: "b \<notin> addrs nds" using chain_live [OF Suc.prems(1), of b] fresh by auto
    define v where "v = hd (snd (copy_from_user K (lo_user s) (buf + i) 1))"
    define nd where "nd = (raw_node K b)\<lparr>ln_value := v\<rparr>"
    from copy_byte_in [OF K(2), of "lo_user s" "buf + i"] show ?thesis
    proof (elim disjE conjE)
      assume bad: "fst (copy_from_user K (lo_user s) (buf + i) 1) \<noteq> 0" "\<not> user_ok K (buf + i) 1"
      define h1 where "h1 = (lo_heap s)(b \<mapsto> nd)"
      have "lifo_write_loop K buf (i + int (Suc n)) i i p s = Inr (False, - EFAULT, p, s\<lparr>lo_heap := h1\<rparr>)"
        using go nb fresh bad
        by (subst lifo_write_loop.simps) (simp add: b_def [symmetric] v_def nd_def h1_def Let_def live_def)
      moreover have "chain h1 p nds"
        using Suc.prems(1) nin by (subst chain_frame [where h = "lo_heap s"]) (auto simp: h1_def)
      then have "lifo_write_post K buf i (Suc n) nds s 0 [] h1"
        using Suc.prems(2) fresh bad chain_list_ptr [of h1 p nds] by (auto simp: lifo_write_post_def um_read_def h1_def)
      ultimately show ?thesis
        using chain_list_ptr [OF Suc.prems(1)]
        by (intro disjI2 exI [of _ 0] exI [of _ "[]"] exI [of _ h1]) simp
    next
      assume ok: "fst (copy_from_user K (lo_user s) (buf + i) 1) = 0"
        "hd (snd (copy_from_user K (lo_user s) (buf + i) 1)) = lo_user s (buf + i)"
      define s1 where "s1 = s\<lparr>lo_heap := (lo_heap s)(b \<mapsto> nd\<lparr>ln_next := p\<rparr>),
        lo_dev := (lo_dev s)\<lparr>ld_fset := ld_fset (lo_dev s) + 1\<rparr>\<rparr>"
      have sz: "s32 (1 + i) = 1 + i" "s64 (1 + i) = 1 + i" "s32 (1 + ld_fset (lo_dev s)) = 1 + ld_fset (lo_dev s)"
        using Suc.prems by (simp_all add: s32_nonneg s64_nonneg)
      have run: "lifo_write_loop K buf (i + int (Suc n)) i i p s = lifo_write_loop K buf (i + 1 + int n) (i + 1) (i + 1) b s1"
        using go nb fresh ok
        by (subst lifo_write_loop.simps)
          (simp add: b_def [symmetric] v_def nd_def Let_def live_def sz s1_def algebra_simps)
      have "chain (lo_heap s1) p nds"
        using Suc.prems(1) nin by (subst chain_frame [where h = "lo_heap s"]) (auto simp: s1_def)
      then have ch: "chain (lo_heap s1) b ((b, v) # nds)"
        using nb by (simp add: s1_def nd_def raw_node_def)
      have dist: "distinct (map fst ((b, v) # nds))"
        using nin Suc.prems(2) by (simp add: addrs_def)
      have v: "v = lo_user s (buf + i)" using ok(2) by (simp add: v_def)
      have "0 \<le> i + 1" "i + 1 + int n < 2 ^ 31" "0 \<le> ld_fset (lo_dev s1)" "ld_fset (lo_dev s1) + int n < 2 ^ 31"
        using Suc.prems by (simp_all add: s1_def)
      from Suc.IH [OF ch dist this] show ?thesis
      proof (elim disjE exE conjE)
        assume e: "lifo_write_loop K buf (i + 1 + int n) (i + 1) (i + 1) b s1 = Inl NullDeref"
          and g: "\<not> kmalloc_gives K sizeof_node (card (dom (lo_heap s1)) + n)"
        have "b \<notin> dom (lo_heap s)" using fresh by auto
        then have "card (dom (lo_heap s1)) = Suc (card (dom (lo_heap s)))" by (simp add: s1_def)
        then show ?thesis unfolding run using e g by simp
      next
        fix k new h'
        assume post: "lifo_write_post K buf (i + 1) n ((b, v) # nds) s1 k new h'"
          and res: "lifo_write_loop K buf (i + 1 + int n) (i + 1) (i + 1) b s1 =
            Inr (k = n, if k = n then i + 1 + int n else - EFAULT, list_ptr (new @ (b, v) # nds),
              s1\<lparr>lo_heap := h', lo_dev := (lo_dev s1)\<lparr>ld_fset := ld_fset (lo_dev s1) + int k\<rparr>\<rparr>)"
        have "lifo_write_post K buf i (Suc n) nds s (Suc k) (new @ [(b, v)]) h'"
          using post fresh
          by (auto simp: lifo_write_post_def um_read_Cons v s1_def algebra_simps split: if_splits)
        then show ?thesis
          unfolding run
          using res by (intro disjI2 exI [of _ "Suc k"] exI [of _ "new @ [(b, v)]"] exI [of _ h'])
            (auto simp: s1_def algebra_simps)
      qed
    qed
  qed
qed

section \<open>Whole calls\<close>

definition bytes_ok :: "kapi \<Rightarrow> uaddr \<Rightarrow> nat \<Rightarrow> bool" where
  "bytes_ok K buf n \<longleftrightarrow> (\<forall>j<n. user_ok K (buf + int j) 1)"

lemma chain_owned: "lifo_rep h dev nds \<Longrightarrow> ld_data dev = list_ptr nds \<and> 0 \<le> ld_fset dev \<and> ld_fset dev < 2 ^ 31"
  by (auto simp: lifo_rep_def dest: chain_list_ptr)

lemma chain_drop:
  "chain h p nds \<Longrightarrow> distinct (map fst nds) \<Longrightarrow> k \<le> length nds \<Longrightarrow>
   chain (freed h (addrs (take k nds))) (list_ptr (drop k nds)) (drop k nds)"
proof (induction k arbitrary: h p nds)
  case 0
  then show ?case using chain_list_ptr by (cases nds) auto
next
  case (Suc k)
  then obtain a v rest where nds: "nds = (a, v) # rest" by (cases nds) auto
  obtain nx where "chain (freed h {a}) nx rest"
    using chain_step Suc.prems(1,2) unfolding nds by metis
  from Suc.IH [OF this] Suc.prems nds show ?case by simp
qed

lemma lifo_read_runs:
  assumes K: "copy_to_ok K" and rep: "lifo_rep (lo_heap s) (lo_dev s) nds" and cnt: "0 \<le> cnt"
    and n: "n = min (nat cnt) (length nds)"
  shows "\<exists>k\<le>n. lifo_read K buf cnt 0 s =
      Inr (if k = n then int n else - EFAULT,
        s\<lparr>lo_heap := freed (lo_heap s) (addrs (take k nds)),
          lo_user := um_write (lo_user s) buf (map snd (take k nds)),
          lo_dev := \<lparr>ld_data = (if k = n then list_ptr (drop k nds) else ld_data (lo_dev s)),
            ld_fset = int (length nds) - int k\<rparr>\<rparr>) \<and>
      (k < n \<longrightarrow> \<not> user_ok K (buf + int k) 1)"
proof -
  have r: "chain (lo_heap s) (ld_data (lo_dev s)) nds" "distinct (map fst nds)"
    "ld_fset (lo_dev s) = int (length nds)" "int (length nds) < 2 ^ 31"
    using rep by (simp_all add: lifo_rep_def)
  have "u64 (ld_fset (lo_dev s)) = int (length nds)" using r by (simp add: u64_id)
  then have c: "(if u64 (ld_fset (lo_dev s)) < cnt then u64 (ld_fset (lo_dev s)) else cnt) = int n"
    using cnt n by auto
  have nl: "n \<le> length nds" "0 + int n < 2 ^ 31" "int n \<le> ld_fset (lo_dev s)" "ld_fset (lo_dev s) < 2 ^ 31"
    using r n by simp_all
  obtain k where k: "k \<le> n" "lifo_read_loop K buf (0 + int n) 0 0 (ld_data (lo_dev s)) s =
        Inr (k = n, if k = n then 0 + int n else - EFAULT, list_ptr (drop k nds),
          s\<lparr>lo_heap := freed (lo_heap s) (addrs (take k nds)),
            lo_user := um_write (lo_user s) (buf + 0) (map snd (take k nds)),
            lo_dev := (lo_dev s)\<lparr>ld_fset := ld_fset (lo_dev s) - int k\<rparr>\<rparr>)"
      "k < n \<Longrightarrow> \<not> user_ok K (buf + 0 + int k) 1"
    using lifo_read_loop_runs [OF K r(1,2) nl(1) order_refl nl(2-4), of buf] by blast
  have "lifo_read K buf cnt 0 s = kbind (lifo_read_loop K buf (0 + int n) 0 0 (ld_data (lo_dev s)) s)
      (\<lambda>(done, retval, ptr, s'). Inr (retval, if done then s'\<lparr>lo_dev := (lo_dev s')\<lparr>ld_data := ptr\<rparr>\<rparr> else s'))"
    unfolding lifo_read_def Let_def c by simp
  then show ?thesis
    by (intro exI [of _ k], cases "lo_dev s") (use k r(3) in simp)
qed

lemma lifo_pops:
  assumes K: "copy_to_ok K" and rep: "lifo_rep (lo_heap s) (lo_dev s) nds" and cnt: "0 \<le> cnt"
    and buf: "bytes_ok K buf (min (nat cnt) (length nds))"
  shows "\<exists>s'. lifo_read K buf cnt 0 s = Inr (int (min (nat cnt) (length nds)), s') \<and>
    lo_user s' = um_write (lo_user s) buf (map snd (take (nat cnt) nds)) \<and>
    lo_heap s' = freed (lo_heap s) (addrs (take (nat cnt) nds)) \<and>
    lifo_rep (lo_heap s') (lo_dev s') (drop (nat cnt) nds)"
proof -
  define n where "n = min (nat cnt) (length nds)"
  obtain k where k: "k \<le> n" "lifo_read K buf cnt 0 s =
      Inr (if k = n then int n else - EFAULT,
        s\<lparr>lo_heap := freed (lo_heap s) (addrs (take k nds)),
          lo_user := um_write (lo_user s) buf (map snd (take k nds)),
          lo_dev := \<lparr>ld_data = (if k = n then list_ptr (drop k nds) else ld_data (lo_dev s)),
            ld_fset = int (length nds) - int k\<rparr>\<rparr>)" "k < n \<Longrightarrow> \<not> user_ok K (buf + int k) 1"
    using lifo_read_runs [OF K rep cnt n_def, of buf] by blast
  have "\<not> k < n" using k(3) buf unfolding bytes_ok_def n_def [symmetric] by blast
  then have kn: "k = n" using k(1) by simp
  have t: "take n nds = take (nat cnt) nds" "drop n nds = drop (nat cnt) nds"
    by (simp_all add: n_def min_def)
  have "chain (freed (lo_heap s) (addrs (take n nds))) (list_ptr (drop n nds)) (drop n nds)"
    using rep by (intro chain_drop) (auto simp: lifo_rep_def n_def)
  moreover have "distinct (map fst (drop n nds))"
    using rep by (auto simp: lifo_rep_def drop_map [symmetric])
  ultimately show ?thesis
    using k(2) kn rep t by (auto simp: lifo_rep_def n_def)
qed

text \<open>C19: A read pops. On a well-formed device \<open>lifo_read\<close> into an accessible buffer delivers the top
  \<open>min cnt size\<close> bytes, newest first, frees exactly their nodes, and leaves a well-formed device
  with the rest; a non-zero file position is refused with \<open>-EINVAL\<close>.\<close>

theorem lifo_read_correct:
  assumes "copy_to_ok K" "lifo_rep (lo_heap s) (lo_dev s) nds" "0 \<le> cnt"
    and "bytes_ok K buf (min (nat cnt) (length nds))"
  shows "\<exists>s'. lifo_read K buf cnt f_pos s =
      (if f_pos \<noteq> 0 then Inr (- EINVAL, s) else Inr (int (min (nat cnt) (length nds)), s')) \<and>
    lo_user s' = um_write (lo_user s) buf (map snd (take (nat cnt) nds)) \<and>
    lo_heap s' = freed (lo_heap s) (addrs (take (nat cnt) nds)) \<and>
    lifo_rep (lo_heap s') (lo_dev s') (drop (nat cnt) nds)"
proof (cases "f_pos = 0")
  case True
  show ?thesis using lifo_pops [OF assms] True by auto
next
  case False
  show ?thesis using lifo_pops [OF assms] False by (auto simp: lifo_read_def)
qed

text \<open>A device with two bytes on it.\<close>

definition demo_lifo :: lifo_io where
  "demo_lifo = \<lparr>lo_heap = [16 \<mapsto> \<lparr>ln_next = 32, ln_value = 7\<rparr>, 32 \<mapsto> \<lparr>ln_next = NULL, ln_value = 5\<rparr>],
     lo_dev = \<lparr>ld_data = 16, ld_fset = 2\<rparr>, lo_user = (\<lambda>a. word_of_int a)\<rparr>"

lemma demo_lifo_rep: "lifo_rep (lo_heap demo_lifo) (lo_dev demo_lifo) [(16, 7), (32, 5)]"
  by (simp add: lifo_rep_def demo_lifo_def)

lemma demo_bytes_ok: "buf + int n \<le> lim \<Longrightarrow> bytes_ok (sample_api pool lim cap) buf n"
  by (auto simp: bytes_ok_def sample_api_def)

lemma lifo_read_correct_witness:
  "\<exists>s'. lifo_read (sample_api [] 1000 True) 100 1 0 demo_lifo = Inr (1, s') \<and>
    lo_user s' 100 = 7 \<and> lifo_rep (lo_heap s') (lo_dev s') [(32, 5)]"
  using lifo_read_correct [OF sample_copy_to_ok demo_lifo_rep, of 1 "[]" 1000 True 100 0]
  by (auto simp: demo_bytes_ok um_write_def demo_lifo_def)

section \<open>Writing\<close>

lemma lifo_write_runs:
  assumes K: "kmalloc_ok K" "copy_from_ok K" and rep: "lifo_rep (lo_heap s) (lo_dev s) nds"
    and cnt: "0 \<le> cnt" "int (length nds) + cnt < 2 ^ 31"
  shows "lifo_write K buf cnt s = Inl NullDeref \<and> \<not> kmalloc_gives K sizeof_node (card (dom (lo_heap s)) + nat cnt) \<or>
    (\<exists>k new h'. lifo_write_post K buf 0 (nat cnt) nds s k new h' \<and>
      lifo_write K buf cnt s =
        Inr (if k = nat cnt then cnt else - EFAULT,
          s\<lparr>lo_heap := h', lo_dev := \<lparr>ld_data = (if k = nat cnt then list_ptr (new @ nds) else ld_data (lo_dev s)),
            ld_fset = int (length nds) + int k\<rparr>\<rparr>))"
proof -
  have r: "chain (lo_heap s) (ld_data (lo_dev s)) nds" "distinct (map fst nds)"
    "ld_fset (lo_dev s) = int (length nds)"
    using rep by (simp_all add: lifo_rep_def)
  have pre: "(0::int) \<le> 0" "0 + int (nat cnt) < 2 ^ 31" "0 \<le> ld_fset (lo_dev s)"
    "ld_fset (lo_dev s) + int (nat cnt) < 2 ^ 31"
    using r cnt by simp_all
  have run: "lifo_write K buf cnt s = kbind (lifo_write_loop K buf (0 + int (nat cnt)) 0 0 (ld_data (lo_dev s)) s)
      (\<lambda>(done, retval, ptr, s'). Inr (retval, if done then s'\<lparr>lo_dev := (lo_dev s')\<lparr>ld_data := ptr\<rparr>\<rparr> else s'))"
    unfolding lifo_write_def using cnt by simp
  from lifo_write_loop_runs [OF K r(1,2) pre, of buf] show ?thesis
  proof (elim disjE conjE exE)
    assume "lifo_write_loop K buf (0 + int (nat cnt)) 0 0 (ld_data (lo_dev s)) s = Inl NullDeref"
      "\<not> kmalloc_gives K sizeof_node (card (dom (lo_heap s)) + nat cnt)"
    then show ?thesis unfolding run by auto
  next
    fix k new h' assume post: "lifo_write_post K buf 0 (nat cnt) nds s k new h'"
      and "lifo_write_loop K buf (0 + int (nat cnt)) 0 0 (ld_data (lo_dev s)) s =
        Inr (k = nat cnt, if k = nat cnt then 0 + int (nat cnt) else - EFAULT, list_ptr (new @ nds),
          s\<lparr>lo_heap := h', lo_dev := (lo_dev s)\<lparr>ld_fset := ld_fset (lo_dev s) + int k\<rparr>\<rparr>)"
    then show ?thesis
      unfolding run using cnt r(3)
      by (intro disjI2 exI [of _ k] exI [of _ new] exI [of _ h']) (cases "lo_dev s", simp)
  qed
qed

lemma lifo_pushes:
  assumes K: "kmalloc_ok K" "copy_from_ok K" and rep: "lifo_rep (lo_heap s) (lo_dev s) nds"
    and cnt: "0 \<le> cnt" "int (length nds) + cnt < 2 ^ 31" and buf: "bytes_ok K buf (nat cnt)"
  shows "lifo_write K buf cnt s = Inl NullDeref \<and> \<not> kmalloc_gives K sizeof_node (card (dom (lo_heap s)) + nat cnt) \<or>
    (\<exists>s' new. lifo_write K buf cnt s = Inr (cnt, s') \<and> lo_user s' = lo_user s \<and>
      lifo_rep (lo_heap s') (lo_dev s') (new @ nds) \<and> map snd new = rev (um_read (lo_user s) buf (nat cnt)) \<and>
      (\<forall>a \<in> addrs new. lo_heap s a = None) \<and> (\<forall>x. x \<notin> addrs new \<longrightarrow> lo_heap s' x = lo_heap s x))"
  using lifo_write_runs [OF K rep cnt, of buf]
proof (elim disjE conjE exE)
  fix k new h' assume post: "lifo_write_post K buf 0 (nat cnt) nds s k new h'"
    and run: "lifo_write K buf cnt s =
        Inr (if k = nat cnt then cnt else - EFAULT,
          s\<lparr>lo_heap := h', lo_dev := \<lparr>ld_data = (if k = nat cnt then list_ptr (new @ nds) else ld_data (lo_dev s)),
            ld_fset = int (length nds) + int k\<rparr>\<rparr>)"
  have "\<not> k < nat cnt" using post buf by (auto simp: lifo_write_post_def bytes_ok_def)
  then have k: "k = nat cnt" using post by (simp add: lifo_write_post_def)
  have "map snd new = rev (um_read (lo_user s) buf k)" using post by (simp add: lifo_write_post_def)
  from arg_cong [where f = length, OF this] have "length new = nat cnt" using k by simp
  then have "lifo_rep h' \<lparr>ld_data = list_ptr (new @ nds), ld_fset = int (length nds) + cnt\<rparr> (new @ nds)"
    using post cnt by (auto simp: lifo_rep_def lifo_write_post_def)
  then show ?thesis
    using run k post cnt by (auto simp: lifo_write_post_def)
qed blast

text \<open>C18: A write pushes. On a well-formed device \<open>lifo_write\<close> from an accessible buffer returns
  \<open>cnt\<close> and leaves a well-formed device with the bytes of the buffer on top, the last one first,
  and nothing but their nodes has been added to the store or changed in it; the only other outcome, which cannot occur as long
  as the allocator has \<open>cnt\<close> more nodes to give, is the dereference of the \<open>NULL\<close> it returns when
  it has not, a result the code does not check.\<close>

theorem lifo_write_correct:
  assumes "kmalloc_ok K" "copy_from_ok K" "lifo_rep (lo_heap s) (lo_dev s) nds"
    and "0 \<le> cnt" "int (length nds) + cnt < 2 ^ 31" "bytes_ok K buf (nat cnt)"
  shows "lifo_write K buf cnt s = Inl NullDeref \<and> \<not> kmalloc_gives K 16 (card (dom (lo_heap s)) + nat cnt) \<or>
    (\<exists>s' new. lifo_write K buf cnt s = Inr (cnt, s') \<and> lo_user s' = lo_user s \<and>
      lifo_rep (lo_heap s') (lo_dev s') (new @ nds) \<and> map snd new = rev (um_read (lo_user s) buf (nat cnt)) \<and>
      (\<forall>a \<in> addrs new. lo_heap s a = None) \<and> (\<forall>x. x \<notin> addrs new \<longrightarrow> lo_heap s' x = lo_heap s x))"
  by (rule lifo_pushes [OF assms])

text \<open>Two bytes written to the device of the example, from a good and from a bad buffer.\<close>

lemma demo_lifo_write:
  obtains s' where "lifo_write (sample_api [48, 64, 80] 1000 True) 100 2 demo_lifo = Inr (2, s')"
proof -
  have "case lifo_write (sample_api [48, 64, 80] 1000 True) 100 2 demo_lifo of Inr (n, s1) \<Rightarrow> n = 2 | Inl _ \<Rightarrow> False"
    by code_simp
  then show ?thesis using that by (auto split: sum.splits)
qed

lemma lifo_write_correct_witness:
  "\<exists>s' new. lifo_write (sample_api [48, 64, 80] 1000 True) 100 2 demo_lifo = Inr (2, s') \<and>
    lifo_rep (lo_heap s') (lo_dev s') (new @ [(16, 7), (32, 5)]) \<and> map snd new = [101, 100]"
proof -
  obtain s' where w: "lifo_write (sample_api [48, 64, 80] 1000 True) 100 2 demo_lifo = Inr (2, s')"
    by (rule demo_lifo_write)
  have "rev (um_read (lo_user demo_lifo) 100 (nat 2)) = [101, 100]"
    by (simp add: demo_lifo_def um_read_def upt_rec)
  then show ?thesis
    using lifo_write_correct [OF sample_kmalloc_ok [of "[48, 64, 80]" 1000 True] sample_copy_from_ok demo_lifo_rep, where cnt = 2 and buf = 100] w
    by (auto simp: demo_bytes_ok)
qed

section \<open>A stack\<close>

text \<open>
  The stack interface: \<open>push\<close> and \<open>pop\<close> work on a user buffer, \<open>mem\<close> reads it, \<open>ok\<close> says it can
  be filled, \<open>inv\<close> relates the state to the bytes on the stack, newest first.
\<close>

locale byte_stack =
  fixes inv :: "'s \<Rightarrow> byte list \<Rightarrow> bool"
    and push :: "'s \<Rightarrow> uaddr \<Rightarrow> nat \<Rightarrow> 's option"
    and pop :: "'s \<Rightarrow> uaddr \<Rightarrow> nat \<Rightarrow> (nat \<times> 's) option"
    and mem :: "'s \<Rightarrow> uaddr \<Rightarrow> nat \<Rightarrow> byte list"
    and ok :: "'s \<Rightarrow> uaddr \<Rightarrow> nat \<Rightarrow> bool"
    and cap :: nat
  assumes push_law: "inv s bs \<Longrightarrow> length bs + n \<le> cap \<Longrightarrow> ok s buf n \<Longrightarrow> push s buf n = Some s' \<Longrightarrow>
      inv s' (rev (mem s buf n) @ bs) \<and> mem s' = mem s \<and> ok s' = ok s"
    and pop_law: "inv s bs \<Longrightarrow> ok s buf n \<Longrightarrow> n \<le> length bs \<Longrightarrow>
      \<exists>s'. pop s buf n = Some (n, s') \<and> mem s' buf n = take n bs \<and> inv s' (drop n bs)"
    and mem_length: "length (mem s buf n) = n"
begin

lemma push_pop:
  assumes "inv s bs" "length bs + n \<le> cap" "ok s buf n" "push s buf n = Some s1" "ok s buf2 n"
  shows "\<exists>s2. pop s1 buf2 n = Some (n, s2) \<and> mem s2 buf2 n = rev (mem s buf n) \<and> inv s2 bs"
proof -
  have 1: "inv s1 (rev (mem s buf n) @ bs)" "ok s1 = ok s"
    using push_law [OF assms(1-4)] by simp_all
  have "n \<le> length (rev (mem s buf n) @ bs)" by (simp add: mem_length)
  from pop_law [OF 1(1) _ this, of buf2] assms(5) show ?thesis by (auto simp: 1(2) mem_length)
qed

lemma newest_first:
  assumes "inv s bs" "length bs + (m + n) \<le> cap" "ok s b1 m" "ok s b2 n" "ok s b3 (m + n)"
    and "push s b1 m = Some s1" "push s1 b2 n = Some s2"
  shows "\<exists>s3. pop s2 b3 (m + n) = Some (m + n, s3) \<and>
    mem s3 b3 (m + n) = rev (mem s b2 n) @ rev (mem s b1 m) \<and> inv s3 bs"
proof -
  have 1: "inv s1 (rev (mem s b1 m) @ bs)" "mem s1 = mem s" "ok s1 = ok s"
    using push_law [OF assms(1) _ assms(3,6)] assms(2) by simp_all
  have 2: "inv s2 (rev (mem s b2 n) @ rev (mem s b1 m) @ bs)" "ok s2 = ok s"
    using push_law [OF 1(1) _ _ assms(7)] assms(2,4) 1(2,3) by (simp_all add: mem_length)
  have "m + n \<le> length (rev (mem s b2 n) @ rev (mem s b1 m) @ bs)" by (simp add: mem_length)
  from pop_law [OF 2(1) _ this, of b3] assms(5) show ?thesis
    by (auto simp: 2(2) mem_length)
qed

end

definition lifo_holds :: "kapi \<Rightarrow> lifo_io \<Rightarrow> byte list \<Rightarrow> bool" where
  "lifo_holds K s bs \<longleftrightarrow> kapi_ok K \<and> (\<exists>nds. lifo_rep (lo_heap s) (lo_dev s) nds \<and> map snd nds = bs)"

definition lifo_push :: "kapi \<Rightarrow> lifo_io \<Rightarrow> uaddr \<Rightarrow> nat \<Rightarrow> lifo_io option" where
  "lifo_push K s buf n = (case lifo_write K buf (int n) s of
     Inr (r, s') \<Rightarrow> if r = int n then Some s' else None | Inl _ \<Rightarrow> None)"

definition lifo_pop :: "kapi \<Rightarrow> lifo_io \<Rightarrow> uaddr \<Rightarrow> nat \<Rightarrow> (nat \<times> lifo_io) option" where
  "lifo_pop K s buf n = (case lifo_read K buf (int n) 0 s of
     Inr (r, s') \<Rightarrow> if 0 \<le> r then Some (nat r, s') else None | Inl _ \<Rightarrow> None)"

definition lifo_mem :: "lifo_io \<Rightarrow> uaddr \<Rightarrow> nat \<Rightarrow> byte list" where
  "lifo_mem s = um_read (lo_user s)"

lemma lifo_push_law:
  assumes "lifo_holds K s bs" "length bs + n \<le> 2 ^ 31 - 1" "bytes_ok K buf n" "lifo_push K s buf n = Some s'"
  shows "lifo_holds K s' (rev (lifo_mem s buf n) @ bs) \<and> lifo_mem s' = lifo_mem s"
proof -
  obtain nds where K: "kmalloc_ok K" "copy_from_ok K" "kapi_ok K"
    and rep: "lifo_rep (lo_heap s) (lo_dev s) nds" and bs: "map snd nds = bs"
    using assms(1) by (auto simp: lifo_holds_def kapi_ok_def)
  have len: "0 \<le> int n" "int (length nds) + int n < 2 ^ 31" "bytes_ok K buf (nat (int n))"
    using assms(2,3) bs by auto
  from lifo_pushes [OF K(1,2) rep len] assms(4) obtain new where
      "lo_user s' = lo_user s" "lifo_rep (lo_heap s') (lo_dev s') (new @ nds)"
      "map snd new = rev (um_read (lo_user s) buf n)"
    by (auto simp: lifo_push_def)
  then have "lo_user s' = lo_user s" "lifo_rep (lo_heap s') (lo_dev s') (new @ nds)"
      "map snd (new @ nds) = rev (lifo_mem s buf n) @ bs"
    using bs by (simp_all add: lifo_mem_def)
  then show ?thesis
    unfolding lifo_holds_def lifo_mem_def using K(3) by metis
qed

lemma lifo_pop_law:
  assumes "lifo_holds K s bs" "bytes_ok K buf n" "n \<le> length bs"
  shows "\<exists>s'. lifo_pop K s buf n = Some (n, s') \<and> lifo_mem s' buf n = take n bs \<and> lifo_holds K s' (drop n bs)"
proof -
  obtain nds where K: "copy_to_ok K" "kapi_ok K"
    and rep: "lifo_rep (lo_heap s) (lo_dev s) nds" and bs: "map snd nds = bs"
    using assms(1) by (auto simp: lifo_holds_def kapi_ok_def)
  have len: "0 \<le> int n" "bytes_ok K buf (min (nat (int n)) (length nds))" "min n (length nds) = n"
    using assms(2,3) bs by auto
  obtain s' where s': "lifo_read K buf (int n) 0 s = Inr (int n, s')"
      "lo_user s' = um_write (lo_user s) buf (map snd (take n nds))"
      "lifo_rep (lo_heap s') (lo_dev s') (drop n nds)"
    using lifo_pops [OF K(1) rep len(1,2)] len(3) by auto
  have "length (map snd (take n nds)) = n" using len(3) by simp
  then have "lifo_mem s' buf n = map snd (take n nds)"
    using um_read_write [of "lo_user s" buf "map snd (take n nds)"] by (simp add: lifo_mem_def s'(2))
  then show ?thesis
    using s'(1,3) K(2) bs by (auto simp: lifo_pop_def lifo_holds_def take_map drop_map)
qed

interpretation lf: byte_stack "lifo_holds K" "lifo_push K" "lifo_pop K" lifo_mem "\<lambda>s. bytes_ok K" "2 ^ 31 - 1" for K
proof
  show "length (lifo_mem s buf n) = n" for s buf n by (simp add: lifo_mem_def)
qed (use lifo_push_law lifo_pop_law in blast)+

text \<open>C16: Last in, first out: after two writes, a read of as many bytes into an accessible buffer
  delivers the bytes of the second write reversed and then those of the first reversed, and the
  device holds what it held before.\<close>

theorem lifo_last_in_first_out:
  assumes K: "kapi_ok K" and rep: "lifo_rep (lo_heap s) (lo_dev s) nds"
    and cnt: "length nds + (m + n) < 2 ^ 31"
    and bufs: "bytes_ok K b1 m" "bytes_ok K b2 n" "bytes_ok K b3 (m + n)"
    and wrt: "lifo_write K b1 (int m) s = Inr (int m, s1)" "lifo_write K b2 (int n) s1 = Inr (int n, s2)"
  shows "\<exists>s3 nds'. lifo_read K b3 (int (m + n)) 0 s2 = Inr (int (m + n), s3) \<and>
    um_read (lo_user s3) b3 (m + n) = rev (um_read (lo_user s) b2 n) @ rev (um_read (lo_user s) b1 m) \<and>
    lifo_rep (lo_heap s3) (lo_dev s3) nds' \<and> map snd nds' = map snd nds"
proof -
  have "\<exists>s3. lifo_pop K s2 b3 (m + n) = Some (m + n, s3) \<and>
    lifo_mem s3 b3 (m + n) = rev (lifo_mem s b2 n) @ rev (lifo_mem s b1 m) \<and> lifo_holds K s3 (map snd nds)"
    by (rule lf.newest_first [of _ s "map snd nds" m n b1 b2 b3 s1 s2])
      (use assms in \<open>auto simp: lifo_holds_def lifo_push_def\<close>)
  then show ?thesis
    by (auto simp: lifo_pop_def lifo_mem_def lifo_holds_def split: sum.splits if_splits)
qed

lemma demo_lifo_two:
  obtains s1 s2 where "lifo_write (sample_api [48, 64, 80] 1000 True) 100 (int 1) demo_lifo = Inr (int 1, s1)"
    "lifo_write (sample_api [48, 64, 80] 1000 True) 200 (int 1) s1 = Inr (int 1, s2)"
proof -
  have "case lifo_write (sample_api [48, 64, 80] 1000 True) 100 1 demo_lifo of
      Inr (n, s1) \<Rightarrow> n = 1 \<and> (case lifo_write (sample_api [48, 64, 80] 1000 True) 200 1 s1 of
        Inr (k, s2) \<Rightarrow> k = 1 | Inl _ \<Rightarrow> False) | Inl _ \<Rightarrow> False"
    by code_simp
  then obtain s1 where a: "lifo_write (sample_api [48, 64, 80] 1000 True) 100 1 demo_lifo = Inr (1, s1)"
    and "case lifo_write (sample_api [48, 64, 80] 1000 True) 200 1 s1 of Inr (k, s2) \<Rightarrow> k = 1 | Inl _ \<Rightarrow> False"
    by (cases "lifo_write (sample_api [48, 64, 80] 1000 True) 100 1 demo_lifo") auto
  then obtain s2 where b: "lifo_write (sample_api [48, 64, 80] 1000 True) 200 1 s1 = Inr (1, s2)"
    by (cases "lifo_write (sample_api [48, 64, 80] 1000 True) 200 1 s1") auto
  show ?thesis by (rule that [of s1 s2]) (use a b in simp_all)
qed

lemma lifo_last_in_first_out_witness:
  "\<exists>s1 s2 s3. lifo_write (sample_api [48, 64, 80] 1000 True) 100 1 demo_lifo = Inr (1, s1) \<and>
    lifo_write (sample_api [48, 64, 80] 1000 True) 200 1 s1 = Inr (1, s2) \<and>
    lifo_read (sample_api [48, 64, 80] 1000 True) 300 2 0 s2 = Inr (2, s3) \<and>
    um_read (lo_user s3) 300 2 = [200, 100]"
proof -
  obtain s1 s2 where w: "lifo_write (sample_api [48, 64, 80] 1000 True) 100 (int 1) demo_lifo = Inr (int 1, s1)"
    "lifo_write (sample_api [48, 64, 80] 1000 True) 200 (int 1) s1 = Inr (int 1, s2)"
    by (rule demo_lifo_two)
  have u: "rev (um_read (lo_user demo_lifo) 200 1) @ rev (um_read (lo_user demo_lifo) 100 1) = [200, 100]"
    by (simp add: demo_lifo_def um_read_def)
  have "\<exists>s3 nds'. lifo_read (sample_api [48, 64, 80] 1000 True) 300 (int (1 + 1)) 0 s2 = Inr (int (1 + 1), s3) \<and>
    um_read (lo_user s3) 300 (1 + 1) =
      rev (um_read (lo_user demo_lifo) 200 1) @ rev (um_read (lo_user demo_lifo) 100 1) \<and>
    lifo_rep (lo_heap s3) (lo_dev s3) nds' \<and> map snd nds' = map snd [(16 :: ptr, 7 :: byte), (32, 5)]"
    by (rule lifo_last_in_first_out [OF sample_kapi_ok demo_lifo_rep _ _ _ _ w]) (simp_all add: demo_bytes_ok)
  then show ?thesis
    unfolding u using w by (auto simp: one_add_one simp del: One_nat_def)
qed

section \<open>Where it breaks\<close>

lemma lifo_read_runs_out:
  assumes K: "copy_to_ok K"
  shows "chain (lo_heap s) p nds \<Longrightarrow> distinct (map fst nds) \<Longrightarrow> 0 \<le> i \<Longrightarrow> i + int (length nds) < count \<Longrightarrow>
    count < 2 ^ 31 \<Longrightarrow> (\<forall>j<length nds. user_ok K (buf + i + int j) 1) \<Longrightarrow>
    lifo_read_loop K buf count i retval p s = Inl NullDeref"
proof (induction nds arbitrary: i retval p s)
  case Nil
  then show ?case by (subst lifo_read_loop.simps) (simp add: u64_id kmem)
next
  case (Cons nd rest)
  obtain a v where nd: "nd = (a, v)" by (cases nd)
  obtain nx where st: "p = a" "a \<noteq> NULL" "kload (lo_heap s) p = Inr \<lparr>ln_next = nx, ln_value = v\<rparr>"
      "kfree (lo_heap s) p = Inr (freed (lo_heap s) {a})" "chain (freed (lo_heap s) {a}) nx rest"
    using chain_step Cons.prems(1,2) unfolding nd by metis
  have "user_ok K (buf + i) 1" using Cons.prems(6) by force
  then have cp: "copy_to_user K (lo_user s) (buf + i) [v] = (0, um_write (lo_user s) (buf + i) [v])"
    using copy_byte_out [OF K] by blast
  have "\<forall>j<length rest. user_ok K (buf + (i + 1) + int j) 1"
  proof (intro allI impI)
    fix j assume "j < length rest"
    then have "Suc j < length (nd # rest)" by simp
    then have "user_ok K (buf + i + int (Suc j)) 1" using Cons.prems(6) by blast
    then show "user_ok K (buf + (i + 1) + int j) 1" by (simp add: algebra_simps)
  qed
  then have "lifo_read_loop K buf count (i + 1) r nx
      (s\<lparr>lo_heap := freed (lo_heap s) {a}, lo_user := um, lo_dev := d\<rparr>) = Inl NullDeref" for r um d
    using Cons.prems st(5) by (intro Cons.IH) simp_all
  moreover have "s32 (i + 1) = i + 1" "u64 i = i"
    using Cons.prems by (simp_all add: s32_nonneg u64_id)
  ultimately show ?case
    using Cons.prems(3,4) st cp by (subst lifo_read_loop.simps) simp
qed

text \<open>C28: A write that faults half-way loses what it wrote and corrupts the counter. When
  \<open>lifo_write\<close> returns something else than \<open>cnt\<close>, it returns \<open>-EFAULT\<close>; the list is the old one,
  but the counter has been raised by the number \<open>k\<close> of bytes taken before the fault. If \<open>k\<close> is
  not 0, every later read of more bytes than the list has runs off its end and dereferences
  \<open>NULL\<close>.\<close>

theorem lifo_write_fault_desync:
  assumes "kmalloc_ok K" "copy_from_ok K" "copy_to_ok K" "lifo_rep (lo_heap s) (lo_dev s) nds"
    and "0 \<le> cnt" "int (length nds) + cnt < 2 ^ 31"
    and "lifo_write K buf cnt s = Inr (r, s1)" "r \<noteq> cnt"
  shows "r = - EFAULT \<and> ld_data (lo_dev s1) = ld_data (lo_dev s) \<and> chain (lo_heap s1) (ld_data (lo_dev s1)) nds \<and>
    (\<exists>k. int k < cnt \<and> \<not> user_ok K (buf + int k) 1 \<and> ld_fset (lo_dev s1) = int (length nds + k) \<and>
      (0 < k \<longrightarrow> (\<forall>buf2 cnt2. int (length nds) < cnt2 \<longrightarrow> bytes_ok K buf2 (length nds) \<longrightarrow>
        lifo_read K buf2 cnt2 0 s1 = Inl NullDeref)))"
proof -
  obtain k new h' where post: "lifo_write_post K buf 0 (nat cnt) nds s k new h'"
    and run: "lifo_write K buf cnt s = Inr (if k = nat cnt then cnt else - EFAULT,
          s\<lparr>lo_heap := h', lo_dev := \<lparr>ld_data = (if k = nat cnt then list_ptr (new @ nds) else ld_data (lo_dev s)),
            ld_fset = int (length nds) + int k\<rparr>\<rparr>)"
    using lifo_write_runs [OF assms(1,2,4-6), of buf] assms(7) by auto
  have k: "k < nat cnt" using run assms(7,8) post by (auto simp: lifo_write_post_def split: if_splits)
  have s1: "r = - EFAULT" "s1 = s\<lparr>lo_heap := h', lo_dev := \<lparr>ld_data = ld_data (lo_dev s), ld_fset = int (length nds) + int k\<rparr>\<rparr>"
    using run assms(7) k by simp_all
  have rep: "chain (lo_heap s) (ld_data (lo_dev s)) nds" "distinct (map fst nds)"
    using assms(4) by (simp_all add: lifo_rep_def)
  have "h' a = lo_heap s a" if "a \<in> addrs nds" for a
    using chain_live [OF rep(1) that] post by (auto simp: lifo_write_post_def)
  then have ch: "chain h' (ld_data (lo_dev s)) nds"
    using rep(1) chain_frame [of nds h' "lo_heap s"] by simp
  have crash: "lifo_read K buf2 cnt2 0 s1 = Inl NullDeref"
    if "0 < k" "int (length nds) < cnt2" "bytes_ok K buf2 (length nds)" for buf2 cnt2
  proof -
    define c where "c = (if u64 (ld_fset (lo_dev s1)) < cnt2 then u64 (ld_fset (lo_dev s1)) else cnt2)"
    have f: "u64 (ld_fset (lo_dev s1)) = int (length nds) + int k" "int (length nds) + int k < 2 ^ 31"
      using k assms(5,6) by (simp_all add: s1 u64_id)
    have "lifo_read_loop K buf2 c 0 0 (ld_data (lo_dev s1)) s1 = Inl NullDeref"
      by (rule lifo_read_runs_out [OF assms(3) _ rep(2)])
        (use ch that f in \<open>auto simp: c_def s1 bytes_ok_def\<close>)
    then show ?thesis by (simp add: lifo_read_def Let_def c_def [symmetric])
  qed
  show ?thesis
    using s1 ch crash k post by (auto simp: lifo_write_post_def intro!: exI [of _ k])
qed

lemma lifo_write_fault_desync_witness:
  "\<exists>s1. lifo_write (sample_api [48, 64, 80] 101 True) 100 2 demo_lifo = Inr (- EFAULT, s1) \<and>
    ld_fset (lo_dev s1) = 3 \<and> lifo_read (sample_api [48, 64, 80] 101 True) 0 3 0 s1 = Inl NullDeref"
proof -
  have "case lifo_write (sample_api [48, 64, 80] 101 True) 100 2 demo_lifo of
      Inr (n, s1) \<Rightarrow> n = - EFAULT \<and> ld_fset (lo_dev s1) = 3 | Inl _ \<Rightarrow> False"
    by code_simp
  then obtain s1 where w: "lifo_write (sample_api [48, 64, 80] 101 True) 100 2 demo_lifo = Inr (- EFAULT, s1)"
      "ld_fset (lo_dev s1) = 3"
    by (auto split: sum.splits)
  have b: "bytes_ok (sample_api [48, 64, 80] 101 True) 0 (length [(16 :: ptr, 7 :: byte), (32, 5)])"
    by (rule demo_bytes_ok) simp
  show ?thesis
    using lifo_write_fault_desync [OF sample_kmalloc_ok sample_copy_from_ok sample_copy_to_ok demo_lifo_rep _ _ w(1)]
      w b by auto
qed

text \<open>C27: A read that faults half-way leaves a dangling list head. When \<open>lifo_read\<close> of a well-formed
  device returns a negative number at position 0, it is \<open>-EFAULT\<close>; the bytes delivered before the
  fault are lost to the caller, their \<open>k\<close> nodes are freed, and the list head still points to
  the first of them: if \<open>k\<close> is not 0, every later read of at least one byte uses freed memory.\<close>

theorem lifo_read_fault_dangles:
  assumes "copy_to_ok K" "lifo_rep (lo_heap s) (lo_dev s) nds" "0 \<le> cnt"
    and "lifo_read K buf cnt 0 s = Inr (r, s1)" "r < 0"
  shows "r = - EFAULT \<and> (\<exists>k<length nds. \<not> user_ok K (buf + int k) 1 \<and>
    lo_heap s1 = freed (lo_heap s) (addrs (take k nds)) \<and> ld_data (lo_dev s1) = ld_data (lo_dev s) \<and>
    ld_fset (lo_dev s1) = int (length nds - k) \<and>
    (0 < k \<longrightarrow> (\<forall>buf2 cnt2. 0 < cnt2 \<longrightarrow> lifo_read K buf2 cnt2 0 s1 = Inl UseAfterFree)))"
proof -
  define n where "n = min (nat cnt) (length nds)"
  obtain k where k: "k \<le> n" "lifo_read K buf cnt 0 s =
      Inr (if k = n then int n else - EFAULT,
        s\<lparr>lo_heap := freed (lo_heap s) (addrs (take k nds)),
          lo_user := um_write (lo_user s) buf (map snd (take k nds)),
          lo_dev := \<lparr>ld_data = (if k = n then list_ptr (drop k nds) else ld_data (lo_dev s)),
            ld_fset = int (length nds) - int k\<rparr>\<rparr>)" "k < n \<Longrightarrow> \<not> user_ok K (buf + int k) 1"
    using lifo_read_runs [OF assms(1-3) n_def, of buf] by blast
  have kn: "k < n" "k < length nds" using k(1,2) assms(4,5) by (auto simp: n_def split: if_splits)
  have s1: "r = - EFAULT" "s1 = s\<lparr>lo_heap := freed (lo_heap s) (addrs (take k nds)),
      lo_user := um_write (lo_user s) buf (map snd (take k nds)),
      lo_dev := \<lparr>ld_data = ld_data (lo_dev s), ld_fset = int (length nds) - int k\<rparr>\<rparr>"
    using k(2) kn(1) assms(4) by simp_all
  have len: "int (length nds) < 2 ^ 31" and ch: "chain (lo_heap s) (ld_data (lo_dev s)) nds"
    using assms(2) by (simp_all add: lifo_rep_def)
  have uaf: "lifo_read K buf2 cnt2 0 s1 = Inl UseAfterFree" if "0 < k" "0 < cnt2" for buf2 cnt2
  proof -
    define c where "c = (if u64 (ld_fset (lo_dev s1)) < cnt2 then u64 (ld_fset (lo_dev s1)) else cnt2)"
    have "u64 0 < c" using that kn len by (simp add: c_def s1 u64_id)
    obtain a v rest where nds: "nds = (a, v) # rest" using kn(2) by (cases nds) auto
    have "a \<noteq> NULL" "ld_data (lo_dev s1) = a" using ch nds by (simp_all add: s1)
    moreover have "lo_heap s1 a = None"
      using that(1) by (cases k) (simp_all add: s1 nds freed_apply)
    ultimately have "lifo_read_loop K buf2 c 0 0 (ld_data (lo_dev s1)) s1 = Inl UseAfterFree"
      using \<open>u64 0 < c\<close> by (subst lifo_read_loop.simps) (simp add: kmem)
    then show ?thesis by (simp add: lifo_read_def Let_def c_def [symmetric])
  qed
  show ?thesis
    using s1 uaf kn k(3) by (auto intro!: exI [of _ k])
qed

lemma lifo_read_fault_dangles_witness:
  "\<exists>s1. lifo_read (sample_api [] 101 True) 100 2 0 demo_lifo = Inr (- EFAULT, s1) \<and>
    ld_fset (lo_dev s1) = 1 \<and> lifo_read (sample_api [] 101 True) 0 1 0 s1 = Inl UseAfterFree"
proof -
  have "case lifo_read (sample_api [] 101 True) 100 2 0 demo_lifo of
      Inr (n, s1) \<Rightarrow> n = - EFAULT \<and> ld_fset (lo_dev s1) = 1 | Inl _ \<Rightarrow> False"
    by code_simp
  then obtain s1 where w: "lifo_read (sample_api [] 101 True) 100 2 0 demo_lifo = Inr (- EFAULT, s1)"
      "ld_fset (lo_dev s1) = 1"
    by (auto split: sum.splits)
  show ?thesis
    using lifo_read_fault_dangles [OF sample_copy_to_ok demo_lifo_rep _ w(1)] w by fastforce
qed

text \<open>C29: Opening a non-empty device write-only frees its nodes but keeps the pointer to them: the
  first such open returns 0 with the counter at 0 and every node freed, and the next one walks
  the freed list.\<close>

theorem lifo_open_twice:
  assumes "lifo_rep h dev nds" "nds \<noteq> []" "and f_flags 3 = 1"
  shows "\<exists>h' dev'. lifo_open f_flags h dev = Inr (0, h', dev') \<and> h' = freed h (addrs nds) \<and>
    ld_fset dev' = 0 \<and> ld_data dev' = ld_data dev \<and> lifo_open f_flags h' dev' = Inl UseAfterFree"
proof -
  have ch: "chain h (ld_data dev) nds" "distinct (map fst nds)" using assms(1) by (simp_all add: lifo_rep_def)
  obtain a v rest where nds: "nds = (a, v) # rest" using assms(2) by (cases nds) auto
  have a: "ld_data dev = a" "a \<noteq> NULL" using ch(1) nds by simp_all
  have "lifo_trim_loop (freed h (addrs nds)) a = Inl UseAfterFree"
    using a by (subst lifo_trim_loop.simps) (simp add: kmem freed_apply nds)
  then show ?thesis
    using lifo_trim_loop_frees [OF ch] assms(3) a by (simp add: lifo_open_def lifo_trim_def)
qed

lemma lifo_open_twice_witness:
  "\<exists>h' dev'. lifo_open 1 (lo_heap demo_lifo) (lo_dev demo_lifo) = Inr (0, h', dev') \<and>
    h' = freed (lo_heap demo_lifo) (addrs [(16, 7), (32, 5)]) \<and>
    ld_fset dev' = 0 \<and> ld_data dev' = ld_data (lo_dev demo_lifo) \<and> lifo_open 1 h' dev' = Inl UseAfterFree"
  by (rule lifo_open_twice [OF demo_lifo_rep]) simp_all

end
