(* ===== verification/DriverModules.thy ===== *)
theory DriverModules
  imports Modules ScullProps ScullAdmin LifoProps
begin

text \<open>
  Loading and unloading the scull and LIFO drivers (\<open>Scull/main.c\<close>, \<open>LIFO/main.c\<close>): the
  registration of the device numbers, the allocation and set-up of the devices, the failure
  paths, and the cleanup functions on whatever the file operations have left in the store.
\<close>

section \<open>Registration\<close>

text \<open>
  The kernel's answers: the results of the two ways to get device numbers (the second with the
  major number it chose), whether the devices could be allocated, \<open>cdev_add\<close> per device, and
  whether a \<open>/proc\<close> entry could be made. \<open>env_scull_debug\<close> says whether \<open>SCULL_DEBUG\<close> was
  defined when scull was compiled.
\<close>

record chrdev_env =
  env_register :: int
  env_alloc :: "int \<times> int"
  env_kmalloc :: bool
  env_cdev_add :: "nat \<Rightarrow> int"
  env_scull_debug :: bool
  env_proc :: "string \<Rightarrow> bool"

definition get_region :: "chrdev_env \<Rightarrow> int \<Rightarrow> int \<Rightarrow> int \<Rightarrow> int \<times> int \<times> kevent list" where
  "get_region E major minor n =
     (let (result, major') = (if major \<noteq> 0 then (env_register E, major) else env_alloc E) in
      (result, major', if result < 0 then [] else [Acquire (Region major' minor n)]))"

section \<open>scull\<close>

text \<open>The parameters given at load time, by name; an unknown name is refused. Any values of the
  five variables can be set this way, so the module may start from any of them.\<close>

definition scull_module_param :: "string \<Rightarrow> int \<Rightarrow> scull_globals \<Rightarrow> scull_globals option" where
  "scull_module_param name v g =
     (if name = ''scull_major'' then Some (g\<lparr>scull_major := v\<rparr>)
      else if name = ''scull_minor'' then Some (g\<lparr>scull_minor := v\<rparr>)
      else if name = ''scull_nr_devs'' then Some (g\<lparr>scull_nr_devs := v\<rparr>)
      else if name = ''scull_quantum'' then Some (g\<lparr>g_quantum := v\<rparr>)
      else if name = ''scull_qset'' then Some (g\<lparr>g_qset := v\<rparr>)
      else None)"

fun load_params :: "(string \<times> int) list \<Rightarrow> scull_globals \<Rightarrow> scull_globals option" where
  "load_params [] g = Some g"
| "load_params ((name, v) # ps) g = Option.bind (scull_module_param name v g) (load_params ps)"

lemma load_params_any:
  "load_params [(''scull_major'', scull_major g), (''scull_minor'', scull_minor g), (''scull_nr_devs'', scull_nr_devs g),
     (''scull_quantum'', g_quantum g), (''scull_qset'', g_qset g)] scull_params = Some g"
  by (cases g) (simp add: scull_module_param_def scull_params_def)

definition new_scull_dev :: "scull_globals \<Rightarrow> scull_dev" where
  "new_scull_dev g = \<lparr>sd_data = NULL, sd_quantum = g_quantum g, sd_qset = g_qset g, sd_size = 0,
     sd_access_key = 0, sd_sem = 1\<rparr>"

definition scull_setup_cdev :: "chrdev_env \<Rightarrow> nat \<Rightarrow> kevent list" where
  "scull_setup_cdev E index = (let err = env_cdev_add E index in if err \<noteq> 0 then [] else [Acquire (Cdev index)])"

text \<open>The \<open>/proc\<close> entries: a failed creation is not an error, a removal not of something there neither.\<close>

definition scull_create_proc :: "chrdev_env \<Rightarrow> kevent list" where
  "scull_create_proc E =
     (if env_proc E ''scullmem'' then [Acquire (ProcEntry ''scullmem'')] else []) @
     (let entry = env_proc E ''scullseq'' in if entry then [Acquire (ProcEntry ''scullseq'')] else [])"

definition scull_remove_proc :: "kevent list" where
  "scull_remove_proc = [RemoveProc ''scullmem'', RemoveProc ''scullseq'']"

fun cleanup_devices ::
    "scull_globals \<Rightarrow> scull_heap \<Rightarrow> scull_dev list \<Rightarrow> nat \<Rightarrow> (scull_heap \<times> kevent list) res" where
  "cleanup_devices g h [] i = Inr (h, [])"
| "cleanup_devices g h (dev # devs) i =
     kbind (scull_trim g h dev) (\<lambda>(h1, _).
     kbind (cleanup_devices g h1 devs (Suc i)) (\<lambda>(h2, tr). Inr (h2, Release (Cdev i) # tr)))"

definition scull_cleanup_module ::
    "bool \<Rightarrow> scull_globals \<Rightarrow> scull_heap \<Rightarrow> scull_dev list option \<Rightarrow> (scull_heap \<times> kevent list) res" where
  "scull_cleanup_module scull_debug g h devices =
     kbind (case devices of None \<Rightarrow> Inr (h, [])
        | Some devs \<Rightarrow> kbind (cleanup_devices g h devs 0) (\<lambda>(h1, tr). Inr (h1, tr @ [Release DevMem])))
     (\<lambda>(h2, tr). Inr (h2, tr @ (if scull_debug then scull_remove_proc else []) @
       [Release (Region (scull_major g) (scull_minor g) (scull_nr_devs g))]))"

definition scull_init_module ::
    "chrdev_env \<Rightarrow> scull_globals \<Rightarrow> scull_heap \<Rightarrow> (int \<times> scull_globals \<times> scull_dev list option \<times> kevent list) res" where
  "scull_init_module E g h =
     (let (result, major, tr0) = get_region E (scull_major g) (scull_minor g) (scull_nr_devs g); g1 = g\<lparr>scull_major := major\<rparr> in
      if result < 0 then Inr (result, g1, None, tr0)
      else if \<not> env_kmalloc E then
        kbind (scull_cleanup_module (env_scull_debug E) g1 h None) (\<lambda>(h', tr). Inr (- ENOMEM, g1, None, tr0 @ tr))
      else
        let n = nat (scull_nr_devs g1); devs = map (\<lambda>i. new_scull_dev g1) [0..<n] in
        Inr (0, g1, Some devs, tr0 @ [Acquire DevMem] @ concat (map (scull_setup_cdev E) [0..<n]) @
          (if env_scull_debug E then scull_create_proc E else [])))"

lemma cleanup_devices_frees:
  "list_all2 (scull_rep h) devs ndss \<Longrightarrow> distinct (concat (map owned ndss)) \<Longrightarrow>
   cleanup_devices g h devs i = Inr (freed h (set (concat (map owned ndss))), map (\<lambda>j. Release (Cdev j)) [i..<i + length devs])"
proof (induction devs arbitrary: h ndss i)
  case (Cons dev devs)
  then obtain nds rest where n: "ndss = nds # rest" "scull_rep h dev nds" "list_all2 (scull_rep h) devs rest"
    by (auto simp: list_all2_Cons1)
  let ?h1 = "freed h (set (owned nds))"
  have step: "scull_rep ?h1 d ns" if "ns \<in> set rest" "scull_rep h d ns" for d ns
    unfolding scull_rep_def
  proof (rule nodes_frame)
    show "nodes h (sd_quantum d) (sd_qset d) (sd_data d) ns" using that(2) by (simp add: scull_rep_def)
    fix x assume "x \<in> set (owned ns)"
    then have "x \<in> set (concat (map owned rest))" using that(1) by auto
    then show "?h1 x = h x" using Cons.prems(2) n(1) by (auto simp: freed_apply)
  qed
  have "list_all2 (scull_rep ?h1) devs rest"
    by (rule list.rel_mono_strong [OF n(3)]) (rule step)
  then have rest: "cleanup_devices g ?h1 devs (Suc i) = Inr (freed ?h1 (set (concat (map owned rest))),
      map (\<lambda>j. Release (Cdev j)) [Suc i..<Suc i + length devs])"
    using Cons.prems(2) n(1) by (intro Cons.IH) simp_all
  have upt: "[i..<i + length (dev # devs)] = i # [Suc i..<Suc i + length devs]"
    by (subst upt_conv_Cons) simp_all
  show ?case
    unfolding upt n(1) by (simp add: scull_trim_frees [OF n(2)] rest del: upt_Suc add_Suc)
qed simp

lemma held_releases:
  "held_from R (map (\<lambda>j. Release (Cdev j)) js) = R - Cdev ` set js"
  by (induction js arbitrary: R) auto

lemma held_setup:
  "held_from R (concat (map (scull_setup_cdev E) js)) = R \<union> Cdev ` {j \<in> set js. env_cdev_add E j = 0}"
  by (induction js arbitrary: R) (auto simp: scull_setup_cdev_def Let_def)

lemma held_proc:
  "held_from R (scull_create_proc E) = R \<union> ProcEntry ` {f \<in> {''scullmem'', ''scullseq''}. env_proc E f}"
  "held_from R scull_remove_proc = R - ProcEntry ` {''scullmem'', ''scullseq''}"
  by (auto simp: scull_create_proc_def scull_remove_proc_def Let_def)

abbreviation (input) demo_env :: chrdev_env where
  "demo_env \<equiv> \<lparr>env_register = 0, env_alloc = (0, 250), env_kmalloc = True, env_cdev_add = (\<lambda>j. 0),
    env_scull_debug = False, env_proc = (\<lambda>f. True)\<rparr>"

text \<open>Loading scull either fails with an error number, and then holds nothing, or returns 0
  with all its devices empty, well formed and unlocked, one per \<open>scull_nr_devs\<close>, whatever
  \<open>cdev_add\<close> answers.\<close>

lemma scull_init_correct:
  assumes "geom_ok (g_quantum g) (g_qset g)"
  shows "\<exists>r g' devs tr. scull_init_module E g h = Inr (r, g', devs, tr) \<and>
    (if r = 0 then \<exists>ds. devs = Some ds \<and> length ds = nat (scull_nr_devs g) \<and>
        (\<forall>d \<in> set ds. scull_ok h d [] \<and> sd_size d = 0 \<and> sd_sem d = 1 \<and> sd_quantum d = g_quantum g \<and> sd_qset d = g_qset g) \<and>
        held_from {} tr = {Region (scull_major g') (scull_minor g) (scull_nr_devs g), DevMem} \<union> Cdev ` {j. int j < scull_nr_devs g \<and> env_cdev_add E j = 0} \<union>
          (if env_scull_debug E then ProcEntry ` {f \<in> {''scullmem'', ''scullseq''}. env_proc E f} else {})
     else r < 0 \<and> devs = None \<and> held_from {} tr = {})"
proof -
  obtain r major tr0 where reg: "get_region E (scull_major g) (scull_minor g) (scull_nr_devs g) = (r, major, tr0)"
    by (cases "get_region E (scull_major g) (scull_minor g) (scull_nr_devs g)")
  have tr0: "held_from {} tr0 = (if r < 0 then {} else {Region major (scull_minor g) (scull_nr_devs g)})"
    using reg by (auto simp: get_region_def Let_def split: prod.splits if_splits)
  show ?thesis
    using assms tr0
    by (auto simp: scull_init_module_def reg Let_def scull_cleanup_module_def held_setup held_proc new_scull_dev_def
        scull_ok_def scull_rep_def nodes_def zless_nat_eq_int_zless)
qed

lemma scull_init_correct_witness:
  "\<exists>r g' devs tr. scull_init_module demo_env scull_params Map.empty = Inr (r, g', devs, tr) \<and>
    r = 0 \<and> held_from {} tr = {Region 250 0 4, DevMem} \<union> Cdev ` {j. int j < 4}"
proof -
  have "geom_ok (g_quantum scull_params) (g_qset scull_params)" by (simp add: geom_ok_def scull_params_def)
  note init = scull_init_correct [OF this, of demo_env Map.empty]
  obtain devs tr where i: "scull_init_module demo_env scull_params Map.empty =
      Inr (0, scull_params\<lparr>scull_major := 250\<rparr>, devs, tr)"
    by (simp add: scull_init_module_def get_region_def Let_def scull_params_def)
  then show ?thesis using init by (auto simp: scull_params_def)
qed

text \<open>Unloading scull gives back everything: whatever the file operations have put on the
  devices, as long as each is well formed and they share no object, \<open>scull_cleanup_module\<close> runs
  without a fault, frees exactly the objects of all devices, and together with the load nothing
  stays registered or allocated.\<close>

lemma scull_unload_correct:
  assumes "scull_init_module E g h0 = Inr (0, g', Some devs0, tr0)" "length devs = length devs0"
    and "list_all2 (scull_rep h) devs ndss" "distinct (concat (map owned ndss))"
  shows "\<exists>tr. scull_cleanup_module (env_scull_debug E) g' h (Some devs) = Inr (freed h (set (concat (map owned ndss))), tr) \<and>
    held_from {} (tr0 @ tr) = {}"
proof -
  have tr0: "held_from {} tr0 \<subseteq> {Region (scull_major g') (scull_minor g') (scull_nr_devs g'), DevMem} \<union> Cdev ` {..<length devs0} \<union>
      (if env_scull_debug E then ProcEntry ` {''scullmem'', ''scullseq''} else {})"
    using assms(1)
    by (auto simp: scull_init_module_def get_region_def Let_def scull_cleanup_module_def held_setup held_proc
        split: prod.splits if_splits)
  show ?thesis
    using cleanup_devices_frees [OF assms(3,4), of g' 0] tr0 assms(2)
    by (auto simp: scull_cleanup_module_def held_releases held_proc)
qed

lemma scull_unload_correct_witness:
  "\<exists>s1 nds g' devs0 tr0 tr. scull_write demo_api False 100 3 (demo_io 9) = Inr (3, s1) \<and>
    scull_init_module demo_env scull_params Map.empty = Inr (0, g', Some devs0, tr0) \<and>
    scull_cleanup_module False g' (io_heap s1) (Some (io_dev s1 # replicate 3 (new_scull_dev scull_params))) =
      Inr (freed (io_heap s1) (set (concat (map owned [nds, [], [], []]))), tr) \<and>
    held_from {} (tr0 @ tr) = {}"
proof -
  obtain s1 nds where w: "scull_write demo_api False 100 3 (demo_io 9) = Inr (3, s1)"
    and ok: "scull_ok (io_heap s1) (io_dev s1) nds"
    by (rule demo_written)
  define g' where "g' = scull_params\<lparr>scull_major := 250\<rparr>"
  obtain devs0 tr0 where i: "scull_init_module demo_env scull_params Map.empty = Inr (0, g', Some devs0, tr0)"
    "length devs0 = 4"
    by (simp add: scull_init_module_def get_region_def Let_def scull_params_def g'_def)
  have reps: "list_all2 (scull_rep (io_heap s1)) (io_dev s1 # replicate 3 (new_scull_dev scull_params)) [nds, [], [], []]"
    using ok by (simp add: scull_ok_def numeral_3_eq_3 new_scull_dev_def scull_rep_def nodes_def)
  have dist: "distinct (concat (map owned [nds, [], [], []]))"
    using ok by (simp add: scull_ok_def scull_rep_def nodes_def)
  have "\<exists>tr. scull_cleanup_module False g' (io_heap s1) (Some (io_dev s1 # replicate 3 (new_scull_dev scull_params))) =
      Inr (freed (io_heap s1) (set (concat (map owned [nds, [], [], []]))), tr) \<and> held_from {} (tr0 @ tr) = {}"
    using scull_unload_correct [OF i(1) _ reps dist] i(2) by simp
  then show ?thesis using w i(1) by blast
qed

section \<open>LIFO\<close>

definition lifo_setup_cdev :: "chrdev_env \<Rightarrow> kevent list" where
  "lifo_setup_cdev E = (let err = env_cdev_add E 0 in if err \<noteq> 0 then [] else [Acquire (Cdev 0)])"

abbreviation (input) LIFO_MAJOR :: int where "LIFO_MAJOR \<equiv> 0"
abbreviation (input) lifo_minor :: int where "lifo_minor \<equiv> 0"

definition lifo_cleanup_module :: "int \<Rightarrow> lifo_heap \<Rightarrow> lifo_dev option \<Rightarrow> (lifo_heap \<times> kevent list) res" where
  "lifo_cleanup_module lifo_major h main_device =
     (let region = Region lifo_major lifo_minor 1 in
      case main_device of
        None \<Rightarrow> Inr (h, [Release region])
      | Some dev \<Rightarrow> kbind (lifo_trim h dev) (\<lambda>(h', _). Inr (h', [Release (Cdev 0), Release region])))"

definition new_lifo_dev :: lifo_dev where
  "new_lifo_dev = \<lparr>ld_data = NULL, ld_fset = 0\<rparr>"

definition lifo_init_module ::
    "chrdev_env \<Rightarrow> int \<Rightarrow> lifo_heap \<Rightarrow> (int \<times> int \<times> lifo_dev option \<times> kevent list) res" where
  "lifo_init_module E lifo_major h =
     (let (result, major, tr0) = get_region E lifo_major lifo_minor 1 in
      if result < 0 then Inr (result, major, None, tr0)
      else if \<not> env_kmalloc E then
        kbind (lifo_cleanup_module major h None) (\<lambda>(h', tr). Inr (- ENOMEM, major, None, tr0 @ tr))
      else Inr (0, major, Some new_lifo_dev, tr0 @ [Acquire DevMem] @ lifo_setup_cdev E))"

text \<open>Unloading the LIFO driver frees the nodes of a well-formed device and releases its
  numbers, but not the device structure that loading allocated: after every successful load
  and unload exactly that memory is still held. A failed load keeps nothing.\<close>

lemma lifo_unload_leaks:
  assumes "lifo_init_module E major h0 = Inr (r, major', dev0, tr0)" "lifo_rep h dev nds"
  shows "if r = 0 then dev0 = Some new_lifo_dev \<and> (\<exists>tr. lifo_cleanup_module major' h (Some dev) = Inr (freed h (addrs nds), tr) \<and>
      held_from {} (tr0 @ tr) = {DevMem})
    else r < 0 \<and> dev0 = None \<and> held_from {} tr0 = {}"
proof -
  have "lifo_trim_loop h (ld_data dev) = Inr (freed h (addrs nds))"
    using assms(2) by (intro lifo_trim_loop_frees) (simp_all add: lifo_rep_def)
  then show ?thesis
    using assms(1)
    by (auto simp: lifo_init_module_def get_region_def Let_def lifo_cleanup_module_def lifo_trim_def
        lifo_setup_cdev_def split: prod.splits if_splits)
qed

lemma lifo_unload_leaks_witness:
  "\<exists>major' dev0 tr0 tr. lifo_init_module demo_env 0 Map.empty = Inr (0, major', dev0, tr0) \<and>
    lifo_cleanup_module major' (lo_heap demo_lifo) (Some (lo_dev demo_lifo)) =
      Inr (freed (lo_heap demo_lifo) (addrs [(16, 7), (32, 5)]), tr) \<and> held_from {} (tr0 @ tr) = {DevMem}"
proof -
  obtain major' dev0 tr0 where i: "lifo_init_module demo_env 0 Map.empty = Inr (0, major', dev0, tr0)"
    by (simp add: lifo_init_module_def get_region_def Let_def)
  show ?thesis using lifo_unload_leaks [OF i demo_lifo_rep] i by auto
qed

text \<open>After a write-only open of a non-empty device, unloading the module walks the freed
  list.\<close>

lemma lifo_unload_after_open:
  assumes "lifo_rep h dev nds" "nds \<noteq> []" "and f_flags 3 = 1"
    and "lifo_open f_flags h dev = Inr (r, h', dev')"
  shows "lifo_cleanup_module major h' (Some dev') = Inl UseAfterFree"
proof -
  have ch: "chain h (ld_data dev) nds" "distinct (map fst nds)" using assms(1) by (simp_all add: lifo_rep_def)
  obtain a v rest where nds: "nds = (a, v) # rest" using assms(2) by (cases nds) auto
  have a: "ld_data dev = a" "a \<noteq> NULL" using ch(1) nds by simp_all
  have "h' = freed h (addrs nds)" "ld_data dev' = a"
    using assms(3,4) lifo_trim_loop_frees [OF ch] a by (auto simp: lifo_open_def lifo_trim_def)
  moreover have "lifo_trim_loop (freed h (addrs nds)) a = Inl UseAfterFree"
    using a by (subst lifo_trim_loop.simps) (simp add: kmem freed_apply nds)
  ultimately show ?thesis by (simp add: lifo_cleanup_module_def lifo_trim_def)
qed

lemma lifo_unload_after_open_witness:
  "\<exists>r h' dev'. lifo_open 1 (lo_heap demo_lifo) (lo_dev demo_lifo) = Inr (r, h', dev') \<and>
    lifo_cleanup_module major h' (Some dev') = Inl UseAfterFree"
proof -
  have "chain (lo_heap demo_lifo) (ld_data (lo_dev demo_lifo)) [(16, 7), (32, 5)]"
    using demo_lifo_rep by (simp add: lifo_rep_def)
  then have "lifo_trim_loop (lo_heap demo_lifo) (ld_data (lo_dev demo_lifo)) =
      Inr (freed (lo_heap demo_lifo) (addrs [(16, 7), (32, 5)]))"
    by (rule lifo_trim_loop_frees) simp
  then obtain r h' dev' where o: "lifo_open 1 (lo_heap demo_lifo) (lo_dev demo_lifo) = Inr (r, h', dev')"
    by (simp add: lifo_open_def lifo_trim_def)
  show ?thesis using lifo_unload_after_open [OF demo_lifo_rep _ _ o] o by auto
qed

end
