(* ===== verification/ScullLife.thy ===== *)
theory ScullLife
  imports ScullSession DriverModules
begin

text \<open>
  The life of the scull module from load to unload: what \<open>scull_init_module\<close> sets up satisfies
  the invariant of the sessions, sessions keep the device numbers, and what they leave is what
  \<open>scull_cleanup_module\<close> needs to give everything back.
\<close>

section \<open>The invariant at load and unload\<close>

lemma disjoint_concat:
  "(\<And>xs. xs \<in> set xss \<Longrightarrow> distinct xs) \<Longrightarrow>
   (\<And>i j. i < length xss \<Longrightarrow> j < length xss \<Longrightarrow> i \<noteq> j \<Longrightarrow> set (xss ! i) \<inter> set (xss ! j) = {}) \<Longrightarrow>
   distinct (concat xss)"
proof (induction xss)
  case (Cons xs xss)
  have "distinct (concat xss)"
    using Cons.prems(1) Cons.prems(2) [of "Suc _" "Suc _"] by (intro Cons.IH) auto
  moreover have "set xs \<inter> set ys = {}" if "ys \<in> set xss" for ys
    using Cons.prems(2) [of 0 "Suc _"] that by (fastforce simp: in_set_conv_nth)
  ultimately show ?case using Cons.prems(1) by auto
qed simp

lemma devs_ok_rep:
  assumes "devs_ok h devs ndss"
  shows "list_all2 (scull_rep h) devs ndss" "distinct (concat (map owned ndss))"
proof -
  have len: "length ndss = length devs" and ok: "\<And>i. i < length devs \<Longrightarrow> scull_ok h (devs ! i) (ndss ! i)"
    using assms by (simp_all add: devs_ok_def)
  then show "list_all2 (scull_rep h) devs ndss"
    by (simp add: list_all2_conv_all_nth scull_ok_def)
  show "distinct (concat (map owned ndss))"
  proof (rule disjoint_concat)
    fix xs assume "xs \<in> set (map owned ndss)"
    then obtain i where "i < length devs" "xs = owned (ndss ! i)" using len by (auto simp: in_set_conv_nth)
    then show "distinct xs" using ok [of i] by (simp add: scull_ok_def scull_rep_def nodes_def)
  qed (use assms len in \<open>simp add: devs_ok_def\<close>)
qed

lemma safe_setup: "safe_from R (concat (map (scull_setup_cdev E) js))"
  by (induction js arbitrary: R) (simp_all add: scull_setup_cdev_def Let_def)

lemma safe_releases:
  "distinct js \<Longrightarrow> Cdev ` set js \<subseteq> R \<Longrightarrow> safe_from R (map (\<lambda>j. Release (Cdev j)) js)"
proof (induction js arbitrary: R)
  case (Cons j js)
  then have "Cdev ` set js \<subseteq> R - {Cdev j}" by auto
  then show ?case using Cons by simp
qed simp

lemma safe_proc: "safe_from R (scull_create_proc E)" "safe_from R scull_remove_proc"
  by (simp_all add: scull_create_proc_def scull_remove_proc_def Let_def)

definition loaded :: "scull_globals \<Rightarrow> scull_heap \<Rightarrow> scull_dev list \<Rightarrow> umem \<Rightarrow> vfs" where
  "loaded g h devs um = \<lparr>vf_globals = g, vf_heap = h, vf_devs = devs, vf_user = um, vf_files = Map.empty\<rparr>"

lemma loaded_ok:
  assumes "geom_ok (g_quantum g) (g_qset g)" "scull_init_module E g h = Inr (0, g', Some devs, tr)"
  shows "vfs_ok (loaded g' h devs um) (replicate (length devs) [])"
proof -
  have "g_quantum g' = g_quantum g" "g_qset g' = g_qset g"
    and d: "devs = replicate (nat (scull_nr_devs g)) (new_scull_dev g')"
    using assms(2)
    by (auto simp: scull_init_module_def get_region_def Let_def map_replicate_const kbind_Inr_iff
        split: prod.splits if_splits)
  then show ?thesis
    using assms(1)
    by (simp add: vfs_ok_def sane_def loaded_def devs_ok_def scull_ok_def scull_rep_def nodes_def new_scull_dev_def)
qed

lemma load_session_unload:
  assumes "kapi_ok K" "geom_ok (g_quantum g) (g_qset g)"
    and "scull_init_module E g h0 = Inr (0, g', Some devs, tr0)"
    and "session_ok K M cs (loaded g' h0 devs um)"
  shows "\<exists>rs V tr. session K M cs (loaded g' h0 devs um) = Inr (rs, V) \<and>
    scull_cleanup_module (env_scull_debug E) (vf_globals V) (vf_heap V) (Some (vf_devs V)) = Inr (h0, tr) \<and>
    held_from {} (tr0 @ tr) = {} \<and> ((\<forall>j. env_cdev_add E j = 0) \<longrightarrow> safe_from {} (tr0 @ tr))"
proof -
  let ?V0 = "loaded g' h0 devs um" and ?n0 = "replicate (length devs) [] :: node list list"
  obtain rs V ndss where run: "session K M cs ?V0 = Inr (rs, V)" and ok: "vfs_ok V ndss"
    and len: "length (vf_devs V) = length (vf_devs ?V0)"
    and own: "own_step (vf_heap ?V0) (all_owned ?n0) (vf_heap V) (all_owned ndss)"
    using session_runs [OF assms(1) loaded_ok [OF assms(2,3)] assms(4)] by blast
  have num: "same_numbers g' (vf_globals V)"
    using session_numbers [OF run] by (simp add: loaded_def)
  have "devs_ok (vf_heap V) (vf_devs V) ndss" using ok by (simp add: vfs_ok_def)
  note rep = devs_ok_rep [OF this]
  have heap: "freed (vf_heap V) (set (concat (map owned ndss))) = h0"
    using own_step_no_leak [OF own] by (simp add: all_owned_def loaded_def)
  have tr0: "tr0 = [Acquire (Region (scull_major g') (scull_minor g') (scull_nr_devs g')), Acquire DevMem] @
      concat (map (scull_setup_cdev E) [0..<length devs]) @ (if env_scull_debug E then scull_create_proc E else [])"
    using assms(3)
    by (auto simp: scull_init_module_def get_region_def Let_def kbind_Inr_iff split: prod.splits if_splits)
  show ?thesis
    using run cleanup_devices_frees [OF rep, of "vf_globals V" 0] heap num len
    by (auto simp: tr0 scull_cleanup_module_def held_releases held_proc held_setup same_numbers_def loaded_def
        safe_setup safe_proc intro!: safe_releases)
qed

text \<open>C5: From load to unload nothing is lost. Loading scull (with sane parameters) either fails with an
  error number and holds nothing, or sets up its devices; then, whatever session of opens,
  closes, seeks, reads, writes and ioctls user programs run on them, the session returns, the
  unload runs without a fault, kernel memory is exactly what it was before the load, and no
  device number, device, memory or \<open>/proc\<close> entry is still held; if every \<open>cdev_add\<close> succeeded,
  nothing is given back that was not held.\<close>

theorem scull_life_cycle:
  assumes "kapi_ok K" "geom_ok (g_quantum g) (g_qset g)"
  shows "\<exists>r g' ds tr0. scull_init_module E g h0 = Inr (r, g', ds, tr0) \<and>
    (r \<noteq> 0 \<longrightarrow> r < 0 \<and> ds = None \<and> held_from {} tr0 = {}) \<and>
    (r = 0 \<longrightarrow> (\<exists>devs. ds = Some devs \<and> length devs = nat (scull_nr_devs g) \<and>
      (\<forall>cs um. session_ok K M cs (loaded g' h0 devs um) \<longrightarrow>
        (\<exists>rs V tr. session K M cs (loaded g' h0 devs um) = Inr (rs, V) \<and>
          scull_cleanup_module (env_scull_debug E) (vf_globals V) (vf_heap V) (Some (vf_devs V)) = Inr (h0, tr) \<and>
          held_from {} (tr0 @ tr) = {} \<and> ((\<forall>j. env_cdev_add E j = 0) \<longrightarrow> safe_from {} (tr0 @ tr))))))"
proof -
  obtain r g' ds tr0 where i: "scull_init_module E g h0 = Inr (r, g', ds, tr0)"
    and o: "if r = 0 then \<exists>devs. ds = Some devs \<and> length devs = nat (scull_nr_devs g) else r < 0 \<and> ds = None \<and> held_from {} tr0 = {}"
    using scull_init_correct [OF assms(2), of E h0] by (metis (no_types, lifting))
  let ?life = "\<lambda>devs. \<forall>cs um. session_ok K M cs (loaded g' h0 devs um) \<longrightarrow>
        (\<exists>rs V tr. session K M cs (loaded g' h0 devs um) = Inr (rs, V) \<and>
          scull_cleanup_module (env_scull_debug E) (vf_globals V) (vf_heap V) (Some (vf_devs V)) = Inr (h0, tr) \<and>
          held_from {} (tr0 @ tr) = {} \<and> ((\<forall>j. env_cdev_add E j = 0) \<longrightarrow> safe_from {} (tr0 @ tr)))"
  have "\<exists>devs. ds = Some devs \<and> length devs = nat (scull_nr_devs g) \<and> ?life devs" if "r = 0"
  proof -
    obtain devs where d: "ds = Some devs" "length devs = nat (scull_nr_devs g)" using o \<open>r = 0\<close> by auto
    have i0: "scull_init_module E g h0 = Inr (0, g', Some devs, tr0)" using i d(1) \<open>r = 0\<close> by simp
    have "?life devs" using load_session_unload [OF assms i0] by blast
    then show ?thesis using d by blast
  qed
  moreover have "r < 0 \<and> ds = None \<and> held_from {} tr0 = {}" if "r \<noteq> 0" using o that by simp
  ultimately show ?thesis using i by blast
qed

lemma scull_life_cycle_witness:
  "\<exists>tr0 rs V tr. scull_init_module demo_env (demo_globals\<lparr>scull_major := 0\<rparr>) Map.empty =
      Inr (0, demo_globals, Some [demo_dev, demo_dev], tr0) \<and>
    session demo_api linux_ioc demo_calls demo_vfs = Inr (rs, V) \<and> rs = [0, 4, 0, 4, 0, 0] \<and>
    scull_cleanup_module False (vf_globals V) (vf_heap V) (Some (vf_devs V)) = Inr (Map.empty, tr) \<and>
    held_from {} (tr0 @ tr) = {} \<and> safe_from {} (tr0 @ tr)"
proof -
  obtain tr0 where i: "scull_init_module demo_env (demo_globals\<lparr>scull_major := 0\<rparr>) Map.empty =
      Inr (0, demo_globals, Some [demo_dev, demo_dev], tr0)"
    by (simp add: scull_init_module_def get_region_def Let_def new_scull_dev_def demo_dev_def numeral_2_eq_2)
  have l: "loaded demo_globals Map.empty [demo_dev, demo_dev] (\<lambda>a. word_of_int a) = demo_vfs"
    by (simp add: loaded_def demo_vfs_def)
  have g: "geom_ok (g_quantum (demo_globals\<lparr>scull_major := 0\<rparr>)) (g_qset (demo_globals\<lparr>scull_major := 0\<rparr>))"
    by (simp add: geom_ok_def)
  have "\<exists>rs V tr. session demo_api linux_ioc demo_calls demo_vfs = Inr (rs, V) \<and>
    scull_cleanup_module False (vf_globals V) (vf_heap V) (Some (vf_devs V)) = Inr (Map.empty, tr) \<and>
    held_from {} (tr0 @ tr) = {} \<and> safe_from {} (tr0 @ tr)"
  proof -
    have "\<forall>cs um. session_ok demo_api linux_ioc cs (loaded demo_globals Map.empty [demo_dev, demo_dev] um) \<longrightarrow>
        (\<exists>rs V tr. session demo_api linux_ioc cs (loaded demo_globals Map.empty [demo_dev, demo_dev] um) = Inr (rs, V) \<and>
          scull_cleanup_module False (vf_globals V) (vf_heap V) (Some (vf_devs V)) = Inr (Map.empty, tr) \<and>
          held_from {} (tr0 @ tr) = {} \<and> safe_from {} (tr0 @ tr))"
      using scull_life_cycle [where K = demo_api, OF sample_kapi_ok g, where E = demo_env and ?h0.0 = Map.empty and M = linux_ioc,
        unfolded i]
      by simp
    from this [rule_format, of demo_calls "\<lambda>a. word_of_int a", unfolded l, OF demo_session(1)]
    show ?thesis .
  qed
  then show ?thesis using demo_session(3) i by (auto split: sum.splits)
qed

end
