(* ===== verification/ScullProc.thy ===== *)
theory ScullProc
  imports ScullProps ScullAdmin Libfs
begin

text \<open>
  The two \<open>/proc\<close> files of scull (\<open>Scull/main.c\<close>, compiled with \<open>SCULL_DEBUG\<close>): the
  \<open>seq_file\<close> iterator over the devices and the older read function that formats into a page.
  The walk over the list changes nothing, so on a cyclic list it would not end: it is a partial
  function, and that it returns on a well-formed device is part of what is shown. How \<open>%p\<close>
  prints an address is an argument.
\<close>

section \<open>The iterator\<close>

text \<open>A device pointer is its index; \<open>None\<close> is the end.\<close>

definition scull_seq_start :: "scull_globals \<Rightarrow> int \<Rightarrow> int option" where
  "scull_seq_start g pos = (if pos \<ge> scull_nr_devs g then None else Some pos)"

definition scull_seq_next :: "scull_globals \<Rightarrow> int \<Rightarrow> int option \<times> int" where
  "scull_seq_next g pos =
     (let pos' = pos + 1 in if pos' \<ge> scull_nr_devs g then (None, pos') else (Some pos', pos'))"

definition scull_seq_stop :: "int option \<Rightarrow> unit" where
  "scull_seq_stop v = ()"

text \<open>The protocol of \<open>seq_file\<close>: \<open>start\<close>, then \<open>next\<close> until the end; the devices shown.\<close>

function seq_rest :: "scull_globals \<Rightarrow> int option \<Rightarrow> int \<Rightarrow> int list" where
  "seq_rest g None pos = []"
| "seq_rest g (Some v) pos =
     v # (let (v', pos') = scull_seq_next g pos in seq_rest g v' pos')"
  by pat_completeness auto
termination
  by (relation "measure (\<lambda>(g, v, pos). case v of None \<Rightarrow> 0 | Some _ \<Rightarrow> Suc (nat (scull_nr_devs g - pos)))")
    (auto simp: scull_seq_next_def Let_def split: if_splits)

definition seq_devices :: "scull_globals \<Rightarrow> int \<Rightarrow> int list" where
  "seq_devices g pos = seq_rest g (scull_seq_start g pos) pos"

section \<open>What is printed\<close>

datatype proc_line = DevLine int int int int | ItemLine ptr ptr | SlotLine int ptr

text \<open>\<open>for (i = 0; i < qset; i++) if (d->data[i]) ...\<close>\<close>

function slot_lines :: "ptr list \<Rightarrow> int \<Rightarrow> int \<Rightarrow> proc_line list res" where
  "slot_lines ps i qset =
     (if i < qset then
        kbind (arr_get ps i) (\<lambda>p.
        kbind (slot_lines ps (i + 1) qset) (\<lambda>ls. Inr (if p \<noteq> NULL then SlotLine i p # ls else ls)))
      else Inr [])"
  by pat_completeness auto
termination
  by (relation "measure (\<lambda>(ps, i, qset). nat (qset - i))") auto

declare slot_lines.simps [simp del]

text \<open>One list item; only the last one is dumped.\<close>

definition item_lines :: "scull_heap \<Rightarrow> int \<Rightarrow> ptr \<Rightarrow> scull_qset \<Rightarrow> proc_line list res" where
  "item_lines h qset d q =
     (if qs_data q \<noteq> NULL \<and> qs_next q = NULL then
        kbind (load_arr h (qs_data q)) (\<lambda>ps.
        kbind (slot_lines ps 0 qset) (\<lambda>ls. Inr (ItemLine d (qs_data q) # ls)))
      else Inr [ItemLine d (qs_data q)])"

partial_function (option) show_items :: "scull_heap \<Rightarrow> int \<Rightarrow> ptr \<Rightarrow> proc_line list res option" where
  "show_items h qset d =
     (if d = NULL then Some (Inr [])
      else case load_qset h d of
          Inl e \<Rightarrow> Some (Inl e)
        | Inr q \<Rightarrow> (case item_lines h qset d q of
              Inl e \<Rightarrow> Some (Inl e)
            | Inr ls \<Rightarrow> Option.bind (show_items h qset (qs_next q)) (\<lambda>r.
                Some (kbind r (\<lambda>ls'. Inr (ls @ ls'))))))"

definition scull_seq_show ::
    "bool \<Rightarrow> scull_heap \<Rightarrow> int \<Rightarrow> scull_dev \<Rightarrow> (int \<times> proc_line list \<times> scull_dev) res option" where
  "scull_seq_show intr h i dev =
     (case down_interruptible intr dev of
        Inl e \<Rightarrow> Some (Inl e)
      | Inr (r, dev1) \<Rightarrow>
          if r \<noteq> 0 then Some (Inr (- ERESTARTSYS, [], dev))
          else Option.bind (show_items h (sd_qset dev1) (sd_data dev1)) (\<lambda>res.
            Some (kbind res (\<lambda>ls.
              Inr (0, DevLine i (sd_qset dev1) (sd_quantum dev1) (sd_size dev1) # ls, up dev1)))))"

section \<open>The lines of a well-formed device\<close>

fun node_line :: "node \<Rightarrow> proc_line" where
  "node_line (a, None) = ItemLine a NULL"
| "node_line (a, Some (d, ps)) = ItemLine a d"

definition live_slots :: "nat \<Rightarrow> ptr list \<Rightarrow> proc_line list" where
  "live_slots k ps = map (\<lambda>(i, p). SlotLine (int i) p) (filter (\<lambda>(i, p). p \<noteq> NULL) (enumerate k ps))"

fun last_slots :: "node list \<Rightarrow> proc_line list" where
  "last_slots [] = []"
| "last_slots [(a, Some (d, ps))] = live_slots 0 ps"
| "last_slots [(a, None)] = []"
| "last_slots (nd # nds) = last_slots nds"

lemma slot_lines_runs:
  "slot_lines ps (int k) (int (length ps)) = Inr (live_slots k (drop k ps))"
proof (induction "length ps - k" arbitrary: k)
  case 0
  then show ?case by (subst slot_lines.simps) (simp add: live_slots_def)
next
  case (Suc m)
  then have k: "k < length ps" by simp
  have e: "int k + 1 = int (Suc k)" by simp
  have "slot_lines ps (int k + 1) (int (length ps)) = Inr (live_slots (Suc k) (drop (Suc k) ps))"
    unfolding e by (rule Suc.hyps(1)) (use Suc.hyps(2) in simp)
  then show ?case
    using k by (subst slot_lines.simps) (simp add: arr_get_def live_slots_def flip: Cons_nth_drop_Suc)
qed

lemma show_items_runs:
  "seg h q n p nds NULL \<Longrightarrow> show_items h n p = Some (Inr (map node_line nds @ last_slots nds))"
proof (induction nds arbitrary: p)
  case Nil
  then show ?case by (simp add: show_items.simps)
next
  case (Cons nd nds)
  then obtain nx where nx: "p = fst nd" "node_ok h q n nx nd" "seg h q n nx nds NULL" by auto
  have IH: "show_items h n nx = Some (Inr (map node_line nds @ last_slots nds))"
    by (rule Cons.IH [OF nx(3)])
  have e: "nx = NULL \<longleftrightarrow> nds = []" using nx(3) by (cases nds) (auto dest: node_ok_addr)
  show ?case
  proof (cases nd rule: owned_node.cases)
    case (1 a)
    then show ?thesis using nx IH
      by (cases nds) (subst show_items.simps, simp add: load_qset_def kload_def item_lines_def)+
  next
    case (2 a d ps)
    then have ps: "int (length ps) = n" "a \<noteq> NULL" "d \<noteq> NULL"
      "h a = Some (QsetObj \<lparr>qs_data = d, qs_next = nx\<rparr>)" "h d = Some (PtrArr ps)" using nx by auto
    have il: "item_lines h n a \<lparr>qs_data = d, qs_next = nx\<rparr> =
        Inr (ItemLine a d # (if nx = NULL then live_slots 0 ps else []))"
      using ps slot_lines_runs [of ps 0] by (simp add: item_lines_def load_arr_def kload_def)
    show ?thesis using 2 nx(1) IH ps e il
      by (cases nds) (subst show_items.simps, simp add: load_qset_def kload_def)+
  qed
qed

section \<open>The older read function\<close>

definition pad_left :: "nat \<Rightarrow> byte list \<Rightarrow> byte list" where
  "pad_left n bs = replicate (n - length bs) 32 @ bs"

fun line_text :: "(ptr \<Rightarrow> byte list) \<Rightarrow> proc_line \<Rightarrow> byte list" where
  "line_text fp (DevLine i qset quantum sz) =
     [10] @ bytes_of ''Device '' @ dec_int i @ bytes_of '': qset '' @ dec_int qset @ bytes_of '', q '' @
     dec_int quantum @ bytes_of '', sz '' @ dec_int (s64 sz) @ [10]"
| "line_text fp (ItemLine d arr) =
     bytes_of ''  item at '' @ fp d @ bytes_of '', qset at '' @ fp arr @ [10]"
| "line_text fp (SlotLine i p) =
     bytes_of ''    '' @ pad_left 4 (32 # dec_int i) @ bytes_of '': '' @ pad_left 8 (fp p) @ [10]"

text \<open>\<open>len += sprintf(buf + len, ...)\<close>: the text and its \<open>NUL\<close> have to fit.\<close>

definition sprintf_at :: "byte list \<Rightarrow> int \<Rightarrow> byte list \<Rightarrow> (byte list \<times> int) res" where
  "sprintf_at buf len txt =
     (if len + int (length txt) < int (length buf)
      then Inr (buf_write buf (nat len) (txt @ [0]), len + int (length txt)) else Inl OutOfBounds)"

function procmem_slots ::
    "(ptr \<Rightarrow> byte list) \<Rightarrow> ptr list \<Rightarrow> int \<Rightarrow> int \<Rightarrow> byte list \<Rightarrow> int \<Rightarrow> (byte list \<times> int) res" where
  "procmem_slots fp ps j qset buf len =
     (if j < qset then
        kbind (arr_get ps j) (\<lambda>p.
        kbind (if p \<noteq> NULL then sprintf_at buf len (line_text fp (SlotLine j p)) else Inr (buf, len)) (\<lambda>(buf1, len1).
        procmem_slots fp ps (j + 1) qset buf1 len1))
      else Inr (buf, len))"
  by pat_completeness auto
termination
  by (relation "measure (\<lambda>(fp, ps, j, qset, buf, len). nat (qset - j))") auto

declare procmem_slots.simps [simp del]

definition procmem_item ::
    "(ptr \<Rightarrow> byte list) \<Rightarrow> scull_heap \<Rightarrow> int \<Rightarrow> ptr \<Rightarrow> byte list \<Rightarrow> int \<Rightarrow> (ptr \<times> byte list \<times> int) res" where
  "procmem_item fp h qset qs buf len =
     kbind (load_qset h qs) (\<lambda>q.
     kbind (sprintf_at buf len (line_text fp (ItemLine qs (qs_data q)))) (\<lambda>(buf1, len1).
     kbind (if qs_data q \<noteq> NULL \<and> qs_next q = NULL
        then kbind (load_arr h (qs_data q)) (\<lambda>ps. procmem_slots fp ps 0 qset buf1 len1)
        else Inr (buf1, len1)) (\<lambda>(buf2, len2).
     Inr (qs_next q, buf2, len2))))"

lemma sprintf_at_len: "sprintf_at buf len txt = Inr (buf', len') \<Longrightarrow> len' = len + int (length txt)"
  by (auto simp: sprintf_at_def split: if_splits)

lemma procmem_slots_len: "procmem_slots fp ps j qset buf len = Inr (buf', len') \<Longrightarrow> len \<le> len'"
proof (induction fp ps j qset buf len rule: procmem_slots.induct)
  case (1 fp ps j qset buf len)
  show ?case
  proof (cases "j < qset")
    case True
    with "1.prems" obtain p b1 l1 where st: "arr_get ps j = Inr p"
      "(if p \<noteq> NULL then sprintf_at buf len (line_text fp (SlotLine j p)) else Inr (buf, len)) = Inr (b1, l1)"
      "procmem_slots fp ps (j + 1) qset b1 l1 = Inr (buf', len')"
      by (subst (asm) procmem_slots.simps) (auto simp: kbind_Inr_iff)
    have "l1 \<le> len'" by (rule "1.IH" [OF True st(1,2) refl st(3)])
    moreover have "len \<le> l1" using st(2) by (auto split: if_splits dest: sprintf_at_len)
    ultimately show ?thesis by simp
  next
    case False
    with "1.prems" show ?thesis by (subst (asm) procmem_slots.simps) auto
  qed
qed

lemma procmem_item_len:
  "procmem_item fp h qset qs buf len = Inr (nx, buf', len') \<Longrightarrow> len < len'"
  by (auto simp: procmem_item_def kbind_Inr_iff split: if_splits dest!: sprintf_at_len procmem_slots_len)

function procmem_items ::
    "(ptr \<Rightarrow> byte list) \<Rightarrow> scull_heap \<Rightarrow> int \<Rightarrow> int \<Rightarrow> ptr \<Rightarrow> byte list \<Rightarrow> int \<Rightarrow> (byte list \<times> int) res" where
  "procmem_items fp h qset limit qs buf len =
     (if qs \<noteq> NULL \<and> len \<le> limit then
        kbind (procmem_item fp h qset qs buf len) (\<lambda>(nx, buf1, len1).
        procmem_items fp h qset limit nx buf1 len1)
      else Inr (buf, len))"
  by pat_completeness auto
termination
  by (relation "measure (\<lambda>(fp, h, qset, limit, qs, buf, len). nat (limit + 1 - len))")
    (auto dest: procmem_item_len)

declare procmem_items.simps [simp del]

text \<open>Return value, \<open>*eof\<close>, the page and the devices afterwards.\<close>

fun procmem_devices ::
    "(ptr \<Rightarrow> byte list) \<Rightarrow> (int \<Rightarrow> bool) \<Rightarrow> scull_heap \<Rightarrow> int \<Rightarrow> scull_dev list \<Rightarrow> int \<Rightarrow> byte list \<Rightarrow> int \<Rightarrow>
     (int \<times> bool \<times> byte list \<times> scull_dev list) res" where
  "procmem_devices fp intr h limit [] i buf len = Inr (len, True, buf, [])"
| "procmem_devices fp intr h limit (d # ds) i buf len =
     (if len \<le> limit then
        kbind (down_interruptible (intr i) d) (\<lambda>(r, d1).
        if r \<noteq> 0 then Inr (- ERESTARTSYS, False, buf, d # ds)
        else
          kbind (sprintf_at buf len (line_text fp (DevLine i (sd_qset d1) (sd_quantum d1) (sd_size d1)))) (\<lambda>(buf1, len1).
          kbind (procmem_items fp h (sd_qset d1) limit (sd_data d1) buf1 len1) (\<lambda>(buf2, len2).
          kbind (procmem_devices fp intr h limit ds (i + 1) buf2 len2) (\<lambda>(ret, eof, buf3, ds').
          Inr (ret, eof, buf3, up d1 # ds')))))
      else Inr (len, True, buf, d # ds))"

definition scull_read_procmem ::
    "(ptr \<Rightarrow> byte list) \<Rightarrow> (int \<Rightarrow> bool) \<Rightarrow> scull_heap \<Rightarrow> scull_dev list \<Rightarrow> byte list \<Rightarrow> int \<Rightarrow>
     (int \<times> bool \<times> byte list \<times> scull_dev list) res" where
  "scull_read_procmem fp intr h scull_devices buf count =
     (let limit = s32 (count - 80) in procmem_devices fp intr h limit scull_devices 0 buf 0)"

section \<open>The page is too small\<close>

lemma slot_text_length: "19 \<le> length (line_text fp (SlotLine j p))"
proof -
  have "length (bytes_of ''    '') = 4" "length (bytes_of '': '') = 2" by code_simp+
  then show ?thesis by (simp add: pad_left_def)
qed

lemma procmem_slots_overflow:
  "k \<le> length ps \<Longrightarrow> 0 \<le> len \<Longrightarrow> int (length buf) \<le> len + 19 * int (length (live_entries (drop k ps))) \<Longrightarrow>
   live_entries (drop k ps) \<noteq> [] \<Longrightarrow>
   procmem_slots fp ps (int k) (int (length ps)) buf len = Inl OutOfBounds"
proof (induction "length ps - k" arbitrary: k buf len)
  case 0
  then show ?case by simp
next
  case (Suc m)
  then have k: "k < length ps" by simp
  have e: "int k + 1 = int (Suc k)" by simp
  have d: "drop k ps = ps ! k # drop (Suc k) ps" using k by (simp add: Cons_nth_drop_Suc)
  let ?t = "line_text fp (SlotLine (int k) (ps ! k))"
  have go: "procmem_slots fp ps (int k) (int (length ps)) buf len =
      kbind (if ps ! k \<noteq> NULL then sprintf_at buf len ?t else Inr (buf, len)) (\<lambda>(buf1, len1).
        procmem_slots fp ps (int (Suc k)) (int (length ps)) buf1 len1)"
    using k by (subst procmem_slots.simps) (simp add: arr_get_def e del: line_text.simps of_nat_Suc)
  show ?case
  proof (cases "ps ! k = NULL")
    case True
    then have "procmem_slots fp ps (int (Suc k)) (int (length ps)) buf len = Inl OutOfBounds"
      by (intro Suc.hyps(1)) (use Suc.hyps(2) Suc.prems k d in simp_all)
    then show ?thesis unfolding go using True by simp
  next
    case False
    show ?thesis
    proof (cases "len + int (length ?t) < int (length buf)")
      case True
      then have len: "int (length buf) \<le> len + int (length ?t) + 19 * int (length (live_entries (drop (Suc k) ps)))"
        using Suc.prems(3) d False slot_text_length [of fp "int k" "ps ! k"] by simp
      have "live_entries (drop (Suc k) ps) \<noteq> []" using True len by auto
      then have "procmem_slots fp ps (int (Suc k)) (int (length ps)) (buf_write buf (nat len) (?t @ [0]))
          (len + int (length ?t)) = Inl OutOfBounds"
        using Suc.hyps(2) Suc.prems(2) k len True
        by (intro Suc.hyps(1)) (simp_all add: nat_add_distrib del: line_text.simps)
      then show ?thesis unfolding go using False True by (simp add: sprintf_at_def del: line_text.simps)
    next
      case no: False
      then show ?thesis unfolding go using False by (simp add: sprintf_at_def del: line_text.simps)
    qed
  qed
qed

lemma dec_int_short: "\<bar>i\<bar> < 10 ^ Suc k \<Longrightarrow> length (dec_int i) \<le> Suc (Suc k)"
  using dec_nat_length [of "nat \<bar>i\<bar>" k] by (auto simp: dec_int_def nat_less_iff abs_if split: if_splits)

lemma dev_text_length:
  assumes "geom_ok q n"
  shows "length (line_text fp (DevLine 0 n q sz)) \<le> 100"
proof -
  note gb = geom_bounds [OF assms]
  have l: "length (bytes_of ''Device '') = 7" "length (bytes_of '': qset '') = 7" "length (bytes_of '', q '') = 4"
    "length (bytes_of '', sz '') = 5" by code_simp+
  have "\<bar>s64 sz\<bar> < 10 ^ Suc 18"
    using pos_mod_bound [of "2 ^ 64" "sz + 2 ^ 63"] pos_mod_sign [of "2 ^ 64" "sz + 2 ^ 63"]
    unfolding s64_def by (simp add: abs_if del: pos_mod_bound pos_mod_sign)
  then have "length (dec_int (s64 sz)) \<le> Suc (Suc 18)" by (rule dec_int_short)
  moreover have "length (dec_int q) \<le> Suc (Suc 9)" "length (dec_int n) \<le> Suc (Suc 9)" "length (dec_int 0) \<le> Suc (Suc 0)"
    by (rule dec_int_short, use gb in simp)+
  ultimately show ?thesis by (simp add: l)
qed

lemma procmem_last_item_overflows:
  assumes nds: "seg h q n a [(a, Some (d, ps))] NULL"
    and len: "0 \<le> len" "int (length buf) \<le> len + 19 * int (length (live_entries ps))" "live_entries ps \<noteq> []"
  shows "procmem_item fp h n a buf len = Inl OutOfBounds"
proof -
  let ?t = "line_text fp (ItemLine a d)"
  have ps: "a \<noteq> NULL" "d \<noteq> NULL" "h a = Some (QsetObj \<lparr>qs_data = d, qs_next = NULL\<rparr>)" "h d = Some (PtrArr ps)"
    "n = int (length ps)" using nds by auto
  have go: "procmem_item fp h n a buf len = kbind (sprintf_at buf len ?t) (\<lambda>(buf1, len1).
      kbind (procmem_slots fp ps 0 n buf1 len1) (\<lambda>(buf2, len2). Inr (NULL, buf2, len2)))"
    using ps(1-4) by (simp add: procmem_item_def load_qset_def load_arr_def kload_def split_beta del: line_text.simps)
  show ?thesis
  proof (cases "len + int (length ?t) < int (length buf)")
    case True
    have "procmem_slots fp ps 0 n (buf_write buf (nat len) (?t @ [0])) (len + int (length ?t)) = Inl OutOfBounds"
      using procmem_slots_overflow [of 0 ps "len + int (length ?t)" "buf_write buf (nat len) (?t @ [0])" fp] len True
      by (simp add: ps(5) del: line_text.simps)
    then show ?thesis unfolding go using True by (simp add: sprintf_at_def del: line_text.simps)
  next
    case False
    then show ?thesis unfolding go by (simp add: sprintf_at_def del: line_text.simps)
  qed
qed

section \<open>Properties\<close>

text \<open>Reading the sequence file from a position shows every device from there on exactly once, in
  order, and then ends, also when there is no such device.\<close>

lemma seq_devices_all:
  "seq_devices g pos = [pos..scull_nr_devs g - 1]"
proof (induction "nat (scull_nr_devs g - pos)" arbitrary: pos)
  case 0
  then show ?case by (simp add: seq_devices_def scull_seq_start_def)
next
  case (Suc m)
  then have p: "pos < scull_nr_devs g" by simp
  have IH: "seq_devices g (pos + 1) = [pos + 1..scull_nr_devs g - 1]" by (rule Suc.hyps(1)) (use Suc.hyps(2) in simp)
  have "seq_devices g pos = pos # seq_devices g (pos + 1)"
    using p by (simp add: seq_devices_def scull_seq_start_def scull_seq_next_def Let_def)
  then show ?case using IH p by (simp add: upto_rec1)
qed

text \<open>Showing a well-formed device always returns: it prints the device, one line per list item
  and the live quanta of the last item only, changes nothing and gives the semaphore back; it
  is interrupted with \<open>-ERESTARTSYS\<close> and prints nothing, or sleeps on a held semaphore.\<close>

lemma seq_show_runs:
  assumes "scull_rep h dev nds"
  shows "scull_seq_show intr h i dev = Some
    (if intr then Inr (- ERESTARTSYS, [], dev)
     else if sd_sem dev = 0 then Inl Blocked
     else Inr (0, DevLine i (sd_qset dev) (sd_quantum dev) (sd_size dev) # map node_line nds @ last_slots nds, dev))"
proof (cases "sd_sem dev")
  case 0
  then show ?thesis by (simp add: scull_seq_show_def down_interruptible_def)
next
  case (Suc c)
  have "show_items h (sd_qset dev) (sd_data dev) = Some (Inr (map node_line nds @ last_slots nds))"
    using assms by (intro show_items_runs [where q = "sd_quantum dev"]) (simp add: scull_rep_def nodes_def)
  then show ?thesis
    using Suc by (cases dev) (simp add: scull_seq_show_def down_interruptible_def up_def)
qed

lemma seq_show_demo:
  "\<exists>s1 nds. scull_write demo_api False 100 3 (demo_io 9) = Inr (3, s1) \<and> sd_sem (io_dev s1) = 1 \<and>
    scull_seq_show False (io_heap s1) 0 (io_dev s1) =
      Some (Inr (0, DevLine 0 2 4 12 # map node_line nds @ last_slots nds, io_dev s1))"
proof -
  obtain s1 nds where w: "scull_write demo_api False 100 3 (demo_io 9) = Inr (3, s1)"
    and ok: "scull_ok (io_heap s1) (io_dev s1) nds" and "write_outcome demo_api 100 3 (demo_io 9) 3 s1"
    by (rule demo_written)
  have "case scull_write demo_api False 100 3 (demo_io 9) of Inl _ \<Rightarrow> False
    | Inr (_, s1) \<Rightarrow> sd_sem (io_dev s1) = 1 \<and> sd_qset (io_dev s1) = 2 \<and> sd_quantum (io_dev s1) = 4 \<and> sd_size (io_dev s1) = 12"
    by code_simp
  then have d: "sd_sem (io_dev s1) = 1" "sd_qset (io_dev s1) = 2" "sd_quantum (io_dev s1) = 4" "sd_size (io_dev s1) = 12"
    using w by simp_all
  have "scull_rep (io_heap s1) (io_dev s1) nds" using ok by (simp add: scull_ok_def)
  from seq_show_runs [OF this, of False 0] show ?thesis using w d by auto
qed

text \<open>C39: The older read function only checks the space between items, not between the lines of the
  dump: when the list of the first device is one item whose live quanta, at 19 bytes a line or
  more, exceed the page, it writes past the end of the page. With a page of 4096 bytes 216 of
  the 1000 quanta of an item are enough.\<close>

theorem procmem_overflows:
  assumes "scull_ok h dev [(a, Some (d, ps))]" "sd_sem dev \<noteq> 0" "\<not> intr 0"
    and "180 \<le> count" "count < 2 ^ 31"
    and "int (length buf) \<le> 19 * int (length (live_entries ps))" "live_entries ps \<noteq> []"
  shows "scull_read_procmem fp intr h (dev # devs) buf count = Inl OutOfBounds"
proof -
  obtain c where c: "sd_sem dev = Suc c" using assms(2) by (cases "sd_sem dev") auto
  let ?d = "dev\<lparr>sd_sem := c\<rparr>" and ?lim = "s32 (count - 80)"
  let ?t = "line_text fp (DevLine 0 (sd_qset dev) (sd_quantum dev) (sd_size dev))"
  have lim: "100 \<le> ?lim" using assms(4,5) by (simp add: s32_id)
  have t: "length ?t \<le> 100" using assms(1) by (intro dev_text_length) (simp add: scull_ok_def)
  have seg: "seg h (sd_quantum dev) (sd_qset dev) a [(a, Some (d, ps))] NULL" "sd_data dev = a" "a \<noteq> NULL"
    using assms(1) by (auto simp: scull_ok_def scull_rep_def nodes_def)
  have go: "scull_read_procmem fp intr h (dev # devs) buf count =
      kbind (sprintf_at buf 0 ?t) (\<lambda>(buf1, len1).
      kbind (procmem_items fp h (sd_qset dev) ?lim (sd_data dev) buf1 len1) (\<lambda>(buf2, len2).
      kbind (procmem_devices fp intr h ?lim devs 1 buf2 len2) (\<lambda>(ret, eof, buf3, ds').
      Inr (ret, eof, buf3, up ?d # ds'))))"
    using c assms(3) lim by (simp add: scull_read_procmem_def down_interruptible_def Let_def del: line_text.simps)
  show ?thesis
  proof (cases "int (length ?t) < int (length buf)")
    case True
    have "procmem_item fp h (sd_qset dev) a (buf_write buf 0 (?t @ [0])) (int (length ?t)) = Inl OutOfBounds"
      using procmem_last_item_overflows [OF seg(1), of "int (length ?t)" "buf_write buf 0 (?t @ [0])" fp] assms(6,7) True
      by (simp del: line_text.simps)
    then have "procmem_items fp h (sd_qset dev) ?lim (sd_data dev) (buf_write buf 0 (?t @ [0])) (int (length ?t)) = Inl OutOfBounds"
      using seg t lim by (subst procmem_items.simps) (simp del: line_text.simps)
    then show ?thesis unfolding go using True by (simp add: sprintf_at_def del: line_text.simps)
  next
    case False
    then show ?thesis unfolding go by (simp add: sprintf_at_def del: line_text.simps)
  qed
qed

text \<open>A page of 4096 bytes and one item with 216 quanta.\<close>

definition full_ptrs :: "ptr list" where
  "full_ptrs = map (\<lambda>i. word_of_nat (100 + i)) [0..<216]"

definition full_heap :: scull_heap where
  "full_heap p = (if p = 16 then Some (QsetObj \<lparr>qs_data = 32, qs_next = 0\<rparr>) else if p = 32 then Some (PtrArr full_ptrs)
     else if p \<in> set full_ptrs then Some (Quantum [1, 2, 3, 4]) else None)"

lemma full_ptrs_facts:
  "length full_ptrs = 216" "distinct full_ptrs" "p \<in> set full_ptrs \<Longrightarrow> p \<noteq> 0 \<and> p \<noteq> 16 \<and> p \<noteq> 32"
proof -
  have u: "unat (word_of_nat (100 + i) :: ptr) = 100 + i" if "i < 216" for i
    using that by (simp add: unat_of_nat take_bit_nat_eq_self del: of_nat_add of_nat_numeral)
  show "length full_ptrs = 216" by (simp add: full_ptrs_def)
  show "distinct full_ptrs"
    unfolding full_ptrs_def distinct_map
  proof (intro conjI inj_onI)
    fix x y assume "x \<in> set [0..<216]" "y \<in> set [0..<216]" "(word_of_nat (100 + x) :: ptr) = word_of_nat (100 + y)"
    then have "unat (word_of_nat (100 + x) :: ptr) = unat (word_of_nat (100 + y) :: ptr)" "x < 216" "y < 216" by simp_all
    then show "x = y" using u [of x] u [of y] by linarith
  qed simp
  show "p \<noteq> 0 \<and> p \<noteq> 16 \<and> p \<noteq> 32" if "p \<in> set full_ptrs"
  proof -
    have "p \<in> (\<lambda>i. word_of_nat (100 + i)) ` {0..<216}" using that by (simp only: full_ptrs_def set_map set_upt)
    then obtain i where i: "p = word_of_nat (100 + i)" "i < 216" by (auto simp del: of_nat_add)
    have "100 \<le> unat p" unfolding i(1) using u [OF i(2)] by (simp del: of_nat_add)
    then show ?thesis by auto
  qed
qed

lemma procmem_overflows_witness:
  "scull_read_procmem (\<lambda>p. replicate 16 48) (\<lambda>i. False) full_heap
     [demo_dev\<lparr>sd_data := 16, sd_qset := 216, sd_size := 4\<rparr>] (replicate 4096 0) 4096 = Inl OutOfBounds"
proof -
  let ?dev = "demo_dev\<lparr>sd_data := 16, sd_qset := 216, sd_size := 4\<rparr>"
  have live: "live_entries full_ptrs = full_ptrs"
    using full_ptrs_facts(3) by (auto simp: live_entries_def filter_id_conv)
  have "entry_ok full_heap 4 p" if "p \<in> set full_ptrs" for p
    using full_ptrs_facts(3) [OF that] that by (simp add: entry_ok_def full_heap_def)
  moreover have "full_heap 16 = Some (QsetObj \<lparr>qs_data = 32, qs_next = 0\<rparr>)" "full_heap 32 = Some (PtrArr full_ptrs)"
    by (simp_all add: full_heap_def)
  ultimately have ok: "scull_ok full_heap ?dev [(16, Some (32, full_ptrs))]"
    using full_ptrs_facts live
    by (auto simp: scull_ok_def geom_ok_def scull_rep_def nodes_def demo_dev_def)
  show ?thesis
    by (rule procmem_overflows [OF ok])
      (use full_ptrs_facts(1) in \<open>auto simp: demo_dev_def live\<close>)
qed

end
