(* ===== verification/ScullSeq.thy ===== *)
theory ScullSeq
  imports ScullProc ScullSession
begin

text \<open>
  The \<open>/proc/scullseq\<close> file as a whole: the table that ties the iterator up, the walk the
  \<open>seq_file\<close> layer makes over all devices, and what a reader sees after any session of calls on
  the devices.
\<close>

section \<open>The table\<close>

record scull_seq_operations =
  sq_start :: "scull_globals \<Rightarrow> int \<Rightarrow> int option"
  sq_next :: "scull_globals \<Rightarrow> int \<Rightarrow> int option \<times> int"
  sq_stop :: "int option \<Rightarrow> unit"
  sq_show :: "bool \<Rightarrow> scull_heap \<Rightarrow> int \<Rightarrow> scull_dev \<Rightarrow> (int \<times> proc_line list \<times> scull_dev) res option"

definition scull_seq_ops :: scull_seq_operations where
  "scull_seq_ops = \<lparr>sq_start = scull_seq_start, sq_next = scull_seq_next, sq_stop = scull_seq_stop,
     sq_show = scull_seq_show\<rparr>"

text \<open>\<open>seq_open\<close> is the kernel's; it is given the table.\<close>

definition scull_proc_open :: "('file \<Rightarrow> scull_seq_operations \<Rightarrow> int) \<Rightarrow> 'file \<Rightarrow> int" where
  "scull_proc_open seq_open file = seq_open file scull_seq_ops"

text \<open>The operations of the file: the other three are functions of the kernel, parameters here.\<close>

record ('file, 'rd, 'sk, 'rl) proc_file_operations =
  po_open :: "'file \<Rightarrow> int"
  po_read :: 'rd
  po_llseek :: 'sk
  po_release :: 'rl

definition scull_proc_ops ::
    "('file \<Rightarrow> scull_seq_operations \<Rightarrow> int) \<Rightarrow> 'rd \<Rightarrow> 'sk \<Rightarrow> 'rl \<Rightarrow> ('file, 'rd, 'sk, 'rl) proc_file_operations" where
  "scull_proc_ops seq_open seq_read seq_lseek seq_release =
     \<lparr>po_open = scull_proc_open seq_open, po_read = seq_read, po_llseek = seq_lseek, po_release = seq_release\<rparr>"

section \<open>The whole file\<close>

text \<open>
  What the layer shows of the devices the iterator delivers; an error of \<open>show\<close> ends it.
  \<open>intrs\<close> says for which devices the wait for the semaphore is interrupted.
\<close>

fun seq_show_all ::
    "scull_seq_operations \<Rightarrow> (int \<Rightarrow> bool) \<Rightarrow> scull_heap \<Rightarrow> scull_dev list \<Rightarrow> int list \<Rightarrow>
     (int \<times> proc_line list \<times> scull_dev list) res option" where
  "seq_show_all ops intrs h devs [] = Some (Inr (0, [], devs))"
| "seq_show_all ops intrs h devs (i # js) =
     Option.bind (sq_show ops (intrs i) h i (devs ! nat i)) (\<lambda>res. case res of
       Inl e \<Rightarrow> Some (Inl e)
     | Inr (r, ls, dev) \<Rightarrow>
         if r < 0 then Some (Inr (r, [], devs))
         else Option.bind (seq_show_all ops intrs h (devs[nat i := dev]) js) (\<lambda>rest.
           Some (kbind rest (\<lambda>(r', ls', devs'). Inr (r', ls @ ls', devs')))))"

definition scullseq_read ::
    "(int \<Rightarrow> bool) \<Rightarrow> scull_globals \<Rightarrow> scull_heap \<Rightarrow> scull_dev list \<Rightarrow> int \<Rightarrow> (int \<times> proc_line list \<times> scull_dev list) res option" where
  "scullseq_read intrs g h devs pos = seq_show_all scull_seq_ops intrs h devs (seq_devices g pos)"

definition dev_section :: "scull_dev \<Rightarrow> node list \<Rightarrow> int \<Rightarrow> proc_line list" where
  "dev_section dev nds i = DevLine i (sd_qset dev) (sd_quantum dev) (sd_size dev) # map node_line nds @ last_slots nds"

lemma seq_show_all_runs:
  assumes ok: "devs_ok h devs ndss" and idx: "\<forall>i \<in> set js. 0 \<le> i \<and> i < int (length devs) \<and> \<not> intrs i"
  shows "seq_show_all scull_seq_ops intrs h devs js =
    Some (Inr (0, concat (map (\<lambda>i. dev_section (devs ! nat i) (ndss ! nat i) i) js), devs))"
  using idx
proof (induction js)
  case (Cons i js)
  have i: "nat i < length devs" "\<not> intrs i" using Cons.prems by auto
  then have d: "scull_rep h (devs ! nat i) (ndss ! nat i)" "sd_sem (devs ! nat i) = 1"
    using ok by (simp_all add: devs_ok_def scull_ok_def)
  have "scull_seq_show False h i (devs ! nat i) =
      Some (Inr (0, dev_section (devs ! nat i) (ndss ! nat i) i, devs ! nat i))"
    using seq_show_runs [OF d(1), of False i] d(2) by (simp add: dev_section_def)
  then show ?case using Cons i by (simp add: scull_seq_ops_def)
qed simp

text \<open>C38: \<open>/proc/scullseq\<close> after any session: whatever calls have been made on the devices, a read of
  the sequence file from device \<open>pos\<close> on returns (the walk over every list ends), without a fault
  and without leaving a semaphore taken, and shows every device from there on exactly once and
  in order: its geometry and size, one line per list item, and the quanta of the last item.\<close>

theorem scullseq_shows_devices:
  assumes "kapi_ok K" "vfs_ok V0 ndss0" "session_ok K M cs V0"
    and "int (length (vf_devs V0)) = scull_nr_devs (vf_globals V0)" "0 \<le> pos" "\<forall>i. \<not> intrs i"
  shows "\<exists>rs V ndss. session K M cs V0 = Inr (rs, V) \<and> vfs_ok V ndss \<and>
    scullseq_read intrs (vf_globals V) (vf_heap V) (vf_devs V) pos =
      Some (Inr (0, concat (map (\<lambda>i. dev_section (vf_devs V ! nat i) (ndss ! nat i) i) [pos..scull_nr_devs (vf_globals V0) - 1]),
        vf_devs V))"
proof -
  obtain rs V ndss where run: "session K M cs V0 = Inr (rs, V)" and ok: "vfs_ok V ndss"
    and len: "length (vf_devs V) = length (vf_devs V0)"
    using session_runs [OF assms(1-3)] by blast
  have "scull_nr_devs (vf_globals V) = scull_nr_devs (vf_globals V0)"
    using session_numbers [OF run] by (simp add: same_numbers_def)
  moreover have "devs_ok (vf_heap V) (vf_devs V) ndss" using ok by (simp add: vfs_ok_def)
  ultimately show ?thesis
    using seq_show_all_runs [of "vf_heap V" "vf_devs V" ndss "[pos..scull_nr_devs (vf_globals V0) - 1]" intrs]
      run ok len assms(4-6)
    by (intro exI [of _ rs] exI [of _ V] exI [of _ ndss]) (simp add: scullseq_read_def seq_devices_all)
qed

lemma scullseq_shows_devices_witness:
  "\<exists>rs V ndss. session demo_api linux_ioc (take 4 demo_calls) demo_vfs = Inr (rs, V) \<and> vfs_ok V ndss \<and>
    scullseq_read (\<lambda>i. False) (vf_globals V) (vf_heap V) (vf_devs V) 0 =
      Some (Inr (0, dev_section (vf_devs V ! 0) (ndss ! 0) 0 @ dev_section (vf_devs V ! 1) (ndss ! 1) 1, vf_devs V)) \<and>
    sd_size (vf_devs V ! 0) = 4"
proof -
  have s: "session_ok demo_api linux_ioc (take 4 demo_calls) demo_vfs"
    "case session demo_api linux_ioc (take 4 demo_calls) demo_vfs of Inl e \<Rightarrow> False | Inr (rs, V) \<Rightarrow> sd_size (vf_devs V ! 0) = 4"
    by code_simp+
  have n: "int (length (vf_devs demo_vfs)) = scull_nr_devs (vf_globals demo_vfs)" by (simp add: demo_vfs_def)
  have i: "[0..scull_nr_devs (vf_globals demo_vfs) - 1] = [0, 1]" by (simp add: demo_vfs_def upto_rec1)
  show ?thesis
    using scullseq_shows_devices [OF sample_kapi_ok demo_vfs_ok s(1) n, of 0 "\<lambda>i. False"] s(2)
    unfolding i by (auto split: sum.splits)
qed

end
