(* ===== verification/LifoConc.thy ===== *)
theory LifoConc
  imports LifoProps
begin

text \<open>
  Several threads on the LIFO device, which has no lock. A read or write copies the list head when
  it enters and stores it back when its loop is done; a write-only open frees the nodes one by
  one and resets the counter. Here a step is one turn of a loop. The code is more fine-grained, so
  it can do whatever is shown to happen here, and more: the relation serves to exhibit races, and
  nothing is claimed to be safe by it (\<open>LifoWriters\<close> has the writes access by access). Calls one
  after the other behave as the sequential operations; two interleaved reads use a freed node, two
  interleaved writes lose one of the bytes and leave the counter too large.
\<close>

section \<open>One turn\<close>

text \<open>The left result ends the call, the right one is the state of the loop for the next turn.\<close>

type_synonym lifo_turn = "(int \<times> lifo_io) + (int \<times> int \<times> ptr \<times> lifo_io)"

definition store_head :: "ptr \<Rightarrow> lifo_io \<Rightarrow> lifo_io" where
  "store_head ptr s = s\<lparr>lo_dev := (lo_dev s)\<lparr>ld_data := ptr\<rparr>\<rparr>"

definition lifo_read_turn ::
    "kapi \<Rightarrow> uaddr \<Rightarrow> int \<Rightarrow> int \<Rightarrow> int \<Rightarrow> ptr \<Rightarrow> lifo_io \<Rightarrow> lifo_turn res" where
  "lifo_read_turn K buf count i retval ptr s =
     (if \<not> u64 i < count then Inr (Inl (retval, store_head ptr s))
      else kbind (kload (lo_heap s) ptr) (\<lambda>nd.
        let (left, um) = copy_to_user K (lo_user s) (buf + i) [ln_value nd] in
        if left \<noteq> 0 then Inr (Inl (- EFAULT, s\<lparr>lo_user := um\<rparr>))
        else kbind (kfree (lo_heap s) ptr) (\<lambda>h'.
          Inr (Inr (s32 (i + 1), s64 (retval + 1), ln_next nd,
            s\<lparr>lo_heap := h', lo_user := um,
              lo_dev := (lo_dev s)\<lparr>ld_fset := s32 (ld_fset (lo_dev s) - 1)\<rparr>\<rparr>)))))"

definition lifo_write_turn ::
    "kapi \<Rightarrow> uaddr \<Rightarrow> int \<Rightarrow> int \<Rightarrow> int \<Rightarrow> ptr \<Rightarrow> lifo_io \<Rightarrow> lifo_turn res" where
  "lifo_write_turn K buf count i retval ptr s =
     (if \<not> u64 i < count then Inr (Inl (retval, store_head ptr s))
      else
        let new = kmalloc K (live (lo_heap s)) sizeof_node in
        if new = NULL then Inl NullDeref
        else if live (lo_heap s) new then Inl OutOfBounds
        else
          let left = fst (copy_from_user K (lo_user s) (buf + i) 1);
              bs = snd (copy_from_user K (lo_user s) (buf + i) 1);
              nd = (raw_node K new)\<lparr>ln_value := hd bs\<rparr> in
          if left \<noteq> 0 then Inr (Inl (- EFAULT, s\<lparr>lo_heap := (lo_heap s)(new \<mapsto> nd)\<rparr>))
          else Inr (Inr (s32 (i + 1), s64 (retval + 1), new,
            s\<lparr>lo_heap := (lo_heap s)(new \<mapsto> nd\<lparr>ln_next := ptr\<rparr>),
              lo_dev := (lo_dev s)\<lparr>ld_fset := s32 (ld_fset (lo_dev s) + 1)\<rparr>\<rparr>)))"

text \<open>A turn of the loop of \<open>lifo_trim\<close>, or its end.\<close>

definition lifo_trim_turn :: "ptr \<Rightarrow> lifo_io \<Rightarrow> (lifo_io + ptr \<times> lifo_io) res" where
  "lifo_trim_turn ptr s =
     (if ptr = NULL then Inr (Inl (s\<lparr>lo_dev := (lo_dev s)\<lparr>ld_fset := 0\<rparr>\<rparr>))
      else kbind (kload (lo_heap s) ptr) (\<lambda>nd.
        kbind (kfree (lo_heap s) ptr) (\<lambda>h'. Inr (Inr (ln_next nd, s\<lparr>lo_heap := h'\<rparr>)))))"

section \<open>The system\<close>

datatype lifo_pc = LIdle | LRead uaddr int int int ptr | LWrite uaddr int int int ptr | LTrim ptr | LCrashed fault

record lifo_sys =
  ls_io :: lifo_io
  ls_pc :: "nat \<Rightarrow> lifo_pc"

definition moved :: "lifo_sys \<Rightarrow> nat \<Rightarrow> lifo_pc \<Rightarrow> lifo_io \<Rightarrow> lifo_sys" where
  "moved S t p s = S\<lparr>ls_io := s, ls_pc := (ls_pc S)(t := p)\<rparr>"

lemma moved_simps [simp]:
  "ls_io (moved S t p s) = s"
  "ls_pc (moved S t p s) t' = (if t' = t then p else ls_pc S t')"
  by (simp_all add: moved_def)

inductive lifo_step :: "kapi \<Rightarrow> lifo_sys \<Rightarrow> lifo_sys \<Rightarrow> bool" for K where
  rd_enter: "ls_pc S t = LIdle \<Longrightarrow>
    count1 = (if u64 (ld_fset (lo_dev (ls_io S))) < count then u64 (ld_fset (lo_dev (ls_io S))) else count) \<Longrightarrow>
    lifo_step K S (moved S t (LRead buf count1 0 0 (ld_data (lo_dev (ls_io S)))) (ls_io S))"
| rd_next: "ls_pc S t = LRead buf count i r p \<Longrightarrow>
    lifo_read_turn K buf count i r p (ls_io S) = Inr (Inr (i', r', p', s')) \<Longrightarrow>
    lifo_step K S (moved S t (LRead buf count i' r' p') s')"
| rd_done: "ls_pc S t = LRead buf count i r p \<Longrightarrow>
    lifo_read_turn K buf count i r p (ls_io S) = Inr (Inl (ret, s')) \<Longrightarrow> lifo_step K S (moved S t LIdle s')"
| rd_crash: "ls_pc S t = LRead buf count i r p \<Longrightarrow>
    lifo_read_turn K buf count i r p (ls_io S) = Inl f \<Longrightarrow> lifo_step K S (moved S t (LCrashed f) (ls_io S))"
| wr_enter: "ls_pc S t = LIdle \<Longrightarrow>
    lifo_step K S (moved S t (LWrite buf count 0 0 (ld_data (lo_dev (ls_io S)))) (ls_io S))"
| wr_next: "ls_pc S t = LWrite buf count i r p \<Longrightarrow>
    lifo_write_turn K buf count i r p (ls_io S) = Inr (Inr (i', r', p', s')) \<Longrightarrow>
    lifo_step K S (moved S t (LWrite buf count i' r' p') s')"
| wr_done: "ls_pc S t = LWrite buf count i r p \<Longrightarrow>
    lifo_write_turn K buf count i r p (ls_io S) = Inr (Inl (ret, s')) \<Longrightarrow> lifo_step K S (moved S t LIdle s')"
| wr_crash: "ls_pc S t = LWrite buf count i r p \<Longrightarrow>
    lifo_write_turn K buf count i r p (ls_io S) = Inl f \<Longrightarrow> lifo_step K S (moved S t (LCrashed f) (ls_io S))"
| tr_enter: "ls_pc S t = LIdle \<Longrightarrow> lifo_step K S (moved S t (LTrim (ld_data (lo_dev (ls_io S)))) (ls_io S))"
| tr_next: "ls_pc S t = LTrim p \<Longrightarrow> lifo_trim_turn p (ls_io S) = Inr (Inr (p', s')) \<Longrightarrow>
    lifo_step K S (moved S t (LTrim p') s')"
| tr_done: "ls_pc S t = LTrim p \<Longrightarrow> lifo_trim_turn p (ls_io S) = Inr (Inl s') \<Longrightarrow> lifo_step K S (moved S t LIdle s')"
| tr_crash: "ls_pc S t = LTrim p \<Longrightarrow> lifo_trim_turn p (ls_io S) = Inl f \<Longrightarrow>
    lifo_step K S (moved S t (LCrashed f) (ls_io S))"

inductive lifo_reach :: "kapi \<Rightarrow> lifo_sys \<Rightarrow> lifo_sys \<Rightarrow> bool" for K where
  lr_start: "lifo_reach K S S"
| lr_step: "lifo_step K S S1 \<Longrightarrow> lifo_reach K S1 S2 \<Longrightarrow> lifo_reach K S S2"

lemma moved_moved [simp]: "moved (moved S t p s) t p' s' = moved S t p' s'"
  by (simp add: moved_def)

text \<open>Runs in which no thread writes or opens the device.\<close>

fun reading :: "lifo_pc \<Rightarrow> bool" where
  "reading (LWrite _ _ _ _ _) = False"
| "reading (LTrim _) = False"
| "reading _ = True"

inductive reads_reach :: "kapi \<Rightarrow> lifo_sys \<Rightarrow> lifo_sys \<Rightarrow> bool" for K S0 where
  reads_start: "reads_reach K S0 S0"
| reads_more: "reads_reach K S0 S \<Longrightarrow> lifo_step K S S' \<Longrightarrow> \<forall>t. reading (ls_pc S' t) \<Longrightarrow> reads_reach K S0 S'"

section \<open>One call after the other\<close>

lemma read_loop_run:
  "lifo_read_loop K buf count i r p s = Inr (dn, ret, ptr, s') \<Longrightarrow>
   ls_io S = s \<Longrightarrow> ls_pc S t = LRead buf count i r p \<Longrightarrow>
   lifo_reach K S (moved S t LIdle (if dn then store_head ptr s' else s'))"
proof (induction K buf count i r p s arbitrary: S rule: lifo_read_loop.induct)
  case (1 K buf count i r p s)
  show ?case
  proof (cases "u64 i < count")
    case False
    then have "dn" "ret = r" "ptr = p" "s' = s" using "1.prems"(1) by (subst (asm) lifo_read_loop.simps, simp)+
    then show ?thesis
      using "1.prems"(2,3) False by (intro lr_step [OF rd_done lr_start]) (auto simp: lifo_read_turn_def)
  next
    case True
    from "1.prems"(1) True obtain nd where nd: "kload (lo_heap s) p = Inr nd"
      by (subst (asm) lifo_read_loop.simps) (auto simp: kbind_Inr_iff)
    obtain left um where lu: "copy_to_user K (lo_user s) (buf + i) [ln_value nd] = (left, um)"
      by (cases "copy_to_user K (lo_user s) (buf + i) [ln_value nd]")
    note st = nd lu
    show ?thesis
    proof (cases "left = 0")
      case False
      then have "\<not> dn" "ret = - EFAULT" "s' = s\<lparr>lo_user := um\<rparr>"
        using "1.prems"(1) True st by (subst (asm) lifo_read_loop.simps, simp)+
      then show ?thesis
        using "1.prems"(2,3) True st False
        by (intro lr_step [OF rd_done lr_start]) (auto simp: lifo_read_turn_def)
    next
      case left: True
      from "1.prems"(1) True st left obtain h' where k: "kfree (lo_heap s) p = Inr h'"
        by (subst (asm) lifo_read_loop.simps) (auto simp: kbind_Inr_iff)
      let ?s = "s\<lparr>lo_heap := h', lo_user := um, lo_dev := (lo_dev s)\<lparr>ld_fset := s32 (ld_fset (lo_dev s) - 1)\<rparr>\<rparr>"
      have loop: "lifo_read_loop K buf count (s32 (i + 1)) (s64 (r + 1)) (ln_next nd) ?s = Inr (dn, ret, ptr, s')"
        using "1.prems"(1) True st left k by (subst (asm) lifo_read_loop.simps) simp
      let ?S = "moved S t (LRead buf count (s32 (i + 1)) (s64 (r + 1)) (ln_next nd)) ?s"
      have "lifo_reach K ?S (moved ?S t LIdle (if dn then store_head ptr s' else s'))"
        by (rule "1.IH" [OF _ st(1) st(2) [symmetric] refl _ k loop]) (use True left in simp_all)
      moreover have "lifo_step K S ?S"
        by (rule rd_next [OF "1.prems"(3)]) (use True st left k "1.prems"(2) in \<open>simp add: lifo_read_turn_def\<close>)
      ultimately show ?thesis by (auto intro: lr_step)
    qed
  qed
qed

lemma write_loop_run:
  "lifo_write_loop K buf count i r p s = Inr (dn, ret, ptr, s') \<Longrightarrow>
   ls_io S = s \<Longrightarrow> ls_pc S t = LWrite buf count i r p \<Longrightarrow>
   lifo_reach K S (moved S t LIdle (if dn then store_head ptr s' else s'))"
proof (induction K buf count i r p s arbitrary: S rule: lifo_write_loop.induct)
  case (1 K buf count i r p s)
  show ?case
  proof (cases "u64 i < count")
    case False
    then have "dn" "ret = r" "ptr = p" "s' = s" using "1.prems"(1) by (subst (asm) lifo_write_loop.simps, simp)+
    then show ?thesis
      using "1.prems"(2,3) False by (intro lr_step [OF wr_done lr_start]) (auto simp: lifo_write_turn_def)
  next
    case True
    let ?new = "kmalloc K (live (lo_heap s)) 16"
    let ?nd = "(raw_node K ?new)\<lparr>ln_value := hd (snd (copy_from_user K (lo_user s) (buf + i) 1))\<rparr>"
    have fresh: "?new \<noteq> NULL" "\<not> live (lo_heap s) ?new"
      using "1.prems"(1) True by (subst (asm) lifo_write_loop.simps, simp add: Let_def split: if_splits)+
    show ?thesis
    proof (cases "fst (copy_from_user K (lo_user s) (buf + i) 1) = 0")
      case False
      then have "\<not> dn" "ret = - EFAULT" "s' = s\<lparr>lo_heap := (lo_heap s)(?new \<mapsto> ?nd)\<rparr>"
        using "1.prems"(1) True fresh by (subst (asm) lifo_write_loop.simps, simp add: Let_def)+
      then show ?thesis
        using "1.prems"(2,3) True fresh False
        by (intro lr_step [OF wr_done lr_start]) (auto simp: lifo_write_turn_def Let_def)
    next
      case left: True
      let ?s = "s\<lparr>lo_heap := (lo_heap s)(?new \<mapsto> ?nd\<lparr>ln_next := p\<rparr>),
        lo_dev := (lo_dev s)\<lparr>ld_fset := s32 (ld_fset (lo_dev s) + 1)\<rparr>\<rparr>"
      have loop: "lifo_write_loop K buf count (s32 (i + 1)) (s64 (r + 1)) ?new ?s = Inr (dn, ret, ptr, s')"
        using "1.prems"(1) True left fresh by (subst (asm) lifo_write_loop.simps) (simp add: Let_def)
      let ?S = "moved S t (LWrite buf count (s32 (i + 1)) (s64 (r + 1)) ?new) ?s"
      have "lifo_reach K ?S (moved ?S t LIdle (if dn then store_head ptr s' else s'))"
        by (rule "1.IH" [OF _ refl fresh refl refl refl _ loop]) (use True left in simp_all)
      moreover have "lifo_step K S ?S"
        by (rule wr_next [OF "1.prems"(3)]) (use True left fresh "1.prems"(2) in \<open>simp add: lifo_write_turn_def Let_def\<close>)
      ultimately show ?thesis by (auto intro: lr_step)
    qed
  qed
qed

lemma lifo_reach_trans: "lifo_reach K S0 S1 \<Longrightarrow> lifo_reach K S1 S2 \<Longrightarrow> lifo_reach K S0 S2"
  by (induction rule: lifo_reach.induct) (auto intro: lr_step)

lemma read_call_run:
  assumes "ls_pc S t = LIdle" "lifo_read K buf count 0 (ls_io S) = Inr (ret, s')"
  shows "lifo_reach K S (moved S t LIdle s')"
proof -
  let ?c = "if u64 (ld_fset (lo_dev (ls_io S))) < count then u64 (ld_fset (lo_dev (ls_io S))) else count"
  let ?S = "moved S t (LRead buf ?c 0 0 (ld_data (lo_dev (ls_io S)))) (ls_io S)"
  obtain dn ptr s1 where l: "lifo_read_loop K buf ?c 0 0 (ld_data (lo_dev (ls_io S))) (ls_io S) = Inr (dn, ret, ptr, s1)"
    "s' = (if dn then store_head ptr s1 else s1)"
    using assms(2) by (auto simp: lifo_read_def Let_def kbind_Inr_iff store_head_def)
  have run: "lifo_reach K ?S (moved ?S t LIdle (if dn then store_head ptr s1 else s1))"
    by (rule read_loop_run [OF l(1)]) simp_all
  have "lifo_step K S ?S" by (rule rd_enter [OF assms(1) refl])
  from lr_step [OF this run] show ?thesis by (simp add: l(2))
qed

lemma write_call_run:
  assumes "ls_pc S t = LIdle" "lifo_write K buf count (ls_io S) = Inr (ret, s')"
  shows "lifo_reach K S (moved S t LIdle s')"
proof -
  let ?S = "moved S t (LWrite buf count 0 0 (ld_data (lo_dev (ls_io S)))) (ls_io S)"
  obtain dn ptr s1 where l: "lifo_write_loop K buf count 0 0 (ld_data (lo_dev (ls_io S))) (ls_io S) = Inr (dn, ret, ptr, s1)"
    "s' = (if dn then store_head ptr s1 else s1)"
    using assms(2) by (auto simp: lifo_write_def kbind_Inr_iff store_head_def)
  have run: "lifo_reach K ?S (moved ?S t LIdle (if dn then store_head ptr s1 else s1))"
    by (rule write_loop_run [OF l(1)]) simp_all
  have "lifo_step K S ?S" by (rule wr_enter [OF assms(1)])
  from lr_step [OF this run] show ?thesis by (simp add: l(2))
qed

lemma trim_loop_run:
  "lifo_trim_loop h p = Inr h' \<Longrightarrow> lo_heap (ls_io S) = h \<Longrightarrow> ls_pc S t = LTrim p \<Longrightarrow>
   lifo_reach K S (moved S t LIdle ((ls_io S)\<lparr>lo_heap := h', lo_dev := (lo_dev (ls_io S))\<lparr>ld_fset := 0\<rparr>\<rparr>))"
proof (induction h p arbitrary: S rule: lifo_trim_loop.induct)
  case (1 h p)
  show ?case
  proof (cases "p = NULL")
    case True
    then have "h' = h" using "1.prems"(1) by (subst (asm) lifo_trim_loop.simps) simp
    moreover have "lifo_trim_turn p (ls_io S) = Inr (Inl ((ls_io S)\<lparr>lo_dev := (lo_dev (ls_io S))\<lparr>ld_fset := 0\<rparr>\<rparr>))"
      using True by (simp add: lifo_trim_turn_def)
    ultimately show ?thesis
      using lr_step [OF tr_done [OF "1.prems"(3)] lr_start] "1.prems"(2) by simp
  next
    case False
    obtain nd h1 where nd: "kload h p = Inr nd" and h1: "kfree h p = Inr h1" and rest: "lifo_trim_loop h1 (ln_next nd) = Inr h'"
      using "1.prems"(1) False by (subst (asm) lifo_trim_loop.simps) (auto simp: kbind_Inr_iff)
    let ?S = "moved S t (LTrim (ln_next nd)) ((ls_io S)\<lparr>lo_heap := h1\<rparr>)"
    have "lifo_step K S ?S"
      by (rule tr_next [OF "1.prems"(3)]) (use False nd h1 "1.prems"(2) in \<open>simp add: lifo_trim_turn_def\<close>)
    moreover have "lifo_reach K ?S (moved ?S t LIdle ((ls_io ?S)\<lparr>lo_heap := h', lo_dev := (lo_dev (ls_io ?S))\<lparr>ld_fset := 0\<rparr>\<rparr>))"
      by (rule "1.IH" [OF False nd h1 rest]) simp_all
    ultimately show ?thesis by (auto intro: lr_step)
  qed
qed

lemma open_call_run:
  assumes "ls_pc S t = LIdle" "lifo_open 1 (lo_heap (ls_io S)) (lo_dev (ls_io S)) = Inr (ret, h', dev')"
  shows "lifo_reach K S (moved S t LIdle ((ls_io S)\<lparr>lo_heap := h', lo_dev := dev'\<rparr>))"
proof -
  let ?S = "moved S t (LTrim (ld_data (lo_dev (ls_io S)))) (ls_io S)"
  have t: "lifo_trim_loop (lo_heap (ls_io S)) (ld_data (lo_dev (ls_io S))) = Inr h'"
    "dev' = (lo_dev (ls_io S))\<lparr>ld_fset := 0\<rparr>"
    using assms(2) by (auto simp: lifo_open_def lifo_trim_def kbind_Inr_iff)
  have "lifo_reach K ?S (moved ?S t LIdle ((ls_io ?S)\<lparr>lo_heap := h', lo_dev := (lo_dev (ls_io ?S))\<lparr>ld_fset := 0\<rparr>\<rparr>))"
    by (rule trim_loop_run [OF t(1)]) simp_all
  moreover have "lifo_step K S ?S" by (rule tr_enter [OF assms(1)])
  ultimately show ?thesis by (auto simp: t(2) intro: lr_step)
qed

section \<open>Properties\<close>

text \<open>C22: Two interleaved reads of a non-empty stack use freed memory. From any well-formed device with
  nobody inside, a run in which no thread writes or opens the device reaches a state where the first read has
  returned with the top byte delivered, the device is well formed and holds the other bytes, and
  the second read still holds the address of the node that the first has freed; its next step
  reads that node.\<close>

theorem lifo_read_race:
  assumes "copy_to_ok K" "lifo_rep (lo_heap (ls_io S)) (lo_dev (ls_io S)) ((a, v) # nds)" "user_ok K buf 1"
    and "\<And>t. ls_pc S t = LIdle"
  shows "\<exists>S1 S2. reads_reach K S S1 \<and> ls_pc S1 0 = LIdle \<and> ls_pc S1 1 = LRead buf 1 0 0 a \<and>
    lifo_rep (lo_heap (ls_io S1)) (lo_dev (ls_io S1)) nds \<and> lo_user (ls_io S1) = um_write (lo_user (ls_io S)) buf [v] \<and>
    lifo_step K S1 S2 \<and> ls_pc S2 1 = LCrashed UseAfterFree"
proof -
  let ?s = "ls_io S" and ?p = "ld_data (lo_dev (ls_io S))"
  have ch: "chain (lo_heap ?s) ?p ((a, v) # nds)" "distinct (map fst ((a, v) # nds))"
    and n: "ld_fset (lo_dev ?s) = int (length nds) + 1" "int (length nds) + 1 < 2 ^ 31"
    using assms(2) by (simp_all add: lifo_rep_def)
  obtain nx where st: "?p = a" "a \<noteq> NULL" "kload (lo_heap ?s) a = Inr \<lparr>ln_next = nx, ln_value = v\<rparr>"
    "kfree (lo_heap ?s) a = Inr (freed (lo_heap ?s) {a})" and rest: "chain (freed (lo_heap ?s) {a}) nx nds"
    using chain_step [OF ch] by metis
  have cp: "copy_to_user K um buf [v] = (0, um_write um buf [v])" for um
    using copy_byte_out [OF assms(1), of um buf v] assms(3) by blast
  have c1: "(1 :: int) = (if u64 (ld_fset (lo_dev ?s)) < 1 then u64 (ld_fset (lo_dev ?s)) else 1)"
    using n by (simp add: u64_id)
  define S1 where "S1 = moved S 0 (LRead buf 1 0 0 a) ?s"
  define S2 where "S2 = moved S1 1 (LRead buf 1 0 0 a) ?s"
  define s3 where "s3 = ?s\<lparr>lo_heap := freed (lo_heap ?s) {a}, lo_user := um_write (lo_user ?s) buf [v],
      lo_dev := (lo_dev ?s)\<lparr>ld_fset := s32 (ld_fset (lo_dev ?s) - 1)\<rparr>\<rparr>"
  define S3 where "S3 = moved S2 0 (LRead buf 1 1 1 nx) s3"
  define S4 where "S4 = moved S3 0 LIdle (store_head nx s3)"
  define S5 where "S5 = moved S4 1 (LCrashed UseAfterFree) (store_head nx s3)"
  have 1: "lifo_step K S S1"
    unfolding S1_def using rd_enter [OF assms(4) c1, of K 0 buf] st(1) by simp
  have 2: "lifo_step K S1 S2"
  proof -
    have e: "ls_pc S1 1 = LIdle" "ls_io S1 = ?s" using assms(4) by (simp_all add: S1_def)
    have "1 = (if u64 (ld_fset (lo_dev (ls_io S1))) < 1 then u64 (ld_fset (lo_dev (ls_io S1))) else 1)"
      unfolding e(2) by (rule c1)
    from rd_enter [OF e(1) this, of K buf] show ?thesis by (simp add: S2_def e(2) st(1))
  qed
  have "lifo_read_turn K buf 1 0 0 a ?s = Inr (Inr (1, 1, nx, s3))"
    using st cp by (simp add: lifo_read_turn_def u64_def s32_id s64_id s3_def)
  then have 3: "lifo_step K S2 S3"
    unfolding S3_def by (intro rd_next [of S2 0 buf 1 0 0 a]) (simp_all add: S2_def S1_def)
  have "lifo_read_turn K buf 1 1 1 nx s3 = Inr (Inl (1, store_head nx s3))"
    by (simp add: lifo_read_turn_def u64_def)
  then have 4: "lifo_step K S3 S4"
    unfolding S4_def by (intro rd_done [of S3 0 buf 1 1 1 nx]) (simp_all add: S3_def)
  have "lifo_read_turn K buf 1 0 0 a (store_head nx s3) = Inl UseAfterFree"
    using st(2) by (simp add: lifo_read_turn_def u64_def store_head_def s3_def kmem freed_apply)
  then have 5: "lifo_step K S4 S5"
    using rd_crash [of S4 1 buf 1 0 0 a K UseAfterFree] by (simp add: S5_def S4_def S3_def S2_def S1_def)
  have r: "\<forall>t. reading (ls_pc S1 t)" "\<forall>t. reading (ls_pc S2 t)" "\<forall>t. reading (ls_pc S3 t)" "\<forall>t. reading (ls_pc S4 t)"
    using assms(4) by (simp_all add: S1_def S2_def S3_def S4_def)
  have reach: "reads_reach K S S4"
    by (rule reads_more [OF reads_more [OF reads_more [OF reads_more [OF reads_start 1 r(1)] 2 r(2)] 3 r(3)] 4 r(4)])
  have "lifo_rep (lo_heap (ls_io S4)) (lo_dev (ls_io S4)) nds"
    using rest ch(2) n by (simp add: lifo_rep_def S4_def store_head_def s3_def s32_id)
  moreover have "ls_pc S4 0 = LIdle" "ls_pc S4 1 = LRead buf 1 0 0 a" "ls_pc S5 1 = LCrashed UseAfterFree"
    "lo_user (ls_io S4) = um_write (lo_user ?s) buf [v]"
    by (simp_all add: S5_def S4_def S3_def S2_def store_head_def s3_def)
  ultimately show ?thesis using reach 5 by blast
qed

definition demo_lifo_sys :: lifo_sys where
  "demo_lifo_sys = \<lparr>ls_io = demo_lifo, ls_pc = (\<lambda>t. LIdle)\<rparr>"

lemma lifo_read_race_witness:
  "\<exists>S1 S2. reads_reach (sample_api [] 1000 True) demo_lifo_sys S1 \<and> ls_pc S1 0 = LIdle \<and>
    ls_pc S1 1 = LRead 100 1 0 0 16 \<and> lifo_rep (lo_heap (ls_io S1)) (lo_dev (ls_io S1)) [(32, 5)] \<and>
    lo_user (ls_io S1) = um_write (lo_user (ls_io demo_lifo_sys)) 100 [7] \<and>
    lifo_step (sample_api [] 1000 True) S1 S2 \<and> ls_pc S2 1 = LCrashed UseAfterFree"
proof -
  have "lifo_rep (lo_heap (ls_io demo_lifo_sys)) (lo_dev (ls_io demo_lifo_sys)) [(16, 7), (32, 5)]"
    using demo_lifo_rep by (simp add: demo_lifo_sys_def)
  moreover have "user_ok (sample_api [] 1000 True) 100 1" by (simp add: sample_api_def)
  moreover have "ls_pc demo_lifo_sys t = LIdle" for t by (simp add: demo_lifo_sys_def)
  ultimately show ?thesis by (rule lifo_read_race [OF sample_copy_to_ok])
qed

text \<open>C23: Two interleaved writes of a byte lose one of them: both return, the counter has gone up by
  two, the list is one node longer, and the node of the first write belongs to nobody.\<close>

theorem lifo_lost_write:
  assumes "copy_from_ok K" "lifo_rep (lo_heap (ls_io S)) (lo_dev (ls_io S)) nds" "int (length nds) + 2 < 2 ^ 31"
    and "user_ok K b0 1" "user_ok K b1 1" "ls_pc S 0 = LIdle" "ls_pc S 1 = LIdle"
    and "a0 = kmalloc K (live (lo_heap (ls_io S))) 16" "a0 \<noteq> NULL" "\<not> live (lo_heap (ls_io S)) a0"
    and "a1 = kmalloc K (\<lambda>p. live (lo_heap (ls_io S)) p \<or> p = a0) 16" "a1 \<noteq> NULL"
    and "\<not> live (lo_heap (ls_io S)) a1" "a1 \<noteq> a0"
  shows "\<exists>S'. lifo_reach K S S' \<and> ls_pc S' 0 = LIdle \<and> ls_pc S' 1 = LIdle \<and>
    ld_fset (lo_dev (ls_io S')) = int (length nds) + 2 \<and>
    chain (lo_heap (ls_io S')) (ld_data (lo_dev (ls_io S'))) ((a1, lo_user (ls_io S) b1) # nds) \<and>
    live (lo_heap (ls_io S')) a0 \<and> a0 \<notin> addrs ((a1, lo_user (ls_io S) b1) # nds)"
proof -
  let ?s = "ls_io S" and ?p = "ld_data (lo_dev (ls_io S))"
  have ch: "chain (lo_heap ?s) ?p nds" and n: "ld_fset (lo_dev ?s) = int (length nds)"
    using assms(2) by (simp_all add: lifo_rep_def)
  have in0: "fst (copy_from_user K um b0 1) = 0" and in1: "fst (copy_from_user K um b1 1) = 0"
    "hd (snd (copy_from_user K um b1 1)) = um b1" for um
    using copy_byte_in [OF assms(1), of um b0] copy_byte_in [OF assms(1), of um b1] assms(4,5) by auto
  define nd0 where "nd0 = (raw_node K a0)\<lparr>ln_value := hd (snd (copy_from_user K (lo_user ?s) b0 1)), ln_next := ?p\<rparr>"
  define s1 where "s1 = ?s\<lparr>lo_heap := (lo_heap ?s)(a0 \<mapsto> nd0), lo_dev := (lo_dev ?s)\<lparr>ld_fset := int (length nds) + 1\<rparr>\<rparr>"
  define nd1 where "nd1 = (raw_node K a1)\<lparr>ln_value := lo_user ?s b1, ln_next := ?p\<rparr>"
  define s2 where "s2 = s1\<lparr>lo_heap := (lo_heap s1)(a1 \<mapsto> nd1), lo_dev := (lo_dev s1)\<lparr>ld_fset := int (length nds) + 2\<rparr>\<rparr>"
  have live1: "live (lo_heap s1) = (\<lambda>p. live (lo_heap ?s) p \<or> p = a0)" by (auto simp: live_def s1_def)
  have t0: "lifo_write_turn K b0 1 0 0 ?p ?s = Inr (Inr (1, 1, a0, s1))"
    using assms(8-10) in0 n assms(3) by (simp add: lifo_write_turn_def Let_def u64_def s32_id s64_id s1_def nd0_def)
  have t1: "lifo_write_turn K b1 1 0 0 ?p s1 = Inr (Inr (1, 1, a1, s2))"
  proof -
    have "kmalloc K (live (lo_heap s1)) 16 = a1" "\<not> live (lo_heap s1) a1" using assms(11,13,14) by (simp_all add: live1)
    then show ?thesis using assms(12) in1 assms(3)
      by (simp add: lifo_write_turn_def Let_def u64_def s32_id s64_id) (simp add: s2_def nd1_def s1_def s32_id)
  qed
  have fin: "lifo_write_turn K b 1 1 1 p s = Inr (Inl (1, store_head p s))" for b p s
    by (simp add: lifo_write_turn_def u64_def)
  define S1 where "S1 = moved S 0 (LWrite b0 1 0 0 ?p) ?s"
  define S2 where "S2 = moved S1 1 (LWrite b1 1 0 0 ?p) ?s"
  define S3 where "S3 = moved S2 0 (LWrite b0 1 1 1 a0) s1"
  define S4 where "S4 = moved S3 1 (LWrite b1 1 1 1 a1) s2"
  define S5 where "S5 = moved S4 0 LIdle (store_head a0 s2)"
  define S6 where "S6 = moved S5 1 LIdle (store_head a1 (store_head a0 s2))"
  have 1: "lifo_step K S S1" unfolding S1_def by (rule wr_enter [OF assms(6)])
  have 2: "lifo_step K S1 S2"
    unfolding S2_def using wr_enter [of S1 1 K b1 1] assms(7) by (simp add: S1_def)
  have 3: "lifo_step K S2 S3"
    unfolding S3_def by (rule wr_next [of S2 0 b0 1 0 0 ?p]) (simp_all add: S2_def S1_def t0)
  have 4: "lifo_step K S3 S4"
    unfolding S4_def by (rule wr_next [of S3 1 b1 1 0 0 ?p]) (simp_all add: S3_def S2_def t1)
  have 5: "lifo_step K S4 S5"
    unfolding S5_def by (rule wr_done [of S4 0 b0 1 1 1 a0]) (simp_all add: S4_def S3_def fin)
  have 6: "lifo_step K S5 S6"
    unfolding S6_def by (rule wr_done [of S5 1 b1 1 1 1 a1]) (simp_all add: S5_def S4_def fin)
  have reach: "lifo_reach K S S6"
    by (rule lr_step [OF 1 lr_step [OF 2 lr_step [OF 3 lr_step [OF 4 lr_step [OF 5 lr_step [OF 6 lr_start]]]]]])
  have na: "a0 \<notin> addrs nds" "a1 \<notin> addrs nds"
    using chain_live [OF ch, of a0] chain_live [OF ch, of a1] assms(10,13) by (auto simp: live_def)
  have "chain ((lo_heap ?s)(a0 \<mapsto> nd0, a1 \<mapsto> nd1)) ?p nds"
    using ch na by (subst chain_frame [where h = "lo_heap ?s"]) auto
  then show ?thesis
    using reach na assms(12,14)
    by (intro exI [of _ S6]) (auto simp: S6_def S5_def store_head_def s2_def s1_def nd1_def raw_node_def live_def)
qed

lemma lifo_lost_write_witness:
  "\<exists>S'. lifo_reach (sample_api [48, 64] 1000 True) demo_lifo_sys S' \<and>
     ld_fset (lo_dev (ls_io S')) = 4 \<and>
     chain (lo_heap (ls_io S')) (ld_data (lo_dev (ls_io S'))) [(64, 101), (16, 7), (32, 5)]"
proof -
  let ?K = "sample_api [48, 64] 1000 True" and ?h = "lo_heap (ls_io demo_lifo_sys)"
  have m: "48 = kmalloc ?K (live ?h) 16" "64 = kmalloc ?K (\<lambda>p. live ?h p \<or> p = 48) 16"
    by (simp_all add: sample_api_def demo_lifo_sys_def demo_lifo_def live_def)
  have rep: "lifo_rep ?h (lo_dev (ls_io demo_lifo_sys)) [(16, 7), (32, 5)]"
    using demo_lifo_rep by (simp add: demo_lifo_sys_def)
  have u: "user_ok ?K 100 1" "user_ok ?K 101 1" "ls_pc demo_lifo_sys 0 = LIdle" "ls_pc demo_lifo_sys 1 = LIdle"
    by (simp_all add: sample_api_def demo_lifo_sys_def)
  have l: "\<not> live ?h 48" "\<not> live ?h 64" by (simp_all add: live_def demo_lifo_sys_def demo_lifo_def)
  have v: "lo_user (ls_io demo_lifo_sys) 101 = 101" by (simp add: demo_lifo_sys_def demo_lifo_def)
  have n: "int (length [(16 :: ptr, 7 :: byte), (32, 5)]) = 2" "(2 :: int) + 2 < 2 ^ 31" by simp_all
  note run = lifo_lost_write [OF sample_copy_from_ok rep _ u m(1) _ l(1) m(2) _ l(2), unfolded v n(1)]
  have "\<exists>S'. lifo_reach ?K demo_lifo_sys S' \<and> ls_pc S' 0 = LIdle \<and> ls_pc S' 1 = LIdle \<and>
      ld_fset (lo_dev (ls_io S')) = 2 + 2 \<and>
      chain (lo_heap (ls_io S')) (ld_data (lo_dev (ls_io S'))) [(64, 101), (16, 7), (32, 5)] \<and>
      live (lo_heap (ls_io S')) 48 \<and> 48 \<notin> addrs [(64, 101 :: byte), (16, 7), (32, 5)]"
    by (rule run) (simp_all add: n)
  then show ?thesis by auto
qed

end
