(* ===== verification/LifoWriters.thy ===== *)
theory LifoWriters
  imports LifoConc
begin

text \<open>
  What the unlocked LIFO device still guarantees to writers. Here a step is one access to what
  the threads share: the statements of the loop of \<open>lifo_write\<close> one by one, with \<open>dev->fset++\<close>
  as the load and the store it is. While nobody reads or opens the device for writing only, writes of
  any number of threads, interleaved in any order, leave a well-formed list that ends with everything
  it held before. Bytes of other writers can be missing from it, and the counter can be too
  large for it or too small. A thread that nobody overtakes does what \<open>lifo_write\<close> does.
\<close>

section \<open>The statements of a write\<close>

text \<open>The local variables of a call, and where it stands: outside, with the result of its last call; at the
  test of the loop; with a new node, before it is filled, before \<open>dev->fset\<close> is read, before it is
  written back, and before the node is linked to the one the call has below it.\<close>

record wcall =
  wc_buf :: uaddr
  wc_count :: int
  wc_i :: int
  wc_ret :: int
  wc_ptr :: ptr

datatype wpc = WOut int | WTop wcall | WFill wcall ptr | WLoad wcall ptr | WStore wcall ptr int
  | WLink wcall ptr | WCrashed fault

fun write_micro :: "kapi \<Rightarrow> wpc \<times> lifo_io \<Rightarrow> wpc \<times> lifo_io" where
  "write_micro K (WTop c, s) =
     (if \<not> u64 (wc_i c) < wc_count c then (WOut (wc_ret c), store_head (wc_ptr c) s)
      else
        let new = kmalloc K (live (lo_heap s)) sizeof_node in
        if new = NULL then (WFill c NULL, s)
        else if live (lo_heap s) new then (WCrashed OutOfBounds, s)
        else (WFill c new, s\<lparr>lo_heap := (lo_heap s)(new \<mapsto> raw_node K new)\<rparr>))"
| "write_micro K (WFill c new, s) =
     (case kload (lo_heap s) new of Inl f \<Rightarrow> (WCrashed f, s)
      | Inr nd \<Rightarrow>
          let left = fst (copy_from_user K (lo_user s) (wc_buf c + wc_i c) 1);
              bs = snd (copy_from_user K (lo_user s) (wc_buf c + wc_i c) 1);
              s' = s\<lparr>lo_heap := (lo_heap s)(new \<mapsto> nd\<lparr>ln_value := hd bs\<rparr>)\<rparr> in
          if left \<noteq> 0 then (WOut (- EFAULT), s')
          else (WLoad (c\<lparr>wc_ret := s64 (wc_ret c + 1)\<rparr>) new, s'))"
| "write_micro K (WLoad c new, s) = (WStore c new (ld_fset (lo_dev s)), s)"
| "write_micro K (WStore c new v, s) = (WLink c new, s\<lparr>lo_dev := (lo_dev s)\<lparr>ld_fset := s32 (v + 1)\<rparr>\<rparr>)"
| "write_micro K (WLink c new, s) =
     (case kload (lo_heap s) new of Inl f \<Rightarrow> (WCrashed f, s)
      | Inr nd \<Rightarrow> (WTop (c\<lparr>wc_i := s32 (wc_i c + 1), wc_ptr := new\<rparr>),
          s\<lparr>lo_heap := (lo_heap s)(new \<mapsto> nd\<lparr>ln_next := wc_ptr c\<rparr>)\<rparr>))"
| "write_micro K (WOut r, s) = (WOut r, s)"
| "write_micro K (WCrashed f, s) = (WCrashed f, s)"

text \<open>A schedule: which thread enters a write, which one goes on, and when the users' memory changes.\<close>

record lw_sys =
  lw_io :: lifo_io
  lw_pc :: "nat \<Rightarrow> wpc"

datatype lw_event = Enter nat uaddr int | Go nat | UserMem umem

fun lw_do :: "kapi \<Rightarrow> lw_event \<Rightarrow> lw_sys \<Rightarrow> lw_sys" where
  "lw_do K (Enter t buf count) S =
     (case lw_pc S t of
        WOut r \<Rightarrow> S\<lparr>lw_pc := (lw_pc S)(t := WTop \<lparr>wc_buf = buf, wc_count = count, wc_i = 0, wc_ret = 0,
          wc_ptr = ld_data (lo_dev (lw_io S))\<rparr>)\<rparr>
      | _ \<Rightarrow> S)"
| "lw_do K (Go t) S =
     (let (p, s) = write_micro K (lw_pc S t, lw_io S) in S\<lparr>lw_io := s, lw_pc := (lw_pc S)(t := p)\<rparr>)"
| "lw_do K (UserMem um) S = S\<lparr>lw_io := (lw_io S)\<lparr>lo_user := um\<rparr>\<rparr>"

definition lw_run :: "kapi \<Rightarrow> lw_event list \<Rightarrow> lw_sys \<Rightarrow> lw_sys" where
  "lw_run K es S = fold (lw_do K) es S"

section \<open>A thread on its own\<close>

lemma micro_turn:
  assumes "lifo_write_turn K (wc_buf c) (wc_count c) (wc_i c) (wc_ret c) (wc_ptr c) s = Inr (Inr (i', r', p', s'))"
  shows "(write_micro K ^^ 5) (WTop c, s) = (WTop (c\<lparr>wc_i := i', wc_ret := r', wc_ptr := p'\<rparr>), s')"
  using assms
  by (auto simp: lifo_write_turn_def Let_def live_def kload_def numeral_eq_Suc split: if_splits)

lemma micro_turn_done:
  assumes "lifo_write_turn K (wc_buf c) (wc_count c) (wc_i c) (wc_ret c) (wc_ptr c) s = Inr (Inl (ret, s'))"
  shows "\<exists>n. (write_micro K ^^ n) (WTop c, s) = (WOut ret, s')"
proof (cases "u64 (wc_i c) < wc_count c")
  case False
  then have "(write_micro K ^^ 1) (WTop c, s) = (WOut ret, s')" using assms by (simp add: lifo_write_turn_def)
  then show ?thesis by blast
next
  case True
  then have "(write_micro K ^^ 2) (WTop c, s) = (WOut ret, s')" using assms
    by (auto simp: lifo_write_turn_def Let_def live_def kload_def numeral_eq_Suc split: if_splits)
  then show ?thesis by blast
qed

lemma micro_turn_crash:
  assumes "lifo_write_turn K (wc_buf c) (wc_count c) (wc_i c) (wc_ret c) (wc_ptr c) s = Inl f"
  shows "\<exists>n s'. (write_micro K ^^ n) (WTop c, s) = (WCrashed f, s')"
proof (cases "kmalloc K (live (lo_heap s)) 16 = NULL")
  case True
  then have "(write_micro K ^^ 2) (WTop c, s) = (WCrashed f, s)" using assms
    by (auto simp: lifo_write_turn_def Let_def kload_def numeral_eq_Suc split: if_splits)
  then show ?thesis by blast
next
  case False
  then have "(write_micro K ^^ 1) (WTop c, s) = (WCrashed f, s)" using assms
    by (auto simp: lifo_write_turn_def Let_def split: if_splits)
  then show ?thesis by blast
qed

text \<open>The loop of \<open>lifo_write\<close> and the assignment after it, turn by turn.\<close>

definition write_end :: "bool \<times> int \<times> ptr \<times> lifo_io \<Rightarrow> int \<times> lifo_io" where
  "write_end x = (case x of (dn, ret, ptr, s) \<Rightarrow> (ret, if dn then store_head ptr s else s))"

lemma write_loop_turns:
  "map_sum id write_end (lifo_write_loop K buf count i r p s) =
     (case lifo_write_turn K buf count i r p s of Inl f \<Rightarrow> Inl f | Inr (Inl x) \<Rightarrow> Inr x
      | Inr (Inr (i', r', p', s')) \<Rightarrow> map_sum id write_end (lifo_write_loop K buf count i' r' p' s'))"
  by (subst lifo_write_loop.simps) (simp add: lifo_write_turn_def write_end_def Let_def)

fun ends_in :: "kapi \<Rightarrow> wpc \<times> lifo_io \<Rightarrow> (int \<times> lifo_io) res \<Rightarrow> bool" where
  "ends_in K x (Inl f) \<longleftrightarrow> (\<exists>n s'. (write_micro K ^^ n) x = (WCrashed f, s'))"
| "ends_in K x (Inr (ret, s')) \<longleftrightarrow> (\<exists>n. (write_micro K ^^ n) x = (WOut ret, s'))"

lemma ends_in_later:
  assumes "(write_micro K ^^ m) x = y" "ends_in K y r"
  shows "ends_in K x r"
proof -
  have "(write_micro K ^^ (n + m)) x = (write_micro K ^^ n) y" for n
    using assms(1) by (simp add: funpow_add)
  then show ?thesis using assms(2) by (cases "(K, y, r)" rule: ends_in.cases) (auto, metis+)
qed

lemma write_loop_micro:
  "ends_in K (WTop c, s) (map_sum id write_end (lifo_write_loop K (wc_buf c) (wc_count c) (wc_i c) (wc_ret c) (wc_ptr c) s))"
proof (induction "card (- dom (lo_heap s))" arbitrary: c s rule: less_induct)
  case less
  let ?turn = "lifo_write_turn K (wc_buf c) (wc_count c) (wc_i c) (wc_ret c) (wc_ptr c) s"
  show ?case
  proof (cases ?turn)
    case (Inl f)
    then show ?thesis using micro_turn_crash [OF Inl] by (subst write_loop_turns) simp
  next
    case (Inr x)
    show ?thesis
    proof (cases x)
      case (Inl y)
      then obtain ret s' where y: "?turn = Inr (Inl (ret, s'))" using Inr by (cases y) simp
      then show ?thesis using micro_turn_done [OF y] by (subst write_loop_turns) simp
    next
      case r: (Inr y)
      then obtain i' r' p' s' where y: "?turn = Inr (Inr (i', r', p', s'))" using Inr by (cases y) simp
      let ?c = "c\<lparr>wc_i := i', wc_ret := r', wc_ptr := p'\<rparr>"
      have "card (- dom (lo_heap s')) < card (- dom (lo_heap s))"
        using y by (auto simp: lifo_write_turn_def Let_def live_def intro: fresh_card split: if_splits)
      from less.hyps [OF this, of ?c]
      have "ends_in K (WTop ?c, s') (map_sum id write_end (lifo_write_loop K (wc_buf c) (wc_count c) i' r' p' s'))" by simp
      from ends_in_later [OF micro_turn [OF y] this] show ?thesis by (subst write_loop_turns) (simp add: y)
    qed
  qed
qed

lemma lifo_write_micro:
  "ends_in K (WTop \<lparr>wc_buf = buf, wc_count = count, wc_i = 0, wc_ret = 0, wc_ptr = ld_data (lo_dev s)\<rparr>, s)
     (lifo_write K buf count s)"
proof -
  have "lifo_write K buf count s = map_sum id write_end (lifo_write_loop K buf count 0 0 (ld_data (lo_dev s)) s)"
    by (cases "lifo_write_loop K buf count 0 0 (ld_data (lo_dev s)) s")
      (auto simp: lifo_write_def write_end_def store_head_def)
  then show ?thesis
    using write_loop_micro [of K "\<lparr>wc_buf = buf, wc_count = count, wc_i = 0, wc_ret = 0, wc_ptr = ld_data (lo_dev s)\<rparr>" s]
    by simp
qed

lemma lw_run_go:
  "lw_pc (lw_run K (replicate n (Go t)) S) t = fst ((write_micro K ^^ n) (lw_pc S t, lw_io S)) \<and>
   lw_io (lw_run K (replicate n (Go t)) S) = snd ((write_micro K ^^ n) (lw_pc S t, lw_io S))"
proof (induction n arbitrary: S)
  case (Suc n)
  then show ?case by (simp add: lw_run_def split_beta funpow_swap1)
qed (simp add: lw_run_def)

text \<open>A write that nobody overtakes is the sequential operation.\<close>

lemma lifo_write_alone:
  assumes "lw_pc S t = WOut r" "lifo_write K buf count (lw_io S) = Inr (ret, s')"
  shows "\<exists>n. lw_pc (lw_run K (Enter t buf count # replicate n (Go t)) S) t = WOut ret \<and>
    lw_io (lw_run K (Enter t buf count # replicate n (Go t)) S) = s'"
proof -
  let ?c = "\<lparr>wc_buf = buf, wc_count = count, wc_i = 0, wc_ret = 0, wc_ptr = ld_data (lo_dev (lw_io S))\<rparr>"
  obtain n where n: "(write_micro K ^^ n) (WTop ?c, lw_io S) = (WOut ret, s')"
    using lifo_write_micro [of K buf count "lw_io S"] unfolding assms(2) by auto
  have "lw_run K (Enter t buf count # replicate n (Go t)) S =
      lw_run K (replicate n (Go t)) (S\<lparr>lw_pc := (lw_pc S)(t := WTop ?c)\<rparr>)"
    using assms(1) by (simp add: lw_run_def)
  then show ?thesis
    using lw_run_go [of K n t "S\<lparr>lw_pc := (lw_pc S)(t := WTop ?c)\<rparr>"] n by (intro exI [of _ n]) simp
qed

section \<open>Lists and new nodes\<close>

lemma chain_unique: "chain h p xs \<Longrightarrow> chain h p ys \<Longrightarrow> xs = ys"
proof (induction h p xs arbitrary: ys rule: chain.induct)
  case (1 h p)
  then show ?case by (cases ys) auto
next
  case (2 h p a v nds)
  then show ?case by (cases ys) auto
qed

lemma chain_suffix: "chain h p (xs @ (a, v) # ys) \<Longrightarrow> chain h a ((a, v) # ys)"
  by (induction h p xs rule: chain.induct) auto

lemma chain_distinct: "chain h p nds \<Longrightarrow> distinct (map fst nds)"
proof (induction h p nds rule: chain.induct)
  case (2 h p a v nds)
  have "a \<notin> addrs nds"
  proof
    assume "a \<in> addrs nds"
    then obtain v' xs ys where "nds = xs @ (a, v') # ys" by (auto simp: addrs_def dest: split_list)
    then have "chain h a ((a, v') # ys)" using "2.prems" chain_suffix [of h p "(a, v) # xs" a v' ys] by simp
    then have "(a, v') # ys = (a, v) # nds" using chain_unique "2.prems" by fastforce
    then have "length nds = length ys" by simp
    then show False using \<open>nds = _\<close> by simp
  qed
  then show ?case using "2" by (auto simp: addrs_def)
qed simp

text \<open>The node a thread has not linked yet, and the top of the list it works on.\<close>

fun pc_new :: "wpc \<Rightarrow> ptr option" where
  "pc_new (WFill c new) = (if new = NULL then None else Some new)"
| "pc_new (WLoad c new) = Some new"
| "pc_new (WStore c new v) = Some new"
| "pc_new (WLink c new) = Some new"
| "pc_new _ = None"

fun pc_top :: "wpc \<Rightarrow> ptr option" where
  "pc_top (WTop c) = Some (wc_ptr c)"
| "pc_top (WFill c new) = Some (wc_ptr c)"
| "pc_top (WLoad c new) = Some (wc_ptr c)"
| "pc_top (WStore c new v) = Some (wc_ptr c)"
| "pc_top (WLink c new) = Some (wc_ptr c)"
| "pc_top _ = None"

definition news :: "lw_sys \<Rightarrow> ptr set" where
  "news S = {b. \<exists>t. pc_new (lw_pc S t) = Some b}"

text \<open>A list that ends with \<open>nds\<close> and has none of the nodes in \<open>P\<close>.\<close>

definition grown :: "lifo_heap \<Rightarrow> (ptr \<times> byte) list \<Rightarrow> ptr set \<Rightarrow> ptr \<Rightarrow> bool" where
  "grown h nds P p \<longleftrightarrow> (\<exists>ms. chain h p (ms @ nds) \<and> addrs (ms @ nds) \<inter> P = {})"

definition write_inv :: "lifo_heap \<Rightarrow> (ptr \<times> byte) list \<Rightarrow> lw_sys \<Rightarrow> bool" where
  "write_inv h0 nds S \<longleftrightarrow> h0 \<subseteq>\<^sub>m lo_heap (lw_io S) \<and>
     (\<forall>b \<in> news S. b \<noteq> NULL \<and> lo_heap (lw_io S) b \<noteq> None \<and> h0 b = None) \<and>
     (\<forall>t u b. pc_new (lw_pc S t) = Some b \<longrightarrow> pc_new (lw_pc S u) = Some b \<longrightarrow> t = u) \<and>
     grown (lo_heap (lw_io S)) nds (news S) (ld_data (lo_dev (lw_io S))) \<and>
     (\<forall>t p. pc_top (lw_pc S t) = Some p \<longrightarrow> grown (lo_heap (lw_io S)) nds (news S) p) \<and>
     (\<forall>t f. lw_pc S t = WCrashed f \<longrightarrow> f = NullDeref)"

lemma grown_mono:
  assumes "grown h nds P p" "\<And>a. a \<notin> P \<Longrightarrow> h a \<noteq> None \<Longrightarrow> h' a = h a"
    and "\<And>a. a \<in> P' \<Longrightarrow> a \<in> P \<or> h a = None"
  shows "grown h' nds P' p"
proof -
  obtain ms where ms: "chain h p (ms @ nds)" "addrs (ms @ nds) \<inter> P = {}" using assms(1) by (auto simp: grown_def)
  have live: "h a \<noteq> None" if "a \<in> addrs (ms @ nds)" for a using chain_live [OF ms(1) that] by simp
  have "h' a = h a" if "a \<in> addrs (ms @ nds)" for a using assms(2) live [OF that] ms(2) that by blast
  then have "chain h' p (ms @ nds)" using ms(1) chain_frame by metis
  moreover have "addrs (ms @ nds) \<inter> P' = {}" using assms(3) live ms(2) by blast
  ultimately show ?thesis unfolding grown_def by blast
qed

lemma grown_link:
  assumes "grown h nds P p" "b \<in> P" "b \<noteq> NULL" "h b = Some nd"
  shows "grown (h(b \<mapsto> nd\<lparr>ln_next := p\<rparr>)) nds (P - {b}) b"
proof -
  obtain ms where ms: "chain h p (ms @ nds)" "addrs (ms @ nds) \<inter> P = {}" using assms(1) by (auto simp: grown_def)
  have "chain (h(b \<mapsto> nd\<lparr>ln_next := p\<rparr>)) p (ms @ nds)"
    by (subst chain_frame [where h = h]) (use ms assms(2) in auto)
  then have "chain (h(b \<mapsto> nd\<lparr>ln_next := p\<rparr>)) b (((b, ln_value nd) # ms) @ nds)"
    using assms(3) by (cases nd) simp
  moreover have "addrs (((b, ln_value nd) # ms) @ nds) \<inter> (P - {b}) = {}" using ms(2) by auto
  ultimately show ?thesis unfolding grown_def by blast
qed

text \<open>A thread may change its new node or allocate one, store the head of its list, and link its new node.\<close>

lemma write_inv_moved:
  fixes S t p s'
  defines "S' \<equiv> S\<lparr>lw_io := s', lw_pc := (lw_pc S)(t := p)\<rparr>"
  assumes inv: "write_inv h0 nds S"
    and heap: "\<And>a. lo_heap s' a = lo_heap (lw_io S) a \<or>
      lo_heap s' a \<noteq> None \<and> (lo_heap (lw_io S) a = None \<or> pc_new (lw_pc S t) = Some a)"
    and new: "\<And>b. pc_new p = Some b \<Longrightarrow>
      pc_new (lw_pc S t) = Some b \<or> lo_heap (lw_io S) b = None \<and> b \<noteq> NULL \<and> lo_heap s' b \<noteq> None"
    and head: "ld_data (lo_dev s') = ld_data (lo_dev (lw_io S)) \<or> pc_top (lw_pc S t) = Some (ld_data (lo_dev s'))"
    and top: "\<And>q. pc_top p = Some q \<Longrightarrow>
      q = ld_data (lo_dev (lw_io S)) \<or> pc_top (lw_pc S t) = Some q \<or> grown (lo_heap s') nds (news S') q"
    and crash: "\<And>f. p = WCrashed f \<Longrightarrow> f = NullDeref"
  shows "write_inv h0 nds S'"
proof -
  let ?h = "lo_heap (lw_io S)"
  have S': "lw_io S' = s'" "lw_pc S' u = (if u = t then p else lw_pc S u)" for u by (simp_all add: S'_def)
  have h0: "h0 \<subseteq>\<^sub>m ?h" and old: "\<And>b. b \<in> news S \<Longrightarrow> b \<noteq> NULL \<and> ?h b \<noteq> None \<and> h0 b = None"
    and one: "\<And>u v b. pc_new (lw_pc S u) = Some b \<Longrightarrow> pc_new (lw_pc S v) = Some b \<Longrightarrow> u = v"
    using inv by (simp_all add: write_inv_def)
  have frame: "lo_heap s' a = ?h a" if "a \<notin> news S" "?h a \<noteq> None" for a
    using heap [of a] that by (auto simp: news_def)
  have fresh: "h0 a = None" if "?h a = None" for a using h0 that by (metis domIff map_le_def)
  have case_new: "b \<in> news S \<or> ?h b = None \<and> b \<noteq> NULL \<and> lo_heap s' b \<noteq> None" if b: "b \<in> news S'" for b
    using b new by (fastforce simp: news_def S' split: if_splits)
  have sub: "b \<in> news S \<or> ?h b = None" if "b \<in> news S'" for b using case_new [OF that] by metis
  have grows: "grown (lo_heap s') nds (news S') q" if "grown ?h nds (news S) q" for q
    by (rule grown_mono [OF that frame sub])
  have tops: "pc_top (lw_pc S u) = Some q \<Longrightarrow> grown ?h nds (news S) q" for u q using inv by (simp add: write_inv_def)
  have dat: "grown ?h nds (news S) (ld_data (lo_dev (lw_io S)))" using inv by (simp add: write_inv_def)
  have "h0 a = lo_heap s' a" if "a \<in> dom h0" for a
  proof -
    have "h0 a = ?h a" "?h a \<noteq> None" using h0 that by (metis domIff map_le_def)+
    moreover have "a \<notin> news S" using old [of a] that by auto
    ultimately show ?thesis using frame [of a] by metis
  qed
  then have "h0 \<subseteq>\<^sub>m lo_heap s'" by (simp add: map_le_def)
  moreover have "b \<noteq> NULL \<and> lo_heap s' b \<noteq> None \<and> h0 b = None" if "b \<in> news S'" for b
    using case_new [OF that] old [of b] heap [of b] fresh [of b] by metis
  moreover have "u = v" if "pc_new (lw_pc S' u) = Some b" "pc_new (lw_pc S' v) = Some b" for u v b
  proof -
    have live: "?h b \<noteq> None" if "pc_new (lw_pc S w) = Some b" for w using old [of b] that by (auto simp: news_def)
    then show ?thesis using that one [of _ b] new [of b] by (metis S'(2))
  qed
  moreover have "grown (lo_heap s') nds (news S') (ld_data (lo_dev s'))"
    using head tops dat grows by metis
  moreover have "grown (lo_heap s') nds (news S') q" if "pc_top (lw_pc S' u) = Some q" for u q
    using that top [of q] tops dat grows by (metis S'(2))
  moreover have "f = NullDeref" if "lw_pc S' u = WCrashed f" for u f
    using that crash inv unfolding write_inv_def by (metis S'(2))
  ultimately show ?thesis unfolding write_inv_def S'(1) by blast
qed

lemma write_inv_go:
  assumes K: "kmalloc_ok K" and inv: "write_inv h0 nds S"
  shows "write_inv h0 nds (lw_do K (Go t) S)"
proof -
  let ?s = "lw_io S"
  obtain p s' where m: "write_micro K (lw_pc S t, ?s) = (p, s')" by fastforce
  have S': "lw_do K (Go t) S = S\<lparr>lw_io := s', lw_pc := (lw_pc S)(t := p)\<rparr>" using m by simp
  have old: "b \<noteq> NULL \<and> lo_heap ?s b \<noteq> None" if "pc_new (lw_pc S t) = Some b" for b
    using inv that unfolding write_inv_def news_def by blast
  have loads: "kload (lo_heap ?s) b = Inr (the (lo_heap ?s b))" if "pc_new (lw_pc S t) = Some b" for b
    using old [OF that] by (auto simp: kload_def)
  show ?thesis
  proof (cases "lw_pc S t")
    case (WOut r)
    then show ?thesis unfolding S' using m by (intro write_inv_moved [OF inv]) auto
  next
    case (WCrashed f)
    then have "f = NullDeref" using inv unfolding write_inv_def by blast
    then show ?thesis unfolding S' using m WCrashed by (intro write_inv_moved [OF inv]) auto
  next
    case (WTop c)
    then show ?thesis
      unfolding S' using m kmalloc_fresh [OF K, of "lo_heap ?s" 16]
      by (intro write_inv_moved [OF inv]) (auto simp: store_head_def Let_def live_def split: if_splits)
  next
    case (WFill c new)
    show ?thesis
    proof (cases "new = NULL")
      case True
      then show ?thesis
        unfolding S' using m WFill by (intro write_inv_moved [OF inv]) (auto simp: kload_def)
    next
      case False
      then show ?thesis
        unfolding S' using m WFill loads
        by (intro write_inv_moved [OF inv]) (auto simp: Let_def split: if_splits)
    qed
  next
    case (WLoad c new)
    then show ?thesis unfolding S' using m by (intro write_inv_moved [OF inv]) auto
  next
    case (WStore c new v)
    then show ?thesis unfolding S' using m by (intro write_inv_moved [OF inv]) auto
  next
    case (WLink c new)
    define S1 where "S1 = S\<lparr>lw_io := s', lw_pc := (lw_pc S)(t := p)\<rparr>"
    obtain nd where nd: "lo_heap ?s new = Some nd" "new \<noteq> NULL" using old WLink by auto
    have p: "p = WTop (c\<lparr>wc_i := s32 (wc_i c + 1), wc_ptr := new\<rparr>)"
      and s': "s' = ?s\<lparr>lo_heap := (lo_heap ?s)(new \<mapsto> nd\<lparr>ln_next := wc_ptr c\<rparr>)\<rparr>"
      using m WLink nd by (auto simp: kload_def)
    have b: "new \<in> news S" using WLink by (auto simp: news_def intro: exI [of _ t])
    have one: "u = t" if "pc_new (lw_pc S u) = Some new" for u
      using inv that WLink unfolding write_inv_def by (metis pc_new.simps(4))
    have "grown (lo_heap ?s) nds (news S) (wc_ptr c)"
      using inv WLink unfolding write_inv_def by (metis pc_top.simps(5))
    then have "grown (lo_heap s') nds (news S - {new}) new"
      using grown_link [where h = "lo_heap ?s" and nds = nds and p = "wc_ptr c", OF _ b nd(2,1)] by (simp add: s')
    moreover have "news S1 \<subseteq> news S - {new}"
      using one by (auto simp: S1_def news_def p split: if_splits)
    ultimately have "grown (lo_heap s') nds (news S1) new" unfolding grown_def by blast
    then show ?thesis
      unfolding S' using nd WLink p s' by (intro write_inv_moved [OF inv]) (auto simp: S1_def)
  qed
qed

lemma write_inv_do:
  assumes K: "kmalloc_ok K" and inv: "write_inv h0 nds S"
  shows "write_inv h0 nds (lw_do K e S)"
proof (cases e)
  case (Enter t buf count)
  show ?thesis
  proof (cases "lw_pc S t")
    case (WOut r)
    let ?p = "WTop \<lparr>wc_buf = buf, wc_count = count, wc_i = 0, wc_ret = 0, wc_ptr = ld_data (lo_dev (lw_io S))\<rparr>"
    have "write_inv h0 nds (S\<lparr>lw_io := lw_io S, lw_pc := (lw_pc S)(t := ?p)\<rparr>)"
      by (rule write_inv_moved [OF inv]) auto
    then show ?thesis using Enter WOut by simp
  qed (use Enter inv in simp_all)
next
  case (Go t)
  then show ?thesis using write_inv_go [OF K inv] by simp
next
  case (UserMem um)
  then show ?thesis using inv by (simp add: write_inv_def news_def)
qed

lemma write_inv_run: "kmalloc_ok K \<Longrightarrow> write_inv h0 nds S \<Longrightarrow> write_inv h0 nds (lw_run K es S)"
  by (induction es arbitrary: S) (simp_all add: lw_run_def write_inv_do)

section \<open>Properties\<close>

definition demo_lw :: lw_sys where
  "demo_lw = \<lparr>lw_io = demo_lifo, lw_pc = (\<lambda>t. WOut 0)\<rparr>"

text \<open>C21: Writers alone cannot break the list of the unlocked LIFO device. Take a device with a well-formed
  list and nobody inside, and any schedule of writes of any number of threads, one access to
  shared memory at a time, with \<open>dev->fset++\<close> a load and a store and the users' memory changing at any
  moment. After it the list is well formed and ends with all the device held at the start, in
  order; no node that was there at the start is freed or changed; and no thread has faulted but
  by using the \<open>NULL\<close> of a failed allocation. (Of the counter nothing is promised: see
  \<open>fset_loses_increments\<close>.)\<close>

theorem lifo_writers_safe:
  assumes "kmalloc_ok K" "chain (lo_heap (lw_io S0)) (ld_data (lo_dev (lw_io S0))) nds"
    and "\<And>t. \<exists>r. lw_pc S0 t = WOut r" and "S = lw_run K es S0"
  shows "(\<exists>ms. chain (lo_heap (lw_io S)) (ld_data (lo_dev (lw_io S))) (ms @ nds) \<and> distinct (map fst (ms @ nds))) \<and>
    lo_heap (lw_io S0) \<subseteq>\<^sub>m lo_heap (lw_io S) \<and> (\<forall>t f. lw_pc S t = WCrashed f \<longrightarrow> f = NullDeref)"
proof -
  have out: "pc_new (lw_pc S0 t) = None" "pc_top (lw_pc S0 t) = None" "lw_pc S0 t \<noteq> WCrashed f" for t f
    using assms(3) [of t] by auto
  have "grown (lo_heap (lw_io S0)) nds {} (ld_data (lo_dev (lw_io S0)))"
    using assms(2) unfolding grown_def by (intro exI [of _ "[]"]) simp
  then have "write_inv (lo_heap (lw_io S0)) nds S0" by (simp add: write_inv_def news_def out)
  then have inv: "write_inv (lo_heap (lw_io S0)) nds S" using write_inv_run [OF assms(1)] assms(4) by simp
  then obtain ms where "chain (lo_heap (lw_io S)) (ld_data (lo_dev (lw_io S))) (ms @ nds)"
    by (auto simp: write_inv_def grown_def)
  then show ?thesis using inv chain_distinct unfolding write_inv_def by blast
qed

text \<open>Two threads are inside; the second has returned, the first has filled its node and read the counter.\<close>

definition demo_writes :: "lw_event list" where
  "demo_writes = [Enter 0 100 2, Go 0, Go 0, Enter 1 101 1, Go 1, Go 1, Go 0] @ replicate 4 (Go 1)"

lemma lifo_writers_safe_witness:
  "let S = lw_run (sample_api [48, 64] 1000 True) demo_writes demo_lw in
    ld_data (lo_dev (lw_io S)) = 64 \<and> lw_pc S 1 = WOut 1 \<and>
    (\<exists>ms. chain (lo_heap (lw_io S)) 64 (ms @ [(16, 7), (32, 5)]) \<and> distinct (map fst (ms @ [(16, 7), (32, 5)])))"
proof -
  let ?S = "lw_run (sample_api [48, 64] 1000 True) demo_writes demo_lw"
  have e: "ld_data (lo_dev (lw_io ?S)) = 64" "lw_pc ?S 1 = WOut 1" by code_simp+
  have c: "chain (lo_heap (lw_io demo_lw)) (ld_data (lo_dev (lw_io demo_lw))) [(16, 7), (32, 5)]"
    using demo_lifo_rep by (simp add: demo_lw_def lifo_rep_def)
  have "\<exists>r. lw_pc demo_lw t = WOut r" for t by (simp add: demo_lw_def)
  from lifo_writers_safe [OF sample_kmalloc_ok c this refl, of "[48, 64]" 1000 True demo_writes]
  show ?thesis using e by (simp add: Let_def)
qed

text \<open>The counter can fall behind the list. Two writes of three bytes to an empty device: the first
  thread reads the counter, the second writes two bytes, the first writes back 1 and, while the second
  has read that 1, goes on to its end; then the second writes back 2 and ends. Both
  return 3, the list holds the three bytes of the second, the counter says 2.\<close>

definition empty_lw :: lw_sys where
  "empty_lw = \<lparr>lw_io = \<lparr>lo_heap = Map.empty, lo_dev = \<lparr>ld_data = NULL, ld_fset = 0\<rparr>, lo_user = (\<lambda>a. word_of_int a)\<rparr>,
     lw_pc = (\<lambda>t. WOut 0)\<rparr>"

definition lost_writes :: "lw_event list" where
  "lost_writes = [Enter 0 100 3, Enter 1 200 3] @ replicate 3 (Go 0) @ replicate 10 (Go 1) @ replicate 2 (Go 0) @
     replicate 3 (Go 1) @ replicate 11 (Go 0) @ replicate 3 (Go 1)"

lemma fset_loses_increments:
  defines "S \<equiv> lw_run (sample_api [16, 32, 48, 64, 80, 96] 1000 True) lost_writes empty_lw"
  shows "lw_pc S 0 = WOut 3 \<and> lw_pc S 1 = WOut 3 \<and> ld_fset (lo_dev (lw_io S)) = 2 \<and>
    chain (lo_heap (lw_io S)) (ld_data (lo_dev (lw_io S))) [(64, 202), (48, 201), (32, 200)]"
proof -
  have "lw_pc S 0 = WOut 3" "lw_pc S 1 = WOut 3" "ld_fset (lo_dev (lw_io S)) = 2" "ld_data (lo_dev (lw_io S)) = 64"
    unfolding S_def by code_simp+
  moreover have "lo_heap (lw_io S) 64 = Some \<lparr>ln_next = 48, ln_value = 202\<rparr>"
    "lo_heap (lw_io S) 48 = Some \<lparr>ln_next = 32, ln_value = 201\<rparr>" "lo_heap (lw_io S) 32 = Some \<lparr>ln_next = 0, ln_value = 200\<rparr>"
    unfolding S_def by code_simp+
  ultimately show ?thesis by simp
qed

end
