(* ===== verification/LifoSession.thy ===== *)
theory LifoSession
  imports DriverModules
begin

text \<open>
  The LIFO device over sequences of calls: the file operations table, sessions of any length,
  and the abstract machine they implement, a stack of bytes with a user memory. The session
  theorems need the user's buffers to be accessible, the allocator to have room, and no
  write-only open of a non-empty device; what happens without these is in \<open>LifoProps\<close>.
\<close>

section \<open>Calls\<close>

record lifo_file_operations =
  lfo_read :: "uaddr \<Rightarrow> int \<Rightarrow> int \<Rightarrow> lifo_io \<Rightarrow> (int \<times> lifo_io) res"
  lfo_write :: "uaddr \<Rightarrow> int \<Rightarrow> lifo_io \<Rightarrow> (int \<times> lifo_io) res"
  lfo_open :: "32 word \<Rightarrow> lifo_heap \<Rightarrow> lifo_dev \<Rightarrow> (int \<times> lifo_heap \<times> lifo_dev) res"
  lfo_release :: "lifo_dev \<Rightarrow> int \<times> lifo_dev"

definition lifo_fops :: "kapi \<Rightarrow> lifo_file_operations" where
  "lifo_fops K = \<lparr>lfo_read = lifo_read K, lfo_write = lifo_write K, lfo_open = lifo_open, lfo_release = lifo_release\<rparr>"

datatype lcall = LOpen "32 word" | LRelease | LRead uaddr int int | LWrite uaddr int

fun lifo_call :: "kapi \<Rightarrow> lcall \<Rightarrow> lifo_io \<Rightarrow> (int \<times> lifo_io) res" where
  "lifo_call K (LOpen flags) s =
     kbind (lfo_open (lifo_fops K) flags (lo_heap s) (lo_dev s)) (\<lambda>(r, h, dev).
       Inr (r, s\<lparr>lo_heap := h, lo_dev := dev\<rparr>))"
| "lifo_call K LRelease s = (let (r, dev) = lfo_release (lifo_fops K) (lo_dev s) in Inr (r, s\<lparr>lo_dev := dev\<rparr>))"
| "lifo_call K (LRead buf count f_pos) s = lfo_read (lifo_fops K) buf count f_pos s"
| "lifo_call K (LWrite buf count) s = lfo_write (lifo_fops K) buf count s"

fun lifo_session :: "kapi \<Rightarrow> lcall list \<Rightarrow> lifo_io \<Rightarrow> (int list \<times> lifo_io) res" where
  "lifo_session K [] s = Inr ([], s)"
| "lifo_session K (c # cs) s =
     kbind (lifo_call K c s) (\<lambda>(r, s1). kbind (lifo_session K cs s1) (\<lambda>(rs, s2). Inr (r # rs, s2)))"

section \<open>The abstract machine\<close>

type_synonym stack_machine = "byte list \<times> umem"

fun stack_call :: "lcall \<Rightarrow> stack_machine \<Rightarrow> int \<times> stack_machine" where
  "stack_call (LOpen flags) (bs, um) = (0, bs, um)"
| "stack_call LRelease (bs, um) = (0, bs, um)"
| "stack_call (LRead buf count f_pos) (bs, um) =
     (if f_pos \<noteq> 0 then (- EINVAL, bs, um)
      else (int (min (nat count) (length bs)), drop (nat count) bs, um_write um buf (take (nat count) bs)))"
| "stack_call (LWrite buf count) (bs, um) = (count, rev (um_read um buf (nat count)) @ bs, um)"

fun stack_session :: "lcall list \<Rightarrow> stack_machine \<Rightarrow> int list \<times> stack_machine" where
  "stack_session [] m = ([], m)"
| "stack_session (c # cs) m = (let (r, m1) = stack_call c m; (rs, m2) = stack_session cs m1 in (r # rs, m2))"

text \<open>What the calls need, on the abstract machine: \<open>others\<close> objects are live besides the nodes.\<close>

fun lcall_ok :: "kapi \<Rightarrow> nat \<Rightarrow> lcall \<Rightarrow> byte list \<Rightarrow> bool" where
  "lcall_ok K others (LOpen flags) bs \<longleftrightarrow> (and flags 3 = 1 \<longrightarrow> bs = [])"
| "lcall_ok K others LRelease bs \<longleftrightarrow> True"
| "lcall_ok K others (LRead buf count f_pos) bs \<longleftrightarrow> 0 \<le> count \<and> bytes_ok K buf (min (nat count) (length bs))"
| "lcall_ok K others (LWrite buf count) bs \<longleftrightarrow> 0 \<le> count \<and> int (length bs) + count < 2 ^ 31 \<and>
     bytes_ok K buf (nat count) \<and> kmalloc_gives K sizeof_node (others + length bs + nat count)"

fun lsession_ok :: "kapi \<Rightarrow> nat \<Rightarrow> lcall list \<Rightarrow> stack_machine \<Rightarrow> bool" where
  "lsession_ok K others [] m \<longleftrightarrow> True"
| "lsession_ok K others (c # cs) m \<longleftrightarrow> lcall_ok K others c (fst m) \<and> lsession_ok K others cs (snd (stack_call c m))"

section \<open>Refinement\<close>

text \<open>A driver state implements an abstract one; \<open>h0\<close> holds the objects of everybody else.\<close>

definition implements :: "lifo_heap \<Rightarrow> lifo_io \<Rightarrow> stack_machine \<Rightarrow> bool" where
  "implements h0 s m \<longleftrightarrow> (\<exists>nds. lifo_rep (lo_heap s) (lo_dev s) nds \<and> m = (map snd nds, lo_user s) \<and>
     freed (lo_heap s) (addrs nds) = h0 \<and> (\<forall>a \<in> addrs nds. h0 a = None))"

lemma implements_dom:
  assumes "lifo_rep (lo_heap s) (lo_dev s) nds" "freed (lo_heap s) (addrs nds) = h0" "\<forall>a \<in> addrs nds. h0 a = None"
  shows "card (dom (lo_heap s)) = card (dom h0) + length nds"
proof -
  have "lo_heap s a \<noteq> None" if "a \<in> addrs nds" for a
    using assms(1) that chain_live by (auto simp: lifo_rep_def)
  then have "dom (lo_heap s) = dom h0 \<union> addrs nds"
    unfolding assms(2) [symmetric] by (auto simp: freed_apply split: if_splits)
  moreover have "dom h0 \<inter> addrs nds = {}" using assms(3) by auto
  moreover have "card (addrs nds) = length nds"
    using assms(1) by (auto simp: lifo_rep_def addrs_def distinct_card simp flip: set_map)
  ultimately show ?thesis by (simp add: card_Un_disjoint addrs_def)
qed

lemma lifo_call_refines:
  assumes K: "kapi_ok K" and im: "implements h0 s m" and ok: "lcall_ok K (card (dom h0)) c (fst m)"
  shows "\<exists>s'. lifo_call K c s = Inr (fst (stack_call c m), s') \<and> implements h0 s' (snd (stack_call c m))"
proof -
  obtain nds where rep: "lifo_rep (lo_heap s) (lo_dev s) nds" and m: "m = (map snd nds, lo_user s)"
    and own: "freed (lo_heap s) (addrs nds) = h0" "\<forall>a \<in> addrs nds. h0 a = None"
    using im by (auto simp: implements_def)
  show ?thesis
  proof (cases c)
    case (LOpen flags)
    show ?thesis
    proof (cases "and flags 3 = 1")
      case True
      then have "nds = []" using LOpen ok m by simp
      then have "lifo_open flags (lo_heap s) (lo_dev s) = Inr (0, lo_heap s, lo_dev s)"
        using rep True lifo_trim_loop_frees [of "lo_heap s" "ld_data (lo_dev s)" "[]"]
        by (cases "lo_dev s") (simp add: lifo_open_def lifo_trim_def lifo_rep_def)
      then show ?thesis using LOpen im m by (simp add: lifo_fops_def)
    next
      case False
      then show ?thesis using LOpen im m by (simp add: lifo_fops_def lifo_open_def)
    qed
  next
    case LRelease
    then show ?thesis using im m by (simp add: lifo_fops_def lifo_release_def)
  next
    case (LRead buf count f_pos)
    show ?thesis
    proof (cases "f_pos = 0")
      case False
      then show ?thesis using LRead im m by (simp add: lifo_fops_def lifo_read_def)
    next
      case True
      obtain s' where rd: "lifo_read K buf count 0 s = Inr (int (min (nat count) (length nds)), s')"
        and st: "lo_user s' = um_write (lo_user s) buf (map snd (take (nat count) nds))"
          "lo_heap s' = freed (lo_heap s) (addrs (take (nat count) nds))"
          "lifo_rep (lo_heap s') (lo_dev s') (drop (nat count) nds)"
        using lifo_pops [OF _ rep, of K count buf] K LRead ok m by (auto simp: kapi_ok_def)
      have sub: "addrs (take (nat count) nds) \<union> addrs (drop (nat count) nds) = addrs nds"
        by (simp flip: addrs_simps(3))
      then have "implements h0 s' (drop (nat count) (map snd nds), lo_user s')"
        unfolding implements_def using st own by (intro exI [of _ "drop (nat count) nds"]) (auto simp: drop_map)
      then show ?thesis using LRead True rd st(1) m by (simp add: lifo_fops_def take_map)
    qed
  next
    case (LWrite buf count)
    have "card (dom (lo_heap s)) = card (dom h0) + length nds" by (rule implements_dom [OF rep own])
    then have room: "kmalloc_gives K sizeof_node (card (dom (lo_heap s)) + nat count)"
      and c: "0 \<le> count" "int (length nds) + count < 2 ^ 31" "bytes_ok K buf (nat count)"
      using LWrite ok m by simp_all
    obtain s' new where wr: "lifo_write K buf count s = Inr (count, s')" "lo_user s' = lo_user s"
      and rep': "lifo_rep (lo_heap s') (lo_dev s') (new @ nds)"
      and new: "map snd new = rev (um_read (lo_user s) buf (nat count))"
        "\<forall>a \<in> addrs new. lo_heap s a = None" "\<forall>x. x \<notin> addrs new \<longrightarrow> lo_heap s' x = lo_heap s x"
      using lifo_pushes [OF _ _ rep c] K room by (auto simp: kapi_ok_def)
    have "freed (lo_heap s') (addrs (new @ nds)) = h0" "\<forall>a \<in> addrs (new @ nds). h0 a = None"
      unfolding own(1) [symmetric] using new(2,3) by (auto simp: freed_def fun_eq_iff)
    then have "implements h0 s' (map snd (new @ nds), lo_user s')"
      unfolding implements_def using rep' by blast
    then show ?thesis using LWrite wr new(1) m by (simp add: lifo_fops_def)
  qed
qed

lemma lifo_session_runs:
  assumes K: "kapi_ok K"
  shows "implements h0 s m \<Longrightarrow> lsession_ok K (card (dom h0)) cs m \<Longrightarrow>
    \<exists>s'. lifo_session K cs s = Inr (fst (stack_session cs m), s') \<and> implements h0 s' (snd (stack_session cs m))"
proof (induction cs arbitrary: s m)
  case (Cons c cs)
  obtain s1 where c: "lifo_call K c s = Inr (fst (stack_call c m), s1)" "implements h0 s1 (snd (stack_call c m))"
    using lifo_call_refines [OF K Cons.prems(1)] Cons.prems(2) by auto
  obtain s2 where "lifo_session K cs s1 = Inr (fst (stack_session cs (snd (stack_call c m))), s2)"
      "implements h0 s2 (snd (stack_session cs (snd (stack_call c m))))"
    using Cons.IH [OF c(2)] Cons.prems(2) by auto
  then show ?case using c(1) by (simp add: case_prod_beta)
qed auto

text \<open>C6: The LIFO driver implements a stack of bytes over whole sessions: whatever sequence of opens,
  closes, reads and writes is made on a well-formed device (with accessible buffers, room for
  the nodes, and no write-only open of a non-empty device), the driver returns from every call
  with exactly the value the abstract stack returns, leaves in user memory exactly what the
  stack delivers and on the device exactly what is on the stack, and the rest of the store is
  what it was: no node is leaked or lost.\<close>

theorem lifo_session_refines_stack:
  assumes "kapi_ok K" "lifo_rep (lo_heap s) (lo_dev s) nds" "h0 = freed (lo_heap s) (addrs nds)"
    and "lsession_ok K (card (dom h0)) cs (map snd nds, lo_user s)"
    and "stack_session cs (map snd nds, lo_user s) = (rs, bs, um)"
  shows "\<exists>s' nds'. lifo_session K cs s = Inr (rs, s') \<and> lo_user s' = um \<and>
    lifo_rep (lo_heap s') (lo_dev s') nds' \<and> map snd nds' = bs \<and> freed (lo_heap s') (addrs nds') = h0"
proof -
  have "implements h0 s (map snd nds, lo_user s)"
    unfolding implements_def using assms(2,3) by (auto simp: freed_apply)
  from lifo_session_runs [OF assms(1) this assms(4)] show ?thesis
    unfolding assms(5) by (auto simp: implements_def)
qed

definition demo_lcalls :: "lcall list" where
  "demo_lcalls = [LOpen 2, LWrite 100 2, LRead 500 3 0, LWrite 500 1, LRead 600 9 4, LRead 600 9 0, LRelease]"

lemma lifo_session_refines_stack_witness:
  "\<exists>s' nds'. lifo_session (sample_api [16, 32, 48, 64] 1000 True) demo_lcalls demo_lifo = Inr ([0, 2, 3, 1, - EINVAL, 2, 0], s') \<and>
    lo_user s' 500 = 101 \<and> lo_user s' 501 = 100 \<and> lo_user s' 502 = 7 \<and> lo_user s' 600 = 101 \<and> lo_user s' 601 = 5 \<and>
    lifo_rep (lo_heap s') (lo_dev s') nds' \<and> nds' = []"
proof -
  let ?K = "sample_api [16, 32, 48, 64] 1000 True" and ?m = "(map snd [(16 :: ptr, 7 :: byte), (32, 5)], lo_user demo_lifo)"
  have h0: "freed (lo_heap demo_lifo) (addrs [(16, 7), (32, 5)]) = Map.empty"
    by (auto simp: demo_lifo_def freed_def addrs_def)
  have room: "kmalloc_gives ?K 16 n" if "n \<le> 4" for n
    using kmalloc_gives_mono [OF sample_kmalloc_gives [of "[16, 32, 48, 64]" 1000 True]] that by simp
  have ok: "lsession_ok ?K (card (dom (Map.empty :: lifo_heap))) demo_lcalls ?m"
    by (simp add: demo_lcalls_def demo_bytes_ok room)
  obtain rs bs um where spec: "stack_session demo_lcalls ?m = (rs, bs, um)" by (metis prod.exhaust)
  have "case stack_session demo_lcalls ?m of (rs, bs, um) \<Rightarrow>
      rs = [0, 2, 3, 1, - EINVAL, 2, 0] \<and> bs = [] \<and> map um [500, 501, 502, 600, 601] = [101, 100, 7, 101, 5]"
    by code_simp
  then have "rs = [0, 2, 3, 1, - EINVAL, 2, 0]" "bs = []" "map um [500, 501, 502, 600, 601] = [101, 100, 7, 101, 5]"
    unfolding spec by simp_all
  then show ?thesis
    using lifo_session_refines_stack [OF sample_kapi_ok [of "[16, 32, 48, 64]" 1000 True] demo_lifo_rep h0 [symmetric] ok spec] by auto
qed

section \<open>From load to unload\<close>

text \<open>C37: The life of the LIFO module: after a load, any session the abstract stack allows, and an
  unload, every node has been freed and the store is exactly what it was before the load; the
  device number and the device are given back, but the device structure allocated by the load
  is not: one block of memory leaks with every load.\<close>

theorem lifo_life_cycle:
  assumes "kapi_ok K" "lifo_init_module E major h0 = Inr (0, major', Some dev, tr0)"
    and "lsession_ok K (card (dom h0)) cs ([], um)"
  shows "\<exists>rs s' tr. lifo_session K cs \<lparr>lo_heap = h0, lo_dev = dev, lo_user = um\<rparr> = Inr (rs, s') \<and>
    rs = fst (stack_session cs ([], um)) \<and>
    lifo_cleanup_module major' (lo_heap s') (Some (lo_dev s')) = Inr (h0, tr) \<and> held_from {} (tr0 @ tr) = {DevMem}"
proof -
  have dev: "dev = new_lifo_dev"
    and tr0: "held_from {} tr0 \<subseteq> {Region major' 0 1, DevMem, Cdev 0}" "DevMem \<in> held_from {} tr0"
    using assms(2)
    by (auto simp: lifo_init_module_def get_region_def Let_def lifo_cleanup_module_def lifo_setup_cdev_def
        split: prod.splits if_splits)
  have "implements h0 \<lparr>lo_heap = h0, lo_dev = dev, lo_user = um\<rparr> ([], um)"
    by (simp add: implements_def lifo_rep_def dev new_lifo_dev_def)
  from lifo_session_runs [OF assms(1) this assms(3)] obtain s' nds
    where run: "lifo_session K cs \<lparr>lo_heap = h0, lo_dev = dev, lo_user = um\<rparr> = Inr (fst (stack_session cs ([], um)), s')"
      and rep: "lifo_rep (lo_heap s') (lo_dev s') nds" and own: "freed (lo_heap s') (addrs nds) = h0"
    by (auto simp: implements_def)
  have "lifo_trim_loop (lo_heap s') (ld_data (lo_dev s')) = Inr h0"
    using lifo_trim_loop_frees [of "lo_heap s'" "ld_data (lo_dev s')" nds] rep own by (simp add: lifo_rep_def)
  then show ?thesis
    using run tr0 by (auto simp: lifo_cleanup_module_def lifo_trim_def)
qed

lemma lifo_life_cycle_witness:
  "\<exists>tr0 s' tr. lifo_init_module demo_env 0 Map.empty = Inr (0, 250, Some new_lifo_dev, tr0) \<and>
    lifo_session (sample_api [16, 32, 48] 1000 True) [LOpen 1, LWrite 100 3, LRead 500 1 0]
      \<lparr>lo_heap = Map.empty, lo_dev = new_lifo_dev, lo_user = (\<lambda>a. word_of_int a)\<rparr> = Inr ([0, 3, 1], s') \<and>
    lifo_cleanup_module 250 (lo_heap s') (Some (lo_dev s')) = Inr (Map.empty, tr) \<and> held_from {} (tr0 @ tr) = {DevMem}"
proof -
  let ?K = "sample_api [16, 32, 48] 1000 True" and ?um = "\<lambda>a. word_of_int a"
  let ?cs = "[LOpen 1, LWrite 100 3, LRead 500 1 0]"
  obtain tr0 where i: "lifo_init_module demo_env 0 Map.empty = Inr (0, 250, Some new_lifo_dev, tr0)"
    by (simp add: lifo_init_module_def get_region_def Let_def)
  have ok: "lsession_ok ?K (card (dom (Map.empty :: lifo_heap))) ?cs ([], ?um)"
    using sample_kmalloc_gives [of "[16, 32, 48]" 1000 True 16] by (simp add: demo_bytes_ok numeral_3_eq_3)
  have "fst (stack_session ?cs ([], ?um)) = [0, 3, 1]" by simp
  then show ?thesis using lifo_life_cycle [OF sample_kapi_ok i ok] i by auto
qed

end
