(* ===== verification/IpChecksum.thy ===== *)
theory IpChecksum
  imports KPrelude
begin

unbundle bit_operations_syntax

text \<open>
  The Internet checksum of \<open>RawIP/src/ip_func.c\<close>. The header is the sequence of bytes at the
  pointer; the code reads it as 16-bit words of the host, which is little endian, and works in
  32-bit unsigned arithmetic. The reference is the ones' complement sum: addition of 16-bit
  words with an end-around carry, which is congruent to the plain sum modulo 65535.
\<close>

section \<open>The code\<close>

definition le16 :: "byte \<Rightarrow> byte \<Rightarrow> 16 word" where
  "le16 lo hi = push_bit 8 (ucast hi) OR ucast lo"

text \<open>\<open>while (len > 1) { sum += *ip_header++; len -= sizeof(uint16_t); }\<close>\<close>

fun sum_loop :: "int \<Rightarrow> byte list \<Rightarrow> 32 word \<Rightarrow> (int \<times> byte list \<times> 32 word) res" where
  "sum_loop len ip_header acc =
     (if len > 1 then
        (case ip_header of
           b0 # b1 # rest \<Rightarrow> sum_loop (len - 2) rest (acc + ucast (le16 b0 b1))
         | _ \<Rightarrow> Inl OutOfBounds)
      else Inr (len, ip_header, acc))"

declare sum_loop.simps [simp del]

text \<open>\<open>if (len) sum += *((uint8_t * )(ip_header));\<close>\<close>

definition sum_tail :: "int \<Rightarrow> byte list \<Rightarrow> 32 word \<Rightarrow> 32 word res" where
  "sum_tail len ip_header acc =
     (if len \<noteq> 0 then (case ip_header of b # _ \<Rightarrow> Inr (acc + ucast b) | [] \<Rightarrow> Inl OutOfBounds) else Inr acc)"

definition fold_carry :: "32 word \<Rightarrow> 16 word" where
  "fold_carry acc =
     (let acc1 = drop_bit 16 acc + (acc AND 0xFFFF);
          acc2 = acc1 + drop_bit 16 acc1
      in ucast (NOT acc2))"

definition ip_ihl :: "byte list \<Rightarrow> byte res" where
  "ip_ihl ip = (case ip of b # _ \<Rightarrow> Inr (b AND 0x0F) | [] \<Rightarrow> Inl OutOfBounds)"

definition ip_checksum :: "byte list \<Rightarrow> 16 word res" where
  "ip_checksum ip =
     kbind (ip_ihl ip) (\<lambda>ihl.
     kbind (sum_loop (uint ihl * 4) ip 0) (\<lambda>(len, ip_header, acc).
     kbind (sum_tail len ip_header acc) (\<lambda>acc'.
     Inr (fold_carry acc'))))"

section \<open>The reference: ones' complement sums\<close>

text \<open>16-bit addition with an end-around carry.\<close>

definition oc_add :: "int \<Rightarrow> int \<Rightarrow> int" where
  "oc_add a b = (if a + b \<le> 65535 then a + b else a + b - 65535)"

fun le_words :: "byte list \<Rightarrow> 16 word list" where
  "le_words (b0 # b1 # rest) = le16 b0 b1 # le_words rest"
| "le_words _ = []"

definition oc_sum :: "16 word list \<Rightarrow> int" where
  "oc_sum ws = fold (\<lambda>w a. oc_add a (uint w)) ws 0"

definition plain_sum :: "16 word list \<Rightarrow> int" where
  "plain_sum ws = sum_list (map uint ws)"

lemma plain_sum_simps [simp]:
  "plain_sum [] = 0"
  "plain_sum (w # ws) = uint w + plain_sum ws"
  by (simp_all add: plain_sum_def)

lemma plain_sum_nonneg: "0 \<le> plain_sum ws"
  by (induction ws) (simp_all add: add_nonneg_nonneg)

lemma uint16_less: "uint (w :: 16 word) < 65536"
  using uint_lt2p [of w] by simp

lemma plain_sum_bound: "plain_sum ws \<le> 65535 * int (length ws)"
proof (induction ws)
  case (Cons w ws)
  then show ?case using uint16_less [of w] by simp
qed simp

text \<open>The closed form: the residue of the plain sum in \<open>1..65535\<close>, and 0 only for 0.\<close>

definition oc_residue :: "int \<Rightarrow> int" where
  "oc_residue s = (if s = 0 then 0 else (s - 1) mod 65535 + 1)"

lemma oc_residue_range: "0 \<le> s \<Longrightarrow> 0 \<le> oc_residue s \<and> oc_residue s \<le> 65535"
  using pos_mod_bound [of 65535 "s - 1"] pos_mod_sign [of 65535 "s - 1"]
  by (auto simp: oc_residue_def simp del: pos_mod_bound pos_mod_sign)

lemma oc_residue_small: "0 \<le> s \<Longrightarrow> s \<le> 65535 \<Longrightarrow> oc_residue s = s"
  by (simp add: oc_residue_def)

lemma oc_residue_carry: "0 < s \<Longrightarrow> oc_residue (s + 65535 * k) = oc_residue s" if "0 \<le> k"
proof -
  have "s + 65535 * k - 1 = (s - 1) + k * 65535" by simp
  then have "(s + 65535 * k - 1) mod 65535 = (s - 1) mod 65535" by (simp only: mod_mult_self1)
  then show "0 < s \<Longrightarrow> oc_residue (s + 65535 * k) = oc_residue s"
    using that by (simp add: oc_residue_def)
qed

lemma oc_residue_add:
  assumes "0 \<le> s" "0 \<le> w" "w \<le> 65535"
  shows "oc_add (oc_residue s) w = oc_residue (s + w)"
proof -
  define r where "r = oc_residue s"
  obtain k where k: "s = r + 65535 * k" "0 \<le> k" "k \<noteq> 0 \<longrightarrow> 0 < r"
  proof (cases "s = 0")
    case True
    then show ?thesis using that [of 0] by (simp add: r_def oc_residue_def)
  next
    case False
    then have "s = (s - 1) mod 65535 + 1 + 65535 * ((s - 1) div 65535)" by simp
    moreover have "0 \<le> (s - 1) div 65535" "0 \<le> (s - 1) mod 65535"
      using False assms(1) by (simp_all add: pos_imp_zdiv_nonneg_iff)
    ultimately show ?thesis using that [of "(s - 1) div 65535"] False by (simp add: r_def oc_residue_def)
  qed
  have r: "0 \<le> r" "r \<le> 65535" using oc_residue_range [OF assms(1)] by (simp_all add: r_def)
  have s: "s + w = (r + w) + 65535 * k" using k(1) by simp
  have "oc_residue (s + w) = oc_residue (r + w)"
  proof (cases "k = 0")
    case False
    then have "0 < r + w" using k(3) assms(2) by simp
    then show ?thesis unfolding s by (rule oc_residue_carry [OF k(2)])
  qed (simp add: s)
  moreover have "oc_residue (r + w) = oc_add r w"
  proof (cases "r + w \<le> 65535")
    case True
    then show ?thesis using r assms by (simp add: oc_add_def oc_residue_small)
  next
    case False
    have "oc_residue ((r + w - 65535) + 65535 * 1) = oc_residue (r + w - 65535)"
      by (rule oc_residue_carry) (use False in simp_all)
    then show ?thesis using False r assms by (simp add: oc_add_def oc_residue_small)
  qed
  ultimately show ?thesis by (simp add: r_def)
qed

lemma oc_sum_residue: "oc_sum ws = oc_residue (plain_sum ws)"
proof -
  have "fold (\<lambda>w a. oc_add a (uint w)) ws (oc_residue s) = oc_residue (s + plain_sum ws)" if "0 \<le> s" for s
    using that
  proof (induction ws arbitrary: s)
    case (Cons w ws)
    have "oc_add (oc_residue s) (uint w) = oc_residue (s + uint w)"
      using Cons.prems uint16_less [of w] by (intro oc_residue_add) simp_all
    then show ?case using Cons.IH [of "s + uint w"] Cons.prems by (simp add: add.assoc)
  qed simp
  from this [of 0] show ?thesis by (simp add: oc_sum_def oc_residue_def)
qed

section \<open>The code computes the complement of the reference\<close>

lemma sum_loop_runs:
  "2 * n \<le> length ip \<Longrightarrow> sum_loop (int (2 * n)) ip s =
     Inr (0, drop (2 * n) ip, s + word_of_int (plain_sum (le_words (take (2 * n) ip))))"
proof (induction n arbitrary: ip s)
  case 0
  then show ?case by (subst sum_loop.simps) simp
next
  case (Suc n)
  then obtain b0 b1 rest where ip: "ip = b0 # b1 # rest"
    by (cases ip; cases "tl ip") auto
  have "int (2 * Suc n) - 2 = int (2 * n)" by simp
  moreover have "word_of_int (uint (le16 b0 b1)) = (ucast (le16 b0 b1) :: 32 word)" by simp
  ultimately show ?case
    using Suc.IH [of rest "s + ucast (le16 b0 b1)"] Suc.prems
    by (subst sum_loop.simps) (simp add: ip add.assoc)
qed

lemma le_words_length: "length (le_words bs) = length bs div 2"
  by (induction bs rule: le_words.induct) simp_all

lemma fold_carry_uint:
  assumes "0 \<le> s" "s < 2 ^ 31"
  shows "uint (fold_carry (word_of_int s)) = 65535 - oc_residue s"
proof -
  define a b where "a = s div 65536" and "b = s mod 65536"
  have ab: "0 \<le> a" "a < 32768" "0 \<le> b" "b < 65536" "s = a * 65536 + b"
    using assms by (auto simp: a_def b_def)
  define x :: "32 word" where "x = word_of_int s"
  have ux: "uint x = s" using assms by (simp add: x_def uint_word_of_int)
  have d: "uint (drop_bit 16 x) = a" by (simp only: unsigned_drop_bit_eq ux) (use assms in \<open>simp add: drop_bit_eq_div take_bit_eq_mod a_def\<close>)
  have m: "uint (x AND 0xFFFF) = b"
  proof -
    have "x AND 0xFFFF = take_bit 16 x" by (simp add: take_bit_eq_mask mask_eq_exp_minus_1)
    then have "uint (x AND 0xFFFF) = take_bit 16 s" by (simp only: unsigned_take_bit_eq ux)
    then show ?thesis by (simp add: b_def take_bit_eq_mod)
  qed
  define y where "y = drop_bit 16 x + (x AND 0xFFFF)"
  have uy: "uint y = a + b" using ab by (simp add: y_def uint_word_ariths d m)
  define c where "c = (a + b) div 65536"
  have c: "c = (if a + b \<ge> 65536 then 1 else 0)" using ab by (auto simp: c_def)
  have dy: "uint (drop_bit 16 y) = c" by (simp only: unsigned_drop_bit_eq uy) (use ab in \<open>simp add: drop_bit_eq_div take_bit_eq_mod c_def\<close>)
  define z where "z = y + drop_bit 16 y"
  have uz: "uint z = a + b + c" using ab c by (simp add: z_def uint_word_ariths uy dy)
  have f: "fold_carry x = ucast (NOT z)" by (simp add: fold_carry_def Let_def y_def z_def)
  have "uint (NOT z) = 4294967295 - (a + b + c)"
  proof -
    have "uint (NOT z) = (- uint z - 1) mod 2 ^ 32"
      by (simp add: unsigned_not_eq take_bit_eq_mod not_int_def)
    also have "- uint z - 1 = (4294967295 - (a + b + c)) + (- 1) * 2 ^ 32" using uz by simp
    also have "\<dots> mod 2 ^ 32 = (4294967295 - (a + b + c)) mod 2 ^ 32" by (simp only: mod_mult_self1)
    finally show ?thesis using ab c by simp
  qed
  then have "uint (fold_carry x) = (4294967295 - (a + b + c)) mod 65536"
    unfolding f by (simp add: unsigned_ucast_eq take_bit_eq_mod)
  also have "\<dots> = 65535 - oc_residue s"
  proof (cases "a + b = 0")
    case True
    then have "a = 0" "b = 0" using ab by linarith+
    then show ?thesis using ab(5) c by (simp add: oc_residue_def)
  next
    case False
    have "oc_residue s = oc_residue (a + b)"
      using oc_residue_carry [OF ab(1), of "a + b"] False ab by (simp add: algebra_simps)
    also have "\<dots> = (a + b + c) - 65536 * c"
    proof (cases "a + b \<le> 65535")
      case True
      then show ?thesis using c ab by (simp add: oc_residue_small)
    next
      case big: False
      then have "oc_residue (a + b) = oc_residue (a + b - 65535)"
        using oc_residue_carry [of 1 "a + b - 65535"] by simp
      then show ?thesis using big c ab by (simp add: oc_residue_small)
    qed
    finally have r: "oc_residue s = (a + b + c) - 65536 * c" .
    have "4294967295 - (a + b + c) = (65535 - oc_residue s) + (65535 - c) * 65536"
      using r by simp
    then have "(4294967295 - (a + b + c)) mod 65536 = (65535 - oc_residue s) mod 65536"
      by (simp only: mod_mult_self1)
    then show ?thesis using oc_residue_range [OF assms(1)] by simp
  qed
  finally show ?thesis by (simp add: x_def)
qed

lemma sum_loop_short:
  "length ip < 2 * n \<Longrightarrow> sum_loop (int (2 * n)) ip s = Inl OutOfBounds"
proof (induction n arbitrary: ip s)
  case (Suc n)
  have len: "int (2 * Suc n) - 2 = int (2 * n)" by simp
  show ?case
  proof (cases "2 \<le> length ip")
    case True
    then obtain b0 b1 rest where ip: "ip = b0 # b1 # rest"
      by (cases ip; cases "tl ip") auto
    then show ?thesis using Suc len by (subst sum_loop.simps) simp
  next
    case False
    then have "ip = [] \<or> (\<exists>b. ip = [b])" by (cases ip; cases "tl ip") auto
    then show ?thesis by (subst sum_loop.simps) auto
  qed
qed simp

text \<open>The length of the header, in bytes: the low nibble of its first byte, in 32-bit words.\<close>

definition header_len :: "byte list \<Rightarrow> nat" where
  "header_len ip = 4 * unat (hd ip AND 0x0F)"

lemma header_len_le: "header_len ip \<le> 60"
proof -
  have "hd ip AND 0x0F \<le> (0x0F :: byte)" by (rule word_and_le1)
  then have "unat (hd ip AND 0x0F) \<le> 15" by (simp add: word_le_nat_alt)
  then show ?thesis by (simp add: header_len_def)
qed

lemma ip_checksum_loop:
  assumes "ip \<noteq> []"
  obtains n where "header_len ip = 2 * n"
    "ip_checksum ip = kbind (sum_loop (int (2 * n)) ip 0) (\<lambda>(len, ip_header, acc).
       kbind (sum_tail len ip_header acc) (\<lambda>acc'. Inr (fold_carry acc')))"
proof
  show "header_len ip = 2 * (header_len ip div 2)" by (simp add: header_len_def)
  have "uint (hd ip AND 0x0F) * 4 = int (header_len ip)"
    by (simp add: header_len_def)
  also have "\<dots> = int (2 * (header_len ip div 2))" by (simp add: header_len_def)
  finally have u: "uint (hd ip AND 0x0F) * 4 = int (2 * (header_len ip div 2))" .
  have "ip_ihl ip = Inr (hd ip AND 0x0F)" using assms by (cases ip) (simp_all add: ip_ihl_def)
  then show "ip_checksum ip = kbind (sum_loop (int (2 * (header_len ip div 2))) ip 0) (\<lambda>(len, ip_header, acc).
       kbind (sum_tail len ip_header acc) (\<lambda>acc'. Inr (fold_carry acc')))"
    unfolding ip_checksum_def u [symmetric] by simp
qed

lemma ip_checksum_sum:
  assumes "ip \<noteq> []" "header_len ip \<le> length ip"
  shows "ip_checksum ip = Inr (fold_carry (word_of_int (plain_sum (le_words (take (header_len ip) ip)))))"
proof -
  obtain n where n: "header_len ip = 2 * n"
    "ip_checksum ip = kbind (sum_loop (int (2 * n)) ip 0) (\<lambda>(len, ip_header, acc).
       kbind (sum_tail len ip_header acc) (\<lambda>acc'. Inr (fold_carry acc')))"
    by (rule ip_checksum_loop [OF assms(1)])
  show ?thesis
    unfolding n(2) using sum_loop_runs [of n ip 0] assms(2) by (simp add: sum_tail_def n(1))
qed

lemma header_sum_bounds:
  "0 \<le> plain_sum (le_words (take (header_len ip) ip)) \<and> plain_sum (le_words (take (header_len ip) ip)) < 2 ^ 31"
proof -
  have "length (le_words (take (header_len ip) ip)) \<le> 30"
    using header_len_le [of ip] by (simp add: le_words_length)
  then show ?thesis
    using plain_sum_nonneg plain_sum_bound [of "le_words (take (header_len ip) ip)"] by simp
qed

lemma ip_checksum_residue:
  assumes "ip \<noteq> []" "header_len ip \<le> length ip"
  obtains k where "ip_checksum ip = Inr k"
    "uint k = 65535 - oc_residue (plain_sum (le_words (take (header_len ip) ip)))"
  using ip_checksum_sum [OF assms] fold_carry_uint header_sum_bounds [of ip] by blast

section \<open>Properties\<close>

text \<open>C15: \<open>ip_checksum\<close> is the Internet checksum: the two folding steps are enough for every header
  length, the 32-bit sum never wraps, and the result is the complement of the ones' complement
  sum of the header's words. It reads exactly \<open>4 * ihl\<close> bytes, past the end of the packet when
  that is shorter.\<close>

theorem ip_checksum_correct:
  "ip_checksum ip =
     (if ip = [] \<or> length ip < header_len ip then Inl OutOfBounds
      else Inr (NOT (word_of_int (oc_sum (le_words (take (header_len ip) ip))))))"
proof (cases "ip = [] \<or> length ip < header_len ip")
  case True
  show ?thesis
  proof (cases "ip = []")
    case True
    then show ?thesis by (simp add: ip_checksum_def ip_ihl_def)
  next
    case False
    then obtain n where n: "header_len ip = 2 * n"
      "ip_checksum ip = kbind (sum_loop (int (2 * n)) ip 0) (\<lambda>(len, ip_header, acc).
         kbind (sum_tail len ip_header acc) (\<lambda>acc'. Inr (fold_carry acc')))"
      by (rule ip_checksum_loop)
    show ?thesis
      unfolding n(2) using sum_loop_short [of ip n 0] True False by (simp add: n(1))
  qed
next
  case False
  then obtain k where k: "ip_checksum ip = Inr k"
    "uint k = 65535 - oc_residue (plain_sum (le_words (take (header_len ip) ip)))"
    using ip_checksum_residue [of ip] by force
  have "k = word_of_int (65535 - oc_sum (le_words (take (header_len ip) ip)))"
    using k(2) by (simp add: oc_sum_residue flip: k(2))
  also have "\<dots> = NOT (word_of_int (oc_sum (le_words (take (header_len ip) ip))))"
    by (simp add: not_eq_complement)
  finally show ?thesis using False k(1) by simp
qed

end
