(* ===== verification/RawIp.thy ===== *)
theory RawIp
  imports IpChecksum Libfs
begin

text \<open>
  The raw-socket program (\<open>RawIP/src/main.c\<close>, \<open>common.c\<close>, the header layout of
  \<open>RawIP/doc/ip.h\<close>): the logging helpers with their fixed buffers, the IP header as a record
  and as the bytes of the packet, and \<open>main\<close> over what the system calls answer.
\<close>

section \<open>Byte order\<close>

definition lo8 :: "16 word \<Rightarrow> byte" where "lo8 w = ucast w"
definition hi8 :: "16 word \<Rightarrow> byte" where "hi8 w = ucast (drop_bit 8 w)"
definition bytes16 :: "16 word \<Rightarrow> byte list" where "bytes16 w = [lo8 w, hi8 w]"
definition bytes32 :: "32 word \<Rightarrow> byte list" where
  "bytes32 w = bytes16 (ucast w) @ bytes16 (ucast (drop_bit 16 w))"

text \<open>\<open>htons\<close> on a little-endian host.\<close>

definition htons :: "16 word \<Rightarrow> 16 word" where "htons w = le16 (hi8 w) (lo8 w)"

lemma le16_bytes [simp]: "le16 (lo8 w) (hi8 w) = w"
  by (rule bit_word_eqI) (auto simp: le16_def lo8_def hi8_def bit_simps)

lemma lo8_le16 [simp]: "lo8 (le16 a b) = a" and hi8_le16 [simp]: "hi8 (le16 a b) = b"
  by (rule bit_word_eqI; auto simp: le16_def lo8_def hi8_def bit_simps dest: bit_imp_le_length)+

lemma htons_htons [simp]: "htons (htons w) = w"
  by (simp add: htons_def)

lemma htons_fixed: "htons w = w \<longleftrightarrow> lo8 w = hi8 w"
  by (metis hi8_le16 htons_def le16_bytes lo8_le16)

lemma htons_full: "htons w = - 1 \<longleftrightarrow> w = - 1"
proof -
  have "htons (- 1) = - 1" by code_simp
  then show ?thesis by (metis htons_htons)
qed

definition le32 :: "byte list \<Rightarrow> 32 word" where
  "le32 bs = push_bit 16 (ucast (le16 (bs ! 2) (bs ! 3))) OR ucast (le16 (bs ! 0) (bs ! 1))"

lemma le32_halves:
  "push_bit 16 (ucast (ucast (drop_bit 16 w) :: 16 word)) OR ucast (ucast w :: 16 word) = (w :: 32 word)"
  by (rule bit_word_eqI) (auto simp: bit_simps dest: bit_imp_le_length)

section \<open>The IP header\<close>

text \<open>The multi-byte fields hold what a little-endian host reads from memory.\<close>

record iphdr =
  ihl :: "4 word"
  version :: "4 word"
  tos :: byte
  tot_len :: "16 word"
  ip_id :: "16 word"
  frag_off :: "16 word"
  ttl :: byte
  protocol :: byte
  check :: "16 word"
  saddr :: "32 word"
  daddr :: "32 word"

definition nibbles :: "4 word \<Rightarrow> 4 word \<Rightarrow> byte" where
  "nibbles lo hi = ucast lo OR push_bit 4 (ucast hi)"

definition iphdr_bytes :: "iphdr \<Rightarrow> byte list" where
  "iphdr_bytes h =
     [nibbles (ihl h) (version h), tos h] @ bytes16 (tot_len h) @
     bytes16 (ip_id h) @ bytes16 (frag_off h) @ [ttl h, protocol h] @ bytes16 (check h) @
     bytes32 (saddr h) @ bytes32 (daddr h)"

definition iphdr_of_bytes :: "byte list \<Rightarrow> iphdr" where
  "iphdr_of_bytes bs = \<lparr>ihl = ucast (bs ! 0), version = ucast (drop_bit 4 (bs ! 0)), tos = bs ! 1,
     tot_len = le16 (bs ! 2) (bs ! 3), ip_id = le16 (bs ! 4) (bs ! 5), frag_off = le16 (bs ! 6) (bs ! 7),
     ttl = bs ! 8, protocol = bs ! 9, check = le16 (bs ! 10) (bs ! 11),
     saddr = le32 (take 4 (drop 12 bs)), daddr = le32 (take 4 (drop 16 bs))\<rparr>"

lemma iphdr_size: "length (iphdr_bytes h) = 20"
  by (simp add: iphdr_bytes_def bytes16_def bytes32_def)

lemma nibbles_parts:
  "ucast (nibbles v w) = v"
  "ucast (drop_bit 4 (nibbles v w)) = w"
  "nibbles v w AND 0x0F = ucast v"
proof -
  show "ucast (nibbles v w) = v" "ucast (drop_bit 4 (nibbles v w)) = w"
    unfolding nibbles_def by (rule bit_word_eqI; auto simp: bit_simps dest: bit_imp_le_length)+
  have "(x :: byte) AND 0x0F = take_bit 4 x" for x by (simp add: take_bit_eq_mask mask_eq_exp_minus_1)
  then show "nibbles v w AND 0x0F = ucast v"
    unfolding nibbles_def by (simp only:) (rule bit_word_eqI; auto simp: bit_simps dest: bit_imp_le_length)
qed

lemma iphdr_parse: "iphdr_of_bytes (iphdr_bytes h) = h"
  by (cases h) (simp add: iphdr_of_bytes_def iphdr_bytes_def bytes16_def bytes32_def nibbles_parts(1,2)
      le32_def le32_halves)

lemma iphdr_header_len: "ihl h = 5 \<Longrightarrow> header_len (iphdr_bytes h) = 20"
  by (simp add: header_len_def iphdr_bytes_def nibbles_parts(3))

section \<open>Logging (\<open>common.c\<close>)\<close>

definition MAX_BUFF :: nat where "MAX_BUFF = 1000 * 1000"

datatype console = Stdout "byte list" | Stderr "byte list" | Perror "byte list"

text \<open>
  The argument is the formatted text; \<open>stk\<close> is what the array on the stack happens to hold.
  \<open>sdie\<close> and \<open>udie\<close> exit after their output.
\<close>

definition print_sys :: "(nat \<Rightarrow> byte) \<Rightarrow> byte list \<Rightarrow> console list res" where
  "print_sys stk txt =
     kbind (c_sprintf (map stk [0..<MAX_BUFF]) txt) (\<lambda>buf. Inr [Perror (cstr buf)])"

definition print_user :: "(nat \<Rightarrow> byte) \<Rightarrow> byte list \<Rightarrow> console list res" where
  "print_user stk txt =
     kbind (c_sprintf (map stk [0..<MAX_BUFF]) txt) (\<lambda>buf.
     let len = c_strlen buf in
     kbind (arr_set buf len 10) (\<lambda>buf1.
     kbind (arr_set buf1 (len + 1) 0) (\<lambda>buf2. Inr [Stderr (cstr buf2)])))"

definition sdie :: "(nat \<Rightarrow> byte) \<Rightarrow> byte list \<Rightarrow> console list res" where "sdie stk txt = print_sys stk txt"
definition udie :: "(nat \<Rightarrow> byte) \<Rightarrow> byte list \<Rightarrow> console list res" where "udie stk txt = print_user stk txt"

definition slog :: "bool \<Rightarrow> (nat \<Rightarrow> byte) \<Rightarrow> byte list \<Rightarrow> console list res" where
  "slog DEBUG stk txt =
     (if DEBUG then kbind (print_sys stk txt) (\<lambda>out. Inr (Stdout (bytes_of ''DEBUG: '') # out)) else Inr [])"

definition ulog :: "bool \<Rightarrow> (nat \<Rightarrow> byte) \<Rightarrow> byte list \<Rightarrow> console list res" where
  "ulog DEBUG stk txt =
     (if DEBUG then kbind (print_user stk txt) (\<lambda>out. Inr (Stdout (bytes_of ''DEBUG: '') # out)) else Inr [])"

lemma print_sys_runs:
  assumes "0 \<notin> set txt"
  shows "print_sys stk txt = (if length txt + 1 \<le> MAX_BUFF then Inr [Perror txt] else Inl OutOfBounds)"
proof (cases "length txt + 1 \<le> MAX_BUFF")
  case True
  then show ?thesis
    using c_sprintf_cstr [of "txt" "map stk [0..<MAX_BUFF]"] assms by (auto simp: print_sys_def)
qed (simp add: print_sys_def c_sprintf_def)

lemma cstr_terminated_at:
  "0 \<notin> set txt \<Longrightarrow> cstr (txt @ 0 # r) = txt"
  unfolding cstr_def by (subst takeWhile_append2) auto

lemma print_user_runs:
  assumes "0 \<notin> set txt"
  shows "print_user stk txt = (if length txt + 2 \<le> MAX_BUFF then Inr [Stderr (txt @ [10])] else Inl OutOfBounds)"
proof (cases "length txt < MAX_BUFF")
  case True
  let ?arr = "map stk [0..<MAX_BUFF]"
  let ?buf = "txt @ 0 # drop (Suc (length txt)) ?arr"
  have buf: "c_sprintf ?arr txt = Inr ?buf" using True by (simp add: c_sprintf_def buf_write_def)
  have len: "c_strlen ?buf = int (length txt)"
    using cstr_terminated_at [OF assms] by (simp add: c_strlen_def del: drop_map)
  have b1: "arr_set ?buf (int (length txt)) 10 = Inr (txt @ 10 # drop (Suc (length txt)) ?arr)"
    using True by (simp add: arr_set_def)
  show ?thesis
  proof (cases "length txt + 2 \<le> MAX_BUFF")
    case True
    then obtain x rest where r: "drop (Suc (length txt)) ?arr = x # rest"
      by (cases "drop (Suc (length txt)) ?arr") (auto simp del: drop_map)
    have l: "length rest + Suc (Suc (length txt)) = MAX_BUFF"
      using arg_cong [OF r, of length] True by simp
    have "arr_set (txt @ 10 # x # rest) (int (length txt) + 1) 0 = Inr ((txt @ [10]) @ 0 # rest)"
      by (simp add: arr_set_def nat_add_distrib list_update_append)
    moreover have "cstr ((txt @ [10]) @ 0 # rest) = txt @ [10]"
      by (rule cstr_terminated_at) (use assms in simp)
    ultimately show ?thesis using True len b1 by (simp only: print_user_def buf kbind_simps Let_def r if_True)
  next
    case False
    then have d: "drop (Suc (length txt)) ?arr = []" by simp
    have "arr_set (txt @ [10]) (int (length txt) + 1) 0 = Inl OutOfBounds" by (simp add: arr_set_def)
    then show ?thesis using False len b1 by (simp only: print_user_def buf kbind_simps Let_def d if_False)
  qed
qed (simp add: print_user_def c_sprintf_def)

section \<open>\<open>main\<close>\<close>

text \<open>
  What the system calls answer. \<open>re_recvfrom\<close> is given the length of the buffer and returns
  the call's result and the bytes it stored.
\<close>

record raw_env =
  re_stack :: "nat \<Rightarrow> byte"
  re_debug :: bool
  re_inet_addr :: "byte list \<Rightarrow> 32 word"
  re_socket :: int
  re_setsockopt :: int
  re_malloc :: bool
  re_rand :: int
  re_sendto :: int
  re_recvfrom :: "nat \<Rightarrow> int \<times> byte list"
  re_fopen :: bool

record raw_result =
  exit_code :: int
  console_out :: "console list"
  sent :: "byte list option"
  packet_file :: "byte list option"

definition hex_digit :: "16 word \<Rightarrow> byte" where
  "hex_digit d = (if d < 10 then 48 + ucast d else 87 + ucast d)"

definition hex4 :: "16 word \<Rightarrow> byte list" where
  "hex4 w = map (\<lambda>k. hex_digit (drop_bit k w AND 15)) [12, 8, 4, 0]"

definition usage_text :: "byte list \<Rightarrow> byte list" where
  "usage_text argv0 = bytes_of ''usage: '' @ argv0 @ bytes_of '' <source IP> <destination IP>'' @ [10]"

definition blank_iphdr :: iphdr where
  "blank_iphdr = \<lparr>ihl = 0, version = 0, tos = 0, tot_len = 0, ip_id = 0, frag_off = 0, ttl = 0,
     protocol = 0, check = 0, saddr = 0, daddr = 0\<rparr>"

text \<open>The header up to the checksum.\<close>

definition fill_header :: "int \<Rightarrow> 32 word \<Rightarrow> 32 word \<Rightarrow> nat \<Rightarrow> iphdr" where
  "fill_header rnd src dst packet_len = blank_iphdr\<lparr>version := 4, ihl := 5, tos := 0,
     tot_len := htons (word_of_nat packet_len), ip_id := word_of_int rnd, frag_off := 0, ttl := 73,
     protocol := 110, saddr := src, daddr := dst\<rparr>"

definition die :: "console list \<Rightarrow> byte list option \<Rightarrow> console list res \<Rightarrow> raw_result res" where
  "die out pkt msg = kbind msg (\<lambda>m.
     Inr \<lparr>exit_code = 1, console_out = out @ m, sent = pkt, packet_file = None\<rparr>)"

text \<open>From \<open>sendto\<close> to the end; \<open>fwrite\<close> to the \<open>NULL\<close> stream of a failed \<open>fopen\<close> faults.\<close>

definition raw_exchange :: "raw_env \<Rightarrow> console list \<Rightarrow> byte list \<Rightarrow> raw_result res" where
  "raw_exchange E out packet =
     (let stk = re_stack E; out1 = out @ [Stdout (bytes_of ''sending... :-|'')] in
      if re_sendto E < 1 then die out1 None (sdie stk (bytes_of ''sendto()''))
      else
        let out2 = out1 @ [Stdout (bytes_of ''sent.... :-)''), Stdout (bytes_of ''receiving... :-|'')];
            (r, bs) = re_recvfrom E (length packet)
        in if r < 1 then die out2 (Some packet) (sdie stk (bytes_of ''recvfrom()''))
        else if \<not> re_fopen E then Inl NullDeref
        else Inr \<lparr>exit_code = 0, console_out = out2 @ [Stdout (bytes_of ''received.... :-)'')],
               sent = Some packet, packet_file = Some (buf_write packet 0 bs)\<rparr>)"

definition raw_main :: "raw_env \<Rightarrow> byte list list \<Rightarrow> raw_result res" where
  "raw_main E argv =
     (let stk = re_stack E in
      if length argv < 3 then
        (case argv of [] \<Rightarrow> Inl NullDeref | argv0 # _ \<Rightarrow> die [] None (udie stk (usage_text argv0)))
      else
        let src = re_inet_addr E (argv ! 1); dst = re_inet_addr E (argv ! 2) in
        if re_socket E < 0 then die [] None (sdie stk (bytes_of ''socket()''))
        else if re_setsockopt E = - 1 then die [] None (sdie stk (bytes_of ''setsockopt()''))
        else
          let packet_len = length (iphdr_bytes blank_iphdr) in
          if \<not> re_malloc E then die [] None (sdie stk (bytes_of ''malloc()''))
          else
            let ip = fill_header (re_rand E) src dst packet_len in
            kbind (ip_checksum (iphdr_bytes ip)) (\<lambda>c.
            kbind (ulog (re_debug E) stk (bytes_of ''0x'' @ hex4 (htons c) @ [10])) (\<lambda>out.
            kbind (ip_checksum (iphdr_bytes ip)) (\<lambda>c'.
            raw_exchange E out (iphdr_bytes (ip\<lparr>check := htons c'\<rparr>))))))"

section \<open>The checksum field\<close>

lemma le_words_bytes16: "le_words (bytes16 w @ bs) = w # le_words bs"
  by (simp add: bytes16_def)

lemma le_words_header:
  "\<exists>w0 w4 ws. \<forall>c. le_words (iphdr_bytes (h\<lparr>check := c\<rparr>)) = w0 # tot_len h # ip_id h # frag_off h # w4 # c # ws \<and>
     (ihl h \<noteq> 0 \<longrightarrow> w0 \<noteq> 0)"
proof -
  have "le16 (nibbles v w) b \<noteq> 0" if "v \<noteq> 0" for v w b
  proof
    assume "le16 (nibbles v w) b = 0"
    then have "nibbles v w = 0" by (metis lo8_le16 lo8_def unsigned_0)
    then show False using that nibbles_parts(1) [of v w] by simp
  qed
  then show ?thesis
    by (simp add: iphdr_bytes_def bytes32_def le_words_bytes16)
qed

text \<open>When the words before have a positive sum, exactly the complement of their checksum, or the
  second representation of zero, makes the whole sum vanish.\<close>

lemma oc_verify:
  fixes s c :: int
  assumes "0 < s" "0 \<le> c" "c \<le> 65535"
  shows "oc_residue (s + c) = 65535 \<longleftrightarrow> c = 65535 - oc_residue s \<or> c = 65535 \<and> oc_residue s = 65535"
proof -
  have r: "oc_residue (s + c) = oc_add (oc_residue s) c"
    using assms oc_residue_add [of s c] by simp
  have "0 < oc_residue s" using assms(1) by (simp add: oc_residue_def)
  moreover have "oc_residue s \<le> 65535" using oc_residue_range [of s] assms(1) by simp
  ultimately show ?thesis unfolding r oc_add_def using assms by auto
qed

lemma header_verifies:
  assumes "ihl h = 5"
  shows "\<exists>k. ip_checksum (iphdr_bytes (h\<lparr>check := 0\<rparr>)) = Inr k \<and>
    (\<forall>c. ip_checksum (iphdr_bytes (h\<lparr>check := c\<rparr>)) = Inr 0 \<longleftrightarrow> c = k \<or> c = - 1 \<and> k = 0)"
proof -
  obtain w0 w4 ws where w: "le_words (iphdr_bytes (h\<lparr>check := c\<rparr>)) = w0 # tot_len h # ip_id h # frag_off h # w4 # c # ws"
    and w0: "w0 \<noteq> 0" for c
    using le_words_header [of h] assms by fastforce
  define s where "s = uint w0 + uint (tot_len h) + uint (ip_id h) + uint (frag_off h) + uint w4 + plain_sum ws"
  have s: "plain_sum (le_words (iphdr_bytes (h\<lparr>check := c\<rparr>))) = s + uint c" for c
    by (simp add: w s_def)
  have "uint w0 \<noteq> 0" using w0 by (simp add: unsigned_eq_0_iff)
  then have "0 < uint w0" using uint_ge_0 [of w0] by linarith
  then have pos: "0 < s" using plain_sum_nonneg [of ws] by (simp add: s_def add_pos_nonneg)
  have k: "\<exists>k. ip_checksum (iphdr_bytes (h\<lparr>check := c\<rparr>)) = Inr k \<and> uint k = 65535 - oc_residue (s + uint c)" for c
  proof -
    let ?b = "iphdr_bytes (h\<lparr>check := c\<rparr>)"
    have len: "header_len ?b = length ?b" using assms by (simp add: iphdr_header_len iphdr_size)
    have "?b \<noteq> []" using iphdr_size [of "h\<lparr>check := c\<rparr>"] by fastforce
    then obtain kc where "ip_checksum ?b = Inr kc"
      "uint kc = 65535 - oc_residue (plain_sum (le_words (take (header_len ?b) ?b)))"
      by (rule ip_checksum_residue) (simp add: len)
    then show ?thesis by (simp add: len s)
  qed
  obtain k0 where k0: "ip_checksum (iphdr_bytes (h\<lparr>check := 0\<rparr>)) = Inr k0" "uint k0 = 65535 - oc_residue s"
    using k [of 0] by auto
  have minus_one: "uint (- 1 :: 16 word) = 65535" by (simp add: unsigned_minus_1_eq_mask mask_eq_exp_minus_1)
  have "ip_checksum (iphdr_bytes (h\<lparr>check := c\<rparr>)) = Inr 0 \<longleftrightarrow> c = k0 \<or> c = - 1 \<and> k0 = 0" for c
  proof -
    obtain kc where kc: "ip_checksum (iphdr_bytes (h\<lparr>check := c\<rparr>)) = Inr kc" "uint kc = 65535 - oc_residue (s + uint c)"
      using k by blast
    have "kc = 0 \<longleftrightarrow> oc_residue (s + uint c) = 65535" using kc(2) by (auto simp: word_uint_eq_iff)
    also have "\<dots> \<longleftrightarrow> uint c = 65535 - oc_residue s \<or> uint c = 65535 \<and> oc_residue s = 65535"
      using oc_verify [OF pos, of "uint c"] uint16_less [of c] by simp
    also have "\<dots> \<longleftrightarrow> c = k0 \<or> c = - 1 \<and> k0 = 0"
      using k0(2) minus_one by (auto simp: word_uint_eq_iff)
    finally show ?thesis using kc(1) by simp
  qed
  then show ?thesis using k0(1) by blast
qed

section \<open>What \<open>main\<close> prints\<close>

lemma hex_digit_nonzero: "hex_digit (x AND 15) \<noteq> 0"
proof -
  define d where "d = x AND 15"
  have "d \<le> 15" unfolding d_def by (rule word_and_le1)
  then have d: "uint d \<le> 15" by (simp add: word_le_def)
  then have "uint (ucast d :: byte) = uint d" by (simp add: unsigned_ucast_eq take_bit_eq_mod)
  then have "uint (48 + ucast d :: byte) = 48 + uint d" "uint (87 + ucast d :: byte) = 87 + uint d"
    using d by (simp_all add: uint_word_ariths)
  moreover have "0 \<le> uint d" by simp
  ultimately have "48 \<le> uint (hex_digit d)" unfolding hex_digit_def by (cases "d < 10") simp_all
  then have "hex_digit d \<noteq> 0" by auto
  then show ?thesis unfolding d_def .
qed

lemma checksum_text: "0 \<notin> set (bytes_of ''0x'' @ hex4 w @ [10])" "length (bytes_of ''0x'' @ hex4 w @ [10]) = 7"
proof -
  have p: "0 \<notin> set (bytes_of ''0x'')" "length (bytes_of ''0x'') = 2" by code_simp+
  show "0 \<notin> set (bytes_of ''0x'' @ hex4 w @ [10])"
    using p hex_digit_nonzero [of "drop_bit _ w"] hex_digit_nonzero [of w] by (auto simp: hex4_def)
  show "length (bytes_of ''0x'' @ hex4 w @ [10]) = 7" using p by (simp add: hex4_def)
qed

lemma ulog_runs:
  "\<exists>out. ulog DEBUG stk (bytes_of ''0x'' @ hex4 w @ [10]) = Inr out"
  using print_user_runs [OF checksum_text(1)] checksum_text(2) [of w] by (auto simp: ulog_def MAX_BUFF_def)

text \<open>The messages of the failing calls.\<close>

lemma sdie_runs:
  "m \<in> {''socket()'', ''setsockopt()'', ''malloc()'', ''sendto()'', ''recvfrom()''} \<Longrightarrow>
   sdie stk (bytes_of m) = Inr [Perror (bytes_of m)]"
proof -
  assume m: "m \<in> {''socket()'', ''setsockopt()'', ''malloc()'', ''sendto()'', ''recvfrom()''}"
  have "\<forall>m \<in> {''socket()'', ''setsockopt()'', ''malloc()'', ''sendto()'', ''recvfrom()''}.
      0 \<notin> set (bytes_of m) \<and> length (bytes_of m) < 20"
    by code_simp
  then have "0 \<notin> set (bytes_of m)" "length (bytes_of m) + 1 \<le> MAX_BUFF"
    using m by (auto simp: MAX_BUFF_def)
  then show ?thesis by (simp add: sdie_def print_sys_runs)
qed

section \<open>Properties\<close>

text \<open>The header and its 20 bytes are the same thing: reading the packet back as a header gives
  the header that was written.\<close>

lemma iphdr_roundtrip:
  "iphdr_of_bytes (iphdr_bytes h) = h \<and> length (iphdr_bytes h) = 20"
  by (simp add: iphdr_parse iphdr_size)

text \<open>For every header without options, storing the checksum computed over a zero \<open>check\<close> field
  makes the checksum of the whole header vanish, which is how a receiver verifies it. No other
  value of the field does, but for the second representation of zero.\<close>

lemma iphdr_checksum_verifies:
  assumes "ihl h = 5"
  shows "\<exists>k. ip_checksum (iphdr_bytes (h\<lparr>check := 0\<rparr>)) = Inr k \<and>
    (\<forall>c. ip_checksum (iphdr_bytes (h\<lparr>check := c\<rparr>)) = Inr 0 \<longleftrightarrow> c = k \<or> c = - 1 \<and> k = 0)"
  by (rule header_verifies [OF assms])

lemma iphdr_checksum_verifies_witness:
  "\<exists>k. ip_checksum (iphdr_bytes (fill_header 7 0x0100007F 0x0200007F 20)) = Inr k \<and>
    ip_checksum (iphdr_bytes ((fill_header 7 0x0100007F 0x0200007F 20)\<lparr>check := k\<rparr>)) = Inr 0"
proof -
  let ?h = "fill_header 7 0x0100007F 0x0200007F 20"
  have "?h\<lparr>check := 0\<rparr> = ?h" "ihl ?h = 5" by (simp_all add: fill_header_def blank_iphdr_def)
  then show ?thesis using iphdr_checksum_verifies [of ?h] by metis
qed

text \<open>The logging helpers put out exactly the formatted text, with a newline for \<open>udie\<close> and
  \<open>ulog\<close>, as long as it fits; the buffer of \<open>udie\<close> and \<open>ulog\<close> is overrun by a text one byte
  shorter than what \<open>sdie\<close> and \<open>slog\<close> can take.\<close>

lemma logging_bounds:
  assumes "0 \<notin> set txt"
  shows "sdie stk txt = (if length txt + 1 \<le> MAX_BUFF then Inr [Perror txt] else Inl OutOfBounds) \<and>
    udie stk txt = (if length txt + 2 \<le> MAX_BUFF then Inr [Stderr (txt @ [10])] else Inl OutOfBounds) \<and>
    slog DEBUG stk txt = (if \<not> DEBUG then Inr [] else if length txt + 1 \<le> MAX_BUFF
      then Inr [Stdout (bytes_of ''DEBUG: ''), Perror txt] else Inl OutOfBounds) \<and>
    ulog DEBUG stk txt = (if \<not> DEBUG then Inr [] else if length txt + 2 \<le> MAX_BUFF
      then Inr [Stdout (bytes_of ''DEBUG: ''), Stderr (txt @ [10])] else Inl OutOfBounds)"
  using print_sys_runs [OF assms] print_user_runs [OF assms]
  by (simp_all add: sdie_def udie_def slog_def ulog_def)

lemma logging_bounds_witness:
  "udie (\<lambda>i. 0) [104, 105] = Inr [Stderr [104, 105, 10]]"
proof -
  have "udie (\<lambda>i. 0) [104, 105] =
      (if length [104, 105 :: byte] + 2 \<le> MAX_BUFF then Inr [Stderr ([104, 105] @ [10])] else Inl OutOfBounds)"
    using logging_bounds [of "[104, 105]"] by simp
  then show ?thesis by (simp add: MAX_BUFF_def)
qed

text \<open>C25: What \<open>main\<close> sends when the calls before work: one header with version 4, five words,
  its own length in network order, TTL 73, protocol 110 and the two addresses, and in the
  checksum field the byte-swapped Internet checksum. Since the sum was already taken over
  words as they lie in memory, the header verifies only when the two bytes of the checksum are
  equal. If the file cannot be created the program then writes to a null stream.\<close>

theorem raw_main_sends:
  assumes "3 \<le> length argv" "0 \<le> re_socket E" "re_setsockopt E \<noteq> - 1" "re_malloc E" "1 \<le> re_sendto E"
  shows "\<exists>h k. h = \<lparr>ihl = 5, version = 4, tos = 0, tot_len = 0x1400, ip_id = word_of_int (re_rand E),
      frag_off = 0, ttl = 73, protocol = 110, check = 0, saddr = re_inet_addr E (argv ! 1),
      daddr = re_inet_addr E (argv ! 2)\<rparr> \<and>
    ip_checksum (iphdr_bytes h) = Inr k \<and>
    (ip_checksum (iphdr_bytes (h\<lparr>check := htons k\<rparr>)) = Inr 0 \<longleftrightarrow> lo8 k = hi8 k) \<and>
    (if 1 \<le> fst (re_recvfrom E 20) \<and> \<not> re_fopen E then raw_main E argv = Inl NullDeref
     else \<exists>res. raw_main E argv = Inr res \<and> sent res = Some (iphdr_bytes (h\<lparr>check := htons k\<rparr>)))"
proof -
  define h where "h = \<lparr>ihl = 5, version = 4, tos = 0, tot_len = 0x1400, ip_id = word_of_int (re_rand E),
      frag_off = 0, ttl = 73, protocol = 110, check = 0, saddr = re_inet_addr E (argv ! 1),
      daddr = re_inet_addr E (argv ! 2)\<rparr>"
  have "htons 20 = 0x1400" by code_simp
  then have fill: "fill_header (re_rand E) (re_inet_addr E (argv ! 1)) (re_inet_addr E (argv ! 2)) 20 = h"
    by (simp add: fill_header_def blank_iphdr_def h_def)
  have h0: "h\<lparr>check := 0\<rparr> = h" "ihl h = 5" by (simp_all add: h_def)
  obtain k where k: "ip_checksum (iphdr_bytes h) = Inr k"
    "\<And>c. ip_checksum (iphdr_bytes (h\<lparr>check := c\<rparr>)) = Inr 0 \<longleftrightarrow> c = k \<or> c = - 1 \<and> k = 0"
    using header_verifies [OF h0(2)] h0(1) by auto
  have v: "ip_checksum (iphdr_bytes (h\<lparr>check := htons k\<rparr>)) = Inr 0 \<longleftrightarrow> lo8 k = hi8 k"
    unfolding k(2) htons_full htons_fixed by auto
  obtain out where out: "ulog (re_debug E) (re_stack E) (bytes_of ''0x'' @ hex4 (htons k) @ [10]) = Inr out"
    using ulog_runs by blast
  have main: "raw_main E argv = raw_exchange E out (iphdr_bytes (h\<lparr>check := htons k\<rparr>))"
    using assms out k(1) by (simp add: raw_main_def Let_def iphdr_size fill [unfolded One_nat_def])
  obtain r bs where r: "re_recvfrom E 20 = (r, bs)" by (cases "re_recvfrom E 20")
  have "if 1 \<le> fst (re_recvfrom E 20) \<and> \<not> re_fopen E then raw_main E argv = Inl NullDeref
     else \<exists>res. raw_main E argv = Inr res \<and> sent res = Some (iphdr_bytes (h\<lparr>check := htons k\<rparr>))"
    unfolding main using assms(5)
    by (auto simp: raw_exchange_def Let_def iphdr_size r die_def sdie_runs)
  then show ?thesis using k(1) v unfolding h_def by blast
qed

definition sample_raw :: "bool \<Rightarrow> int \<Rightarrow> raw_env" where
  "sample_raw file_ok r = \<lparr>re_stack = (\<lambda>i. 0xCC), re_debug = False,
     re_inet_addr = (\<lambda>a. if a = bytes_of ''127.0.0.1'' then 0x0100007F else 0x0200007F),
     re_socket = 3, re_setsockopt = 0, re_malloc = True, re_rand = 1804289383, re_sendto = 20,
     re_recvfrom = (\<lambda>n. (r, replicate (min n (nat r)) 69)), re_fopen = file_ok\<rparr>"

lemma raw_main_sends_witness:
  "\<exists>h k. protocol h = 110 \<and> ip_checksum (iphdr_bytes h) = Inr k \<and>
    raw_main (sample_raw False 20) [[], bytes_of ''127.0.0.1'', bytes_of ''127.0.0.2''] = Inl NullDeref \<and>
    (ip_checksum (iphdr_bytes (h\<lparr>check := htons k\<rparr>)) = Inr 0 \<longleftrightarrow> lo8 k = hi8 k)"
proof -
  let ?E = "sample_raw False 20" and ?argv = "[[], bytes_of ''127.0.0.1'', bytes_of ''127.0.0.2'']"
  have ok: "3 \<le> length ?argv" "0 \<le> re_socket ?E" "re_setsockopt ?E \<noteq> - 1" "re_malloc ?E" "1 \<le> re_sendto ?E"
    by (simp_all add: sample_raw_def)
  have last: "1 \<le> fst (re_recvfrom ?E 20) \<and> \<not> re_fopen ?E" by (simp add: sample_raw_def)
  define h where "h = \<lparr>ihl = 5, version = 4, tos = 0, tot_len = 0x1400, ip_id = word_of_int (re_rand ?E),
      frag_off = 0, ttl = 73, protocol = 110, check = 0, saddr = re_inet_addr ?E (?argv ! 1),
      daddr = re_inet_addr ?E (?argv ! 2)\<rparr>"
  have p: "protocol h = 110" by (simp add: h_def)
  show ?thesis
    using raw_main_sends [OF ok] p last unfolding h_def [symmetric] by auto
qed

text \<open>The last line of a run that fails: the usage, or the first call that failed.\<close>

definition raw_failure :: "raw_env \<Rightarrow> byte list list \<Rightarrow> console option" where
  "raw_failure E argv =
     (if length argv < 3 then Some (Stderr (usage_text (argv ! 0) @ [10]))
      else map_option (\<lambda>x. Perror (bytes_of (snd x))) (find fst
        [(re_socket E < 0, ''socket()''), (re_setsockopt E = - 1, ''setsockopt()''),
         (\<not> re_malloc E, ''malloc()''), (re_sendto E < 1, ''sendto()''),
         (fst (re_recvfrom E 20) < 1, ''recvfrom()'')]))"

lemma raw_main_early:
  assumes "3 \<le> length argv" "re_socket E < 0 \<or> re_setsockopt E = - 1 \<or> \<not> re_malloc E"
  shows "\<exists>m. raw_failure E argv = Some m \<and>
    raw_main E argv = Inr \<lparr>exit_code = 1, console_out = [m], sent = None, packet_file = None\<rparr>"
  using assms
  by (cases "re_socket E < 0"; cases "re_setsockopt E = - 1")
    (simp_all add: raw_main_def raw_failure_def die_def sdie_runs)

lemma raw_main_late:
  assumes "3 \<le> length argv" "0 \<le> re_socket E" "re_setsockopt E \<noteq> - 1" "re_malloc E"
  obtains out pkt where "raw_main E argv = raw_exchange E out pkt" "length pkt = 20"
proof -
  let ?h = "fill_header (re_rand E) (re_inet_addr E (argv ! 1)) (re_inet_addr E (argv ! 2)) 20"
  have "?h\<lparr>check := 0\<rparr> = ?h" "ihl ?h = 5" by (simp_all add: fill_header_def blank_iphdr_def)
  then obtain k where k: "ip_checksum (iphdr_bytes ?h) = Inr k" using header_verifies [of ?h] by auto
  obtain out where "ulog (re_debug E) (re_stack E) (bytes_of ''0x'' @ hex4 (htons k) @ [10]) = Inr out"
    using ulog_runs by blast
  then have "raw_main E argv = raw_exchange E out (iphdr_bytes (?h\<lparr>check := htons k\<rparr>))"
    using assms k [unfolded One_nat_def] by (simp add: raw_main_def Let_def iphdr_size)
  then show ?thesis using that iphdr_size by blast
qed

text \<open>C36: How \<open>main\<close> ends. It exits with 0 exactly when every call worked and the file is
  written, with the bytes received laid over the packet; otherwise it exits with 1, its last
  output is the usage or the name of the first call that failed, and no file is written. It
  faults only by writing to the file it could not create.\<close>

theorem raw_main_outcome:
  assumes "argv \<noteq> []" "0 \<notin> set (usage_text (argv ! 0))" "length (usage_text (argv ! 0)) + 2 \<le> MAX_BUFF"
    and "length (snd (re_recvfrom E 20)) \<le> 20"
  shows "case raw_main E argv of
      Inl f \<Rightarrow> f = NullDeref \<and> raw_failure E argv = None \<and> \<not> re_fopen E
    | Inr res \<Rightarrow>
        (case raw_failure E argv of
           Some m \<Rightarrow> exit_code res = 1 \<and> last (console_out res) = m \<and> packet_file res = None
         | None \<Rightarrow> exit_code res = 0 \<and> re_fopen E \<and>
             (\<exists>pkt. sent res = Some pkt \<and> length pkt = 20 \<and>
                packet_file res = Some (snd (re_recvfrom E 20) @ drop (length (snd (re_recvfrom E 20))) pkt)))"
proof -
  consider "length argv < 3"
    | "3 \<le> length argv" "re_socket E < 0 \<or> re_setsockopt E = - 1 \<or> \<not> re_malloc E"
    | "3 \<le> length argv" "0 \<le> re_socket E" "re_setsockopt E \<noteq> - 1" "re_malloc E" by force
  then show ?thesis
  proof cases
    case 1
    then show ?thesis using assms
      by (cases argv) (auto simp: raw_main_def raw_failure_def die_def udie_def print_user_runs)
  next
    case 2
    then show ?thesis using raw_main_early by fastforce
  next
    case 3
    obtain out pkt where m: "raw_main E argv = raw_exchange E out pkt" "length pkt = 20"
      by (rule raw_main_late [OF 3])
    obtain r bs where r: "re_recvfrom E 20 = (r, bs)" by (cases "re_recvfrom E 20")
    show ?thesis
      using 3 assms(4) unfolding m(1)
      by (auto simp: raw_exchange_def raw_failure_def Let_def m(2) r die_def sdie_runs buf_write_def)
  qed
qed

lemma raw_main_outcome_witness:
  "case raw_main (sample_raw True 20) [[114], bytes_of ''127.0.0.1'', bytes_of ''127.0.0.2''] of
     Inl f \<Rightarrow> False | Inr res \<Rightarrow> exit_code res = 0 \<and> packet_file res = Some (replicate 20 69)"
proof -
  let ?E = "sample_raw True 20" and ?argv = "[[114], bytes_of ''127.0.0.1'', bytes_of ''127.0.0.2'']"
  have u: "0 \<notin> set (usage_text (?argv ! 0)) \<and> length (usage_text (?argv ! 0)) \<le> 60" by code_simp
  then have u2: "0 \<notin> set (usage_text (?argv ! 0))" "length (usage_text (?argv ! 0)) + 2 \<le> MAX_BUFF"
    by (auto simp: MAX_BUFF_def)
  have n: "?argv \<noteq> []" and l: "length (snd (re_recvfrom ?E 20)) \<le> 20" by (simp_all add: sample_raw_def)
  have f: "raw_failure ?E ?argv = None" and o: "re_fopen ?E" "re_recvfrom ?E 20 = (20, replicate 20 69)"
    by (simp_all add: raw_failure_def sample_raw_def)
  show ?thesis
    using raw_main_outcome [OF n u2 l] f o by (auto split: sum.splits)
qed

end
