(* ===== verification/EthEcho.thy ===== *)
theory EthEcho
  imports RawIp
begin

text \<open>
  The Ethernet listener (\<open>Eth0/src/main.c\<close>): the set-up of its packet socket and the body of
  its endless loop, which receives a frame, prints its addresses and sends it out again. What
  the system calls answer is an argument; a run is a list of the frames received.
\<close>

section \<open>Set-up\<close>

abbreviation (input) IFNAMSIZ :: nat where "IFNAMSIZ \<equiv> 16"
abbreviation (input) BUF_SIZ :: nat where "BUF_SIZ \<equiv> 1024"
abbreviation (input) IFF_PROMISC :: "16 word" where "IFF_PROMISC \<equiv> 0x100"

definition c_strncpy :: "byte list \<Rightarrow> byte list \<Rightarrow> nat \<Rightarrow> byte list res" where
  "c_strncpy dst src n =
     (if n \<le> length dst then Inr (buf_write dst 0 (take n (cstr src @ replicate n 0))) else Inl OutOfBounds)"

text \<open>\<open>ee_flags\<close>: what \<open>ifr_flags\<close> holds after \<open>SIOCGIFFLAGS\<close>, whose result is not checked.\<close>

record eth_env =
  ee_name_stack :: "nat \<Rightarrow> byte"
  ee_ifr_stack :: "nat \<Rightarrow> byte"
  ee_socket :: int
  ee_flags :: "byte list \<Rightarrow> 16 word"
  ee_reuse :: int
  ee_bind :: int

datatype eth_start = EthExit string | EthListening "byte list" "byte list" "16 word"

definition DEFAULT_IF :: "byte list" where "DEFAULT_IF = bytes_of ''ens32''"

definition eth_ifname :: "byte list list \<Rightarrow> byte list" where
  "eth_ifname argv = (if length argv > 1 then argv ! 1 else DEFAULT_IF)"

definition eth_setup :: "eth_env \<Rightarrow> byte list list \<Rightarrow> eth_start res" where
  "eth_setup E argv =
     kbind (c_sprintf (map (ee_name_stack E) [0..<IFNAMSIZ]) (eth_ifname argv)) (\<lambda>if_name.
     if ee_socket E = - 1 then Inr (EthExit ''socket()'')
     else kbind (c_strncpy (map (ee_ifr_stack E) [0..<IFNAMSIZ]) if_name (IFNAMSIZ - 1)) (\<lambda>ifr_name.
     let ifr_flags = ee_flags E ifr_name OR IFF_PROMISC in
     if ee_reuse E = - 1 then Inr (EthExit ''setsockopt'')
     else if ee_bind E = - 1 then Inr (EthExit ''SO_BINDTODEVICE'')
     else Inr (EthListening if_name ifr_name ifr_flags)))"

section \<open>The loop\<close>

record eth_state =
  eth_buf :: "byte list"
  sll_halen :: byte
  sll_addr :: "byte list"

text \<open>The type, length and destination printed; the length, bytes, address and address length sent.\<close>

datatype eth_event = EthGot "16 word" int "byte list" | EthSend int "byte list" "byte list" int

text \<open>
  The last argument of \<open>sendto\<close> is the comparison \<open>sizeof(struct sockaddr_ll) < 0\<close> of unsigned
  numbers.
\<close>

definition eth_addrlen :: int where
  "eth_addrlen = (if u64 20 < u64 0 then 1 else 0)"

definition eth_iter :: "int \<times> byte list \<Rightarrow> eth_state \<Rightarrow> eth_event list \<times> eth_state" where
  "eth_iter rcv st =
     (let (numbytes, bs) = rcv;
          buf = buf_write (eth_buf st) 0 bs;
          dhost = take 6 buf;
          addr = buf_write (sll_addr st) 0 dhost
      in ([EthGot (htons (le16 (buf ! 12) (buf ! 13))) numbytes dhost,
           EthSend (u64 numbytes) (take (nat numbytes) buf) addr eth_addrlen],
          st\<lparr>eth_buf := buf, sll_halen := 6, sll_addr := addr\<rparr>))"

fun eth_run :: "(int \<times> byte list) list \<Rightarrow> eth_state \<Rightarrow> eth_event list \<times> eth_state" where
  "eth_run [] st = ([], st)"
| "eth_run (r # rs) st =
     (let (ev, st1) = eth_iter r st; (evs, st2) = eth_run rs st1 in (ev @ evs, st2))"

text \<open>What \<open>recvfrom\<close> returns: the number of bytes it stored, or -1.\<close>

definition rcv_ok :: "int \<times> byte list \<Rightarrow> bool" where
  "rcv_ok r \<longleftrightarrow> fst r = - 1 \<and> snd r = [] \<or> fst r = int (length (snd r)) \<and> length (snd r) \<le> BUF_SIZ"

definition eth_ok :: "eth_state \<Rightarrow> bool" where
  "eth_ok st \<longleftrightarrow> length (eth_buf st) = BUF_SIZ \<and> length (sll_addr st) = 8"

definition eth_sends :: "eth_event list \<Rightarrow> eth_event list" where
  "eth_sends evs = filter (\<lambda>e. case e of EthSend n bs a l \<Rightarrow> True | _ \<Rightarrow> False) evs"

text \<open>A frame as it is sent, without the address.\<close>

fun eth_payload :: "eth_event \<Rightarrow> int \<times> byte list \<times> int" where
  "eth_payload (EthSend n bs a l) = (n, bs, l)"
| "eth_payload (EthGot t n d) = (n, [], 0)"

lemma eth_iter_ok:
  assumes "eth_ok st" "rcv_ok r"
  shows "eth_ok (snd (eth_iter r st))"
    "map eth_payload (eth_sends (fst (eth_iter r st))) = [(u64 (fst r), snd r, 0)]"
proof -
  obtain n bs where r: "r = (n, bs)" by (cases r)
  have len: "length bs \<le> length (eth_buf st)" "length (eth_buf st) = 1024"
    using assms by (auto simp: rcv_ok_def eth_ok_def r)
  then have b: "length (buf_write (eth_buf st) 0 bs) = 1024" by simp
  have "take (nat n) (buf_write (eth_buf st) 0 bs) = bs"
    using assms(2) by (auto simp: rcv_ok_def r buf_write_def)
  then show "map eth_payload (eth_sends (fst (eth_iter r st))) = [(u64 (fst r), snd r, 0)]"
    by (simp add: eth_iter_def r Let_def eth_sends_def eth_addrlen_def u64_def)
  show "eth_ok (snd (eth_iter r st))"
    using assms(1) b by (simp add: eth_iter_def r Let_def eth_ok_def)
qed

lemma eth_run_sends:
  "eth_ok st \<Longrightarrow> \<forall>r \<in> set rs. rcv_ok r \<Longrightarrow>
   map eth_payload (eth_sends (fst (eth_run rs st))) = map (\<lambda>r. (u64 (fst r), snd r, 0)) rs"
proof (induction rs arbitrary: st)
  case Nil
  then show ?case by (simp add: eth_sends_def)
next
  case (Cons r rs)
  obtain ev st1 where it: "eth_iter r st = (ev, st1)" by (cases "eth_iter r st")
  then have "eth_ok st1" "map eth_payload (eth_sends ev) = [(u64 (fst r), snd r, 0)]"
    using eth_iter_ok [of st r] Cons.prems by simp_all
  then show ?case
    using Cons.IH [of st1] Cons.prems it by (simp add: eth_sends_def split_beta Let_def)
qed

section \<open>Properties\<close>

text \<open>The set-up overruns the interface-name array exactly for names of 16 bytes or more, which
  nothing checks. With a shorter name it exits at the first call that fails and otherwise
  listens, with the promiscuous flag set in what it asked of the interface.\<close>

lemma eth_setup_bounds:
  "if IFNAMSIZ \<le> length (eth_ifname argv) then eth_setup E argv = Inl OutOfBounds
   else if ee_socket E = - 1 then eth_setup E argv = Inr (EthExit ''socket()'')
   else if ee_reuse E = - 1 then eth_setup E argv = Inr (EthExit ''setsockopt'')
   else if ee_bind E = - 1 then eth_setup E argv = Inr (EthExit ''SO_BINDTODEVICE'')
   else \<exists>name ifr_name flags. eth_setup E argv = Inr (EthListening name ifr_name flags) \<and>
     length ifr_name = IFNAMSIZ \<and> bit flags 8"
proof -
  have "bit (IFF_PROMISC) 8" by code_simp
  then show ?thesis
    by (simp add: eth_setup_def c_sprintf_def c_strncpy_def Let_def bit_simps)
qed

text \<open>C40: The loop sends out every frame it receives, byte for byte and in order, but never with the
  address it prepared: the address length it passes is always 0. A failed receive is not
  noticed either, and asks for 2^64 - 1 bytes to be sent.\<close>

theorem eth_echoes_unaddressed:
  assumes "eth_ok st" "\<forall>r \<in> set rs. rcv_ok r"
  shows "map eth_payload (eth_sends (fst (eth_run rs st))) =
    map (\<lambda>r. (if fst r = - 1 then 2 ^ 64 - 1 else int (length (snd r)), snd r, 0)) rs"
proof -
  have "u64 (fst r) = (if fst r = - 1 then 2 ^ 64 - 1 else int (length (snd r)))" if "r \<in> set rs" for r
    using assms(2) that by (fastforce simp: rcv_ok_def u64_def)
  then show ?thesis unfolding eth_run_sends [OF assms] by simp
qed

lemma eth_echoes_unaddressed_witness:
  "map eth_payload (eth_sends (fst (eth_run [(2, [7, 9]), (- 1, [])]
     \<lparr>eth_buf = replicate 1024 0, sll_halen = 0, sll_addr = replicate 8 0\<rparr>))) =
   [(2, [7, 9], 0), (2 ^ 64 - 1, [], 0)]"
proof -
  let ?st = "\<lparr>eth_buf = replicate 1024 0, sll_halen = 0, sll_addr = replicate 8 0\<rparr> :: eth_state"
  have "eth_ok ?st" "\<forall>r \<in> set [(2, [7, 9]), (- 1, [] :: byte list)]. rcv_ok r"
    by (simp_all add: eth_ok_def rcv_ok_def)
  from eth_echoes_unaddressed [OF this] show ?thesis by simp
qed

end
