(* ===== verification/IpOctets.thy ===== *)
theory IpOctets
  imports KPrelude
begin

text \<open>
  The octets of an IPv4 header that \<open>RawIP/doc/ip.h\<close> takes apart: the type of service into a
  precedence and four flags, the type of an option into its copied flag, class and number. The
  programs of the repository set the first to 0 and send no options.
\<close>

unbundle bit_operations_syntax

section \<open>Type of service\<close>

definition IPTOS_TOS_MASK :: "8 word" where "IPTOS_TOS_MASK = 0x1E"
definition IPTOS_TOS :: "8 word \<Rightarrow> 8 word" where "IPTOS_TOS tos = tos AND IPTOS_TOS_MASK"
definition IPTOS_LOWDELAY :: "8 word" where "IPTOS_LOWDELAY = 0x10"
definition IPTOS_THROUGHPUT :: "8 word" where "IPTOS_THROUGHPUT = 0x08"
definition IPTOS_RELIABILITY :: "8 word" where "IPTOS_RELIABILITY = 0x04"
definition IPTOS_MINCOST :: "8 word" where "IPTOS_MINCOST = 0x02"
definition IPTOS_PREC_MASK :: "8 word" where "IPTOS_PREC_MASK = 0xE0"
definition IPTOS_PREC :: "8 word \<Rightarrow> 8 word" where "IPTOS_PREC tos = tos AND IPTOS_PREC_MASK"
definition IPTOS_PREC_NETCONTROL :: "8 word" where "IPTOS_PREC_NETCONTROL = 0xe0"
definition IPTOS_PREC_INTERNETCONTROL :: "8 word" where "IPTOS_PREC_INTERNETCONTROL = 0xc0"
definition IPTOS_PREC_CRITIC_ECP :: "8 word" where "IPTOS_PREC_CRITIC_ECP = 0xa0"
definition IPTOS_PREC_FLASHOVERRIDE :: "8 word" where "IPTOS_PREC_FLASHOVERRIDE = 0x80"
definition IPTOS_PREC_FLASH :: "8 word" where "IPTOS_PREC_FLASH = 0x60"
definition IPTOS_PREC_IMMEDIATE :: "8 word" where "IPTOS_PREC_IMMEDIATE = 0x40"
definition IPTOS_PREC_PRIORITY :: "8 word" where "IPTOS_PREC_PRIORITY = 0x20"
definition IPTOS_PREC_ROUTINE :: "8 word" where "IPTOS_PREC_ROUTINE = 0x00"

text \<open>A type of service is its precedence, its flags and the lowest bit, which both leave alone; the
  eight precedences and the four flags are the values the two fields can take.\<close>

lemmas tos_defs = IPTOS_TOS_MASK_def IPTOS_TOS_def IPTOS_PREC_MASK_def IPTOS_PREC_def

lemmas precedence_defs = IPTOS_PREC_NETCONTROL_def IPTOS_PREC_INTERNETCONTROL_def IPTOS_PREC_CRITIC_ECP_def
  IPTOS_PREC_FLASHOVERRIDE_def IPTOS_PREC_FLASH_def IPTOS_PREC_IMMEDIATE_def IPTOS_PREC_PRIORITY_def IPTOS_PREC_ROUTINE_def

lemma tos_fields:
  "IPTOS_PREC tos OR IPTOS_TOS tos OR tos AND 1 = tos"
  "IPTOS_PREC tos AND IPTOS_TOS tos' = 0"
proof -
  have "IPTOS_PREC tos OR IPTOS_TOS tos OR tos AND 1 = tos AND (0xE0 OR 0x1E OR 1)"
    unfolding tos_defs bit.conj_disj_distrib by (simp only: ac_simps)
  also have "(0xE0 OR 0x1E OR 1 :: 8 word) = - 1" by simp
  finally show "IPTOS_PREC tos OR IPTOS_TOS tos OR tos AND 1 = tos" by simp
  have "IPTOS_PREC tos AND IPTOS_TOS tos' = (0xE0 AND 0x1E) AND (tos AND tos')"
    unfolding tos_defs by (simp only: ac_simps)
  also have "(0xE0 AND 0x1E :: 8 word) = 0" by simp
  finally show "IPTOS_PREC tos AND IPTOS_TOS tos' = 0" by simp
qed

definition precedences :: "8 word list" where
  "precedences = [IPTOS_PREC_ROUTINE, IPTOS_PREC_PRIORITY, IPTOS_PREC_IMMEDIATE, IPTOS_PREC_FLASH,
     IPTOS_PREC_FLASHOVERRIDE, IPTOS_PREC_CRITIC_ECP, IPTOS_PREC_INTERNETCONTROL, IPTOS_PREC_NETCONTROL]"

lemma precedence_named: "IPTOS_PREC tos = precedences ! unat (drop_bit 5 tos)"
proof -
  define k where "k = drop_bit 5 tos"
  have "(0xE0 :: 8 word) = push_bit 5 (mask 3)" by (simp add: mask_numeral)
  moreover have "tos AND push_bit 5 (mask 3) = push_bit 5 k"
    unfolding k_def by (auto intro!: bit_word_eqI simp: bit_simps)
  ultimately have "IPTOS_PREC tos = push_bit 5 k" unfolding tos_defs by (simp only:)
  moreover have "unat k < 8"
    using unsigned_less [of tos, where ?'a = nat] by (simp add: k_def unat_drop_bit_eq drop_bit_nat_def)
  then have "unat k \<in> set [0..<8]" by simp
  then have "word_of_nat (unat k) \<in> set (map word_of_nat [0..<8] :: 8 word list)" by (simp only: set_map imageI)
  then have "k \<in> set (map word_of_nat [0..<8])" by simp
  then have "push_bit 5 k = precedences ! unat k"
    by (auto simp: upt_rec precedences_def precedence_defs)
  ultimately show ?thesis by (simp add: k_def)
qed

lemma tos_flags: "IPTOS_LOWDELAY OR IPTOS_THROUGHPUT OR IPTOS_RELIABILITY OR IPTOS_MINCOST = IPTOS_TOS_MASK"
  by (simp add: IPTOS_LOWDELAY_def IPTOS_THROUGHPUT_def IPTOS_RELIABILITY_def IPTOS_MINCOST_def IPTOS_TOS_MASK_def)

section \<open>Options\<close>

definition IPOPT_COPY :: "8 word" where "IPOPT_COPY = 0x80"
definition IPOPT_CLASS_MASK :: "8 word" where "IPOPT_CLASS_MASK = 0x60"
definition IPOPT_NUMBER_MASK :: "8 word" where "IPOPT_NUMBER_MASK = 0x1f"
definition IPOPT_COPIED :: "8 word \<Rightarrow> 8 word" where "IPOPT_COPIED opt = opt AND IPOPT_COPY"
definition IPOPT_CLASS :: "8 word \<Rightarrow> 8 word" where "IPOPT_CLASS opt = opt AND IPOPT_CLASS_MASK"
definition IPOPT_NUMBER :: "8 word \<Rightarrow> 8 word" where "IPOPT_NUMBER opt = opt AND IPOPT_NUMBER_MASK"
definition IPOPT_CONTROL :: "8 word" where "IPOPT_CONTROL = 0x00"
definition IPOPT_RESERVED1 :: "8 word" where "IPOPT_RESERVED1 = 0x20"
definition IPOPT_MEASUREMENT :: "8 word" where "IPOPT_MEASUREMENT = 0x40"
definition IPOPT_RESERVED2 :: "8 word" where "IPOPT_RESERVED2 = 0x60"
definition IPOPT_END :: "8 word" where "IPOPT_END = 0 OR IPOPT_CONTROL"
definition IPOPT_NOOP :: "8 word" where "IPOPT_NOOP = 1 OR IPOPT_CONTROL"
definition IPOPT_SEC :: "8 word" where "IPOPT_SEC = 2 OR IPOPT_CONTROL OR IPOPT_COPY"
definition IPOPT_LSRR :: "8 word" where "IPOPT_LSRR = 3 OR IPOPT_CONTROL OR IPOPT_COPY"
definition IPOPT_TIMESTAMP :: "8 word" where "IPOPT_TIMESTAMP = 4 OR IPOPT_MEASUREMENT"
definition IPOPT_CIPSO :: "8 word" where "IPOPT_CIPSO = 6 OR IPOPT_CONTROL OR IPOPT_COPY"
definition IPOPT_RR :: "8 word" where "IPOPT_RR = 7 OR IPOPT_CONTROL"
definition IPOPT_SID :: "8 word" where "IPOPT_SID = 8 OR IPOPT_CONTROL OR IPOPT_COPY"
definition IPOPT_SSRR :: "8 word" where "IPOPT_SSRR = 9 OR IPOPT_CONTROL OR IPOPT_COPY"
definition IPOPT_RA :: "8 word" where "IPOPT_RA = 20 OR IPOPT_CONTROL OR IPOPT_COPY"

lemmas option_fields = IPOPT_COPIED_def IPOPT_CLASS_def IPOPT_NUMBER_def IPOPT_COPY_def IPOPT_CLASS_MASK_def
  IPOPT_NUMBER_MASK_def IPOPT_CONTROL_def IPOPT_RESERVED1_def IPOPT_MEASUREMENT_def IPOPT_RESERVED2_def
lemmas option_names = IPOPT_END_def IPOPT_NOOP_def IPOPT_SEC_def IPOPT_LSRR_def IPOPT_TIMESTAMP_def
  IPOPT_CIPSO_def IPOPT_RR_def IPOPT_SID_def IPOPT_SSRR_def IPOPT_RA_def

text \<open>An option type is the union of its three fields, any three fields make an option type that gives
  them back, and the ten named types differ in their numbers.\<close>

lemma option_split: "IPOPT_COPIED opt OR IPOPT_CLASS opt OR IPOPT_NUMBER opt = opt"
proof -
  have "IPOPT_COPIED opt OR IPOPT_CLASS opt OR IPOPT_NUMBER opt = opt AND (0x80 OR 0x60 OR 0x1f)"
    unfolding option_fields bit.conj_disj_distrib ..
  also have "(0x80 OR 0x60 OR 0x1f :: 8 word) = - 1" by simp
  finally show ?thesis by simp
qed

lemma option_join:
  assumes "c \<in> {0, IPOPT_COPY}" "k \<in> {IPOPT_CONTROL, IPOPT_RESERVED1, IPOPT_MEASUREMENT, IPOPT_RESERVED2}" "n < 32"
  shows "IPOPT_COPIED (n OR k OR c) = c" "IPOPT_CLASS (n OR k OR c) = k" "IPOPT_NUMBER (n OR k OR c) = n"
proof -
  have n: "n AND 0x80 = 0" "n AND 0x60 = 0" "n AND 0x1f = n"
  proof -
    have "n = take_bit 5 n" using assms(3) by (simp add: word_unat_eq_iff unsigned_take_bit_eq take_bit_nat_eq_self word_less_nat_alt)
    then have "n = n AND 0x1f" by (simp add: take_bit_eq_mask mask_numeral)
    then have e: "n AND x = n AND (0x1f AND x)" for x by (metis and.assoc)
    show "n AND 0x80 = 0" "n AND 0x60 = 0" "n AND 0x1f = n" using e [of "0x80"] e [of "0x60"] \<open>n = n AND 0x1f\<close> by simp_all
  qed
  show "IPOPT_COPIED (n OR k OR c) = c" "IPOPT_CLASS (n OR k OR c) = k" "IPOPT_NUMBER (n OR k OR c) = n"
    using assms(1,2) n by (auto simp: option_fields bit.conj_disj_distrib2)
qed

definition named_options :: "8 word list" where
  "named_options = [IPOPT_END, IPOPT_NOOP, IPOPT_SEC, IPOPT_LSRR, IPOPT_TIMESTAMP, IPOPT_CIPSO, IPOPT_RR, IPOPT_SID,
     IPOPT_SSRR, IPOPT_RA]"

lemma named_options_numbers:
  "map IPOPT_NUMBER named_options = [0, 1, 2, 3, 4, 6, 7, 8, 9, 20]"
  by (simp add: named_options_def option_names option_fields)

end
