(* ===== verification/Spec2Isabelle.thy ===== *)
theory Spec2Isabelle
  imports IdFile ScullLin ScullContract ScullSpec ScullLife ScullSeq LifoWriters LifoSession EthEcho IpOctets
begin

text \<open>
  A verification of the kernel-training repository: small Linux kernel modules (character
  devices, debugfs and misc files, a netfilter hook, hello-world modules) and two user-space
  network programs, all in C. The main parts are the scull device of \<open>Scull/main.c\<close> and the LIFO
  device of \<open>LIFO/main.c\<close>.

  \<^bold>\<open>How the code is modelled.\<close> C integers are \<open>int\<close>s that go through \<open>s32\<close>, \<open>s64\<close>, \<open>u32\<close>,
  \<open>u64\<close> wherever the code converts or can leave the range of a type (64-bit ABI, little endian,
  signed arithmetic wraps as the kernel is built); bit-level code uses words. A pointer is a
  64-bit word and the kernel's memory a map from the start addresses of live objects to their
  contents, so that freeing, dangling pointers and double frees are visible. An operation is a
  function with explicit state; its result is \<open>Inr\<close> of what the code returns, negative error
  numbers included, or \<open>Inl\<close> of a fault: a null or dangling pointer, an access out of bounds, a
  bad free, a division trap, or a sleep that cannot end. Loops are recursive functions with
  termination proofs; no fuel is used. The walk of \<open>scull_seq_show\<close> is a partial function,
  because on a cyclic list it does not end, and it is proved to return on a well-formed device.
  What the repository does not contain (the allocator, the user-space accessors, the
  \<open>simple_*_buffer\<close> helpers, registrations, system calls) is an argument; the documented
  behaviour a theorem relies on is a named hypothesis (\<open>kmalloc_ok\<close>, \<open>kmalloc_gives\<close>, \<open>copy_to_ok\<close>,
  \<open>copy_from_ok\<close>, \<open>user_int_ok\<close>, \<open>libfs_ok\<close>, \<open>ioc_ok\<close>) and holds for the concrete instances
  \<open>sample_api\<close>, \<open>sample_libfs\<close> and \<open>linux_ioc\<close> of the witnesses.

  \<^bold>\<open>Shared theories.\<close>
  \<^item> \<open>KPrelude\<close>: faults and results, machine integers, C division, buffers, the store.
  \<^item> \<open>KernelApi\<close>: user memory and the kernel services, with their laws and an instance.
  \<^item> \<open>Libfs\<close>: the two buffer helpers, C strings, \<open>sprintf\<close>.

  \<^bold>\<open>scull\<close> (\<open>Scull/main.c\<close>, \<open>Scull/scull.h\<close>).
  \<^item> \<open>Scull\<close>: \<open>scull_trim\<close>, \<open>scull_follow\<close>, \<open>scull_read\<close>, \<open>scull_write\<close>, \<open>scull_open\<close>,
    \<open>scull_release\<close>, \<open>scull_llseek\<close>, under the names of the code; the parts of the long functions
    that stand under the semaphore, and their loops and limits, are definitions of their own.
  \<^item> \<open>ScullList\<close>, \<open>ScullFile\<close>, \<open>ScullRW\<close>: the list of quantum sets as an abstract list of nodes
    (\<open>nodes\<close>, \<open>scull_rep\<close>, \<open>owned\<close>), the bytes of a device as a function of the position
    (\<open>scull_peek\<close>), and what following, trimming, reading and writing do to both.
  \<^item> \<open>ScullProps\<close>: reading and writing on every branch, reading back, uncleared quanta. The
    interface \<open>sem_section\<close> is what the semaphore bracket needs of its body. \<open>ScullMemory\<close>: a write
    runs out of memory only when the allocator refused.
  \<^item> \<open>ScullIoctl\<close>: \<open>scull_ioctl\<close> and its refinement of the header's command scheme.
  \<^item> \<open>ScullAdmin\<close>: trimming, opening, seeking, and the limits of the addressing. \<open>geom_ok\<close> asks for
    positive parameters whose product is an \<open>int\<close>, \<open>pos_ok\<close> for an item number that is one;
    without them the positions alias or the division traps, which is shown too.
  \<^item> \<open>ScullSession\<close>: \<open>scull_fops\<close> and the sessions of user programs: any number of open files on any
    number of devices (\<open>vfs\<close>), calls made one after the other through the table (\<open>file_call\<close>,
    \<open>session\<close>). Sessions return, keep every device well formed and apart from the others, and
    account for every kernel object. \<open>session_ok\<close> asks of each call what the kernel checks before it
    calls the driver, and that the module parameters stay sane (\<open>geom_ok\<close>) in the states it passes.
    \<open>ScullSafe\<close> holds what a session needs of each operation without naming its result:
    \<open>own_step\<close>, the law that only objects of the device are freed and only fresh ones taken.
  \<^item> \<open>ScullContract\<close>: what a caller can rely on, call by call and at every position: the bounds of
    a count, the move of a position, the size, that an error has no effect on them, and what no call
    changes. \<open>ScullStore\<close>: a byte stays where it was written until it is
    overwritten or its device is trimmed. \<open>ScullSpec\<close>: the specification of the devices as sparse
    files, one transition for each way a call may end, and the refinement of it by every session
    within the reach of the devices. \<open>ScullLife\<close>: load, session and unload together.
  \<^item> \<open>ScullConc\<close>: threads as a step relation: mutual exclusion on every run, safety of every
    interleaving while the parameters stay, and, when they change from one sane geometry to another,
    the race of a call that copied the old one before it had the semaphore. Each
    thread has a file, hence a position, of its own; the part of a call under the semaphore is
    one step, which is what mutual exclusion allows. \<open>ScullLin\<close>: the same steps as events
    (\<open>perform\<close>), and linearizability: while the parameters stay, a run of any number of threads
    is the sequential operations one after the other (\<open>seq_events\<close>), each between its call and
    its return (\<open>phases\<close>).
  \<^item> \<open>ScullProc\<close>, \<open>ScullSeq\<close>: the \<open>/proc\<close> files compiled with \<open>SCULL_DEBUG\<close>; the second holds the
    iterator table and a whole read of \<open>/proc/scullseq\<close>.

  \<^bold>\<open>LIFO\<close> (\<open>LIFO/main.c\<close>, \<open>LIFO/lifo.h\<close>). \<open>Lifo\<close> holds \<open>lifo_trim\<close>, \<open>lifo_open\<close>, \<open>lifo_read\<close> and
  \<open>lifo_write\<close>; \<open>LifoProps\<close> shows that they implement a stack of bytes (the interface
  \<open>byte_stack\<close>), and what a fault in the middle of a call, or a write-only open, leaves behind.
  \<open>LifoSession\<close> calls the operations through \<open>lifo_fops\<close>: a session answers as the stack machine
  (\<open>stack_session\<close>) does, and load, session and unload together lose the device structure and nothing
  else. \<open>LifoConc\<close> interleaves reads, writes and write-only opens, which take no lock, turn by turn: a
  call alone behaves as the sequential operation, two together use freed memory or lose a byte. A
  turn is coarser than the code, so this relation is used only to show what goes wrong.
  \<open>LifoWriters\<close> takes \<open>lifo_write\<close> apart into its single accesses to shared memory (\<open>write_micro\<close>;
  \<open>dev->fset++\<close> is a load and a store) under any schedule (\<open>lw_run\<close>; the accesses are seen in one order
  by all threads): writers alone never use freed memory and lose nothing that was there when they
  began, but the counter can end above or below the length of the list.

  \<^bold>\<open>Small files and modules\<close> (\<open>eudyptula-challenge\<close>, \<open>NetF\<close>). \<open>IdFile\<close>: the four copies of the id
  file of Task06 and Task08, behind the interface \<open>id_file\<close>, the jiffies file, and their tables. \<open>FooFile\<close>: the
  foo file and its semaphore. \<open>Modules\<close>: the load and unload functions as lists of resources
  taken and given back, with the interface \<open>clean_module\<close> and an interpretation for every module
  that satisfies it, the callbacks of the USB module, the netfilter hook, the coding-style module,
  \<open>hello_world_init\<close> (which returns what the result register holds) and \<open>memmod\<close> (whose \<open>starter\<close>
  reads the address 2). \<open>DriverModules\<close>: loading and
  unloading scull and LIFO on whatever the file operations have left.

  \<^bold>\<open>Network programs.\<close> \<open>IpChecksum\<close> (\<open>RawIP/src/ip_func.c\<close>): the checksum against the ones'
  complement sum; a header has at most 60 bytes, so 30 words, and the 32-bit sum cannot wrap.
  \<open>RawIp\<close> (\<open>RawIP/src/main.c\<close>, \<open>common.c\<close>, \<open>struct iphdr\<close> of \<open>RawIP/doc/ip.h\<close>): the header, the
  logging functions, \<open>main\<close>. \<open>EthEcho\<close> (\<open>Eth0/src/main.c\<close>): set-up and loop of the listener; a
  run is a list of received frames. \<open>IpOctets\<close> (\<open>RawIP/doc/ip.h\<close>): the macros that take the type of
  service and the option type apart.

  \<^bold>\<open>Not modelled.\<close> The structs of other extensions, the lengths and the configuration numbers in
  \<open>RawIP/doc/ip.h\<close>, and \<open>RawIP/doc/icmp.h\<close> and \<open>NetF/Note.c\<close>: declarations copied from kernel headers,
  without code and used by no source; prototypes; the texts of kernel log messages; the macros
  \<open>TYPE\<close> and \<open>NUM\<close> and the pipe and access devices that \<open>scull.h\<close> announces and the repository does not
  contain (the two pipe commands are modelled: \<open>scull_ioctl\<close> rejects them); shell scripts,
  Makefiles, documents and the kernel configuration. Concurrency is between threads with a file
  each; a file shared by two threads, whose position the kernel copies in and out around the call,
  is not modelled, and a command of \<open>scull_ioctl\<close>, which takes no lock either, is one step. Reading \<open>/proc/scullseq\<close> is one walk of the iterator, without the page-sized pieces
  of the kernel's \<open>seq_read\<close>.
\<close>

end
